(* ===== verification/Prelude.thy ===== *)
theory Prelude
  imports Main "HOL-Library.Word"
begin

text \<open>
  What every component of the latency_lab model shares: the fixed-width integers of the C++
  sources, the result type of code whose behaviour the C++ standard may leave undefined, the
  checked signed arithmetic of \<open>std::int32_t\<close>, the signed 64-bit price type with its order,
  and lemmas on lists and words that several components use.
\<close>

section \<open>Integers of the sources\<close>

type_synonym u8 = "8 word"

type_synonym u16 = "16 word"

type_synonym u32 = "32 word"

type_synonym u64 = "64 word"

named_theorems book_simps "rewrite rules for the order book handlers and their specification"

named_theorems pool_simps "rewrite rules for the object pool"

named_theorems queue_simps "rewrite rules for the two queues"

section \<open>Undefined behaviour as a value\<close>

text \<open>
  An operation that the C++ standard gives no meaning is a branch of its own: the left side of
  a sum. \<open>Signed_Overflow\<close> is overflow of a signed addition or subtraction,
  \<open>Out_Of_Bounds\<close> an access outside a \<open>std::vector\<close>, \<open>Dead_Object\<close> an access
  through a pointer to a slot that holds no live object, \<open>Data_Race\<close> an unsynchronised access
  of two threads to a plain object, \<open>Bad_Cast\<close> a conversion of a \<open>double\<close> to an integer type
  that cannot hold its integral part.
\<close>

datatype ub = Signed_Overflow | Out_Of_Bounds | Dead_Object | Data_Race | Bad_Cast

type_synonym 'a cpp = "ub + 'a"

definition cpp_bind :: "'a cpp \<Rightarrow> ('a \<Rightarrow> 'b cpp) \<Rightarrow> 'b cpp" where
  "cpp_bind x f = (case x of Inl e \<Rightarrow> Inl e | Inr a \<Rightarrow> f a)"

definition cpp_map :: "('a \<Rightarrow> 'b) \<Rightarrow> 'a cpp \<Rightarrow> 'b cpp" where
  "cpp_map f x = (case x of Inl e \<Rightarrow> Inl e | Inr a \<Rightarrow> Inr (f a))"

lemma cpp_bind_simps [simp]:
  "cpp_bind (Inl e) f = Inl e"
  "cpp_bind (Inr a) f = f a"
  by (simp_all add: cpp_bind_def)

lemma cpp_bind_Inr_iff: "cpp_bind x f = Inr b \<longleftrightarrow> (\<exists>a. x = Inr a \<and> f a = Inr b)"
  by (cases x) simp_all

lemma cpp_map_simps [simp]:
  "cpp_map f (Inl e) = Inl e"
  "cpp_map f (Inr a) = Inr (f a)"
  by (simp_all add: cpp_map_def)

lemma cpp_map_Inr_iff: "cpp_map f x = Inr b \<longleftrightarrow> (\<exists>a. x = Inr a \<and> f a = b)"
  by (cases x) simp_all

section \<open>Signed 32-bit arithmetic\<close>

text \<open>
  \<open>std::int32_t\<close> values are held as their 32 bits and read with \<open>sint\<close>; a result
  outside the range is undefined behaviour.
\<close>

definition i32_fits :: "int \<Rightarrow> bool" where
  "i32_fits x \<longleftrightarrow> - (2 ^ 31) \<le> x \<and> x < 2 ^ 31"

definition i32_sub :: "u32 \<Rightarrow> u32 \<Rightarrow> u32 cpp" where
  "i32_sub a b = (if i32_fits (sint a - sint b) then Inr (a - b) else Inl Signed_Overflow)"

definition i32_add :: "u32 \<Rightarrow> u32 \<Rightarrow> u32 cpp" where
  "i32_add a b = (if i32_fits (sint a + sint b) then Inr (a + b) else Inl Signed_Overflow)"

lemma i32_sub_Inr: "i32_sub a b = Inr c \<Longrightarrow> c = a - b"
  by (auto simp: i32_sub_def split: if_splits)

lemma i32_add_Inr: "i32_add a b = Inr c \<Longrightarrow> c = a + b"
  by (auto simp: i32_add_def split: if_splits)

lemma uint_small_u32: "unat (a :: u32) < 2 ^ 31 \<Longrightarrow> uint a < 2 ^ 31"
  by (simp add: unat_eq_nat_uint nat_less_iff del: nat_uint_eq)

lemma sint_small_u32:
  assumes "unat (a :: u32) < 2 ^ 31"
  shows "sint a = int (unat a)"
proof -
  have small: "uint a < 2 ^ 31" using assms by (rule uint_small_u32)
  have "sint a = signed_take_bit 31 (uint a)" by (subst sint_uint) simp
  also have "\<dots> = uint a" 
  proof (rule signed_take_bit_int_eq_self)
    show "- (2 ^ 31) \<le> uint a" by (rule order_trans [OF _ uint_ge_0]) simp
  qed (rule small)
  finally show ?thesis by simp
qed

lemma sint_diff_small_u32:
  assumes "unat (a :: u32) < 2 ^ 31" and "unat b < 2 ^ 31"
  shows "sint (a - b) = int (unat a) - int (unat b)"
proof -
  have "sint (a - b) = signed_take_bit 31 (sint a - sint b)"
    by (simp add: sint_word_ariths)
  also have "\<dots> = sint a - sint b"
  proof (rule signed_take_bit_int_eq_self)
    have "int (unat a) < 2 ^ 31" and "int (unat b) < 2 ^ 31"
      using assms [THEN uint_small_u32] by simp_all
    then show "- (2 ^ 31) \<le> sint a - sint b" and "sint a - sint b < 2 ^ 31"
      using assms by (simp_all only: sint_small_u32)
  qed
  finally show ?thesis using assms by (simp add: sint_small_u32)
qed

section \<open>Signed 64-bit prices\<close>

text \<open>
  \<open>std::int64_t\<close> as its 64 bits, ordered by the signed value: this is the key type of the
  two price-level maps, so it is an instance of \<open>linorder\<close> and the library's \<open>Max\<close>,
  \<open>Min\<close> and sorting lemmas apply to prices.
\<close>

datatype int64 = Int64 (int64_bits: u64)

definition int64_val :: "int64 \<Rightarrow> int" where
  "int64_val p = sint (int64_bits p)"

lemma int64_val_inject: "int64_val p = int64_val q \<longleftrightarrow> p = q"
  by (auto simp: int64_val_def dest: signed_word_eqI intro: int64.expand)

instantiation int64 :: linorder
begin

definition less_eq_int64 :: "int64 \<Rightarrow> int64 \<Rightarrow> bool" where
  "less_eq_int64 p q \<longleftrightarrow> int64_val p \<le> int64_val q"

definition less_int64 :: "int64 \<Rightarrow> int64 \<Rightarrow> bool" where
  "less_int64 p q \<longleftrightarrow> int64_val p < int64_val q"

instance
  by standard (auto simp: less_eq_int64_def less_int64_def int64_val_inject)

end

lemma Int64_less [simp]: "Int64 a < Int64 b \<longleftrightarrow> sint a < sint b"
  by (simp add: less_int64_def int64_val_def)

lemma Int64_less_eq [simp]: "Int64 a \<le> Int64 b \<longleftrightarrow> sint a \<le> sint b"
  by (simp add: less_eq_int64_def int64_val_def)

section \<open>Lists\<close>

lemma find_append: "find P (xs @ ys) = (case find P xs of None \<Rightarrow> find P ys | Some x \<Rightarrow> Some x)"
  by (induction xs) auto

lemma map_remove1_inj:
  "inj_on f (set xs) \<Longrightarrow> x \<in> set xs \<Longrightarrow> map f (remove1 x xs) = remove1 (f x) (map f xs)"
  by (induction xs) (auto simp: inj_on_def)

lemma sum_list_le_const:
  fixes f :: "'a \<Rightarrow> nat"
  shows "(\<And>x. x \<in> set xs \<Longrightarrow> f x \<le> c) \<Longrightarrow> sum_list (map f xs) \<le> length xs * c"
  by (induction xs) (auto simp: add_mono)

lemma sum_list_ge_const:
  fixes f :: "'a \<Rightarrow> nat"
  shows "(\<And>x. x \<in> set xs \<Longrightarrow> c \<le> f x) \<Longrightarrow> length xs * c \<le> sum_list (map f xs)"
  by (induction xs) (auto simp: add_mono)

lemma of_nat_sum_list_unat: "of_nat (sum_list (map (\<lambda>x. unat (f x)) xs)) = sum_list (map f xs)"
  by (induction xs) simp_all

lemma unat_sum_list:
  fixes f :: "'a \<Rightarrow> 'b::len word"
  assumes "sum_list (map (\<lambda>x. unat (f x)) xs) < 2 ^ LENGTH('b)"
  shows "unat (sum_list (map f xs)) = sum_list (map (\<lambda>x. unat (f x)) xs)"
proof -
  have "unat (sum_list (map f xs)) = unat (of_nat (sum_list (map (\<lambda>x. unat (f x)) xs)) :: 'b word)"
    by (simp only: of_nat_sum_list_unat)
  then show ?thesis using assms by (simp add: unat_of_nat)
qed

end
