(* ===== verification/Bounded_Queue.thy ===== *)
theory Bounded_Queue
  imports Prelude
begin

text \<open>
  The interface the pipelines rely on, whichever queue carries the messages: pushing appends to the
  contents or reports that the queue is full and changes nothing, popping takes the oldest element
  or reports that the queue is empty. The locale's lemmas are about any sequence of calls.
\<close>

section \<open>Sequences of calls\<close>

datatype 'a queue_call = Push 'a | Pop

text \<open>The state after the calls, the values pushed and the values popped, in order.\<close>

fun queue_run ::
  "('a \<Rightarrow> 'q \<Rightarrow> (bool \<times> 'q) cpp) \<Rightarrow> ('q \<Rightarrow> ('a option \<times> 'q) cpp) \<Rightarrow> 'a queue_call list \<Rightarrow> 'q \<Rightarrow>
   ('q \<times> 'a list \<times> 'a list) cpp" where
  "queue_run push pop [] q = Inr (q, [], [])"
| "queue_run push pop (Push x # calls) q =
     cpp_bind (push x q) (\<lambda>(ok, q1).
       cpp_map (\<lambda>(q2, ins, outs). (q2, if ok then x # ins else ins, outs))
         (queue_run push pop calls q1))"
| "queue_run push pop (Pop # calls) q =
     cpp_bind (pop q) (\<lambda>(r, q1).
       cpp_map (\<lambda>(q2, ins, outs). (q2, ins, case r of None \<Rightarrow> outs | Some x \<Rightarrow> x # outs))
         (queue_run push pop calls q1))"

section \<open>The contract\<close>

locale bounded_queue =
  fixes q_push :: "'a \<Rightarrow> 'q \<Rightarrow> (bool \<times> 'q) cpp"
    and q_pop :: "'q \<Rightarrow> ('a option \<times> 'q) cpp"
    and contents :: "'q \<Rightarrow> 'a list"
    and bound :: "'q \<Rightarrow> nat"
    and inv :: "'q \<Rightarrow> bool"
  assumes push_room: "inv q \<Longrightarrow> length (contents q) < bound q \<Longrightarrow>
      \<exists>q'. q_push x q = Inr (True, q') \<and> inv q' \<and> contents q' = contents q @ [x] \<and> bound q' = bound q"
    and push_full: "inv q \<Longrightarrow> length (contents q) = bound q \<Longrightarrow> q_push x q = Inr (False, q)"
    and pop_some: "inv q \<Longrightarrow> contents q = x # xs \<Longrightarrow>
      \<exists>q'. q_pop q = Inr (Some x, q') \<and> inv q' \<and> contents q' = xs \<and> bound q' = bound q"
    and pop_none: "inv q \<Longrightarrow> contents q = [] \<Longrightarrow> q_pop q = Inr (None, q)"
    and bounded: "inv q \<Longrightarrow> length (contents q) \<le> bound q"
begin

text \<open>
  First in, first out, with nothing lost, invented or duplicated, whatever the interleaving of
  the calls.
\<close>

lemma fifo:
  "inv q \<Longrightarrow> \<exists>q' ins outs. queue_run q_push q_pop calls q = Inr (q', ins, outs) \<and> inv q' \<and>
     bound q' = bound q \<and> contents q @ ins = outs @ contents q'"
proof (induction calls arbitrary: q)
  case (Cons call calls)
  show ?case
  proof (cases call)
    case (Push x)
    show ?thesis
    proof (cases "length (contents q) < bound q")
      case True
      obtain q1 where q1: "q_push x q = Inr (True, q1)" "inv q1" "contents q1 = contents q @ [x]"
          "bound q1 = bound q"
        using push_room [OF Cons.prems True] by blast
      with Cons.IH [OF q1(2)] Push show ?thesis by force
    next
      case False
      with bounded [OF Cons.prems] have "length (contents q) = bound q" by simp
      with push_full [OF Cons.prems] Cons.IH [OF Cons.prems] Push show ?thesis by fastforce
    qed
  next
    case Pop
    show ?thesis
    proof (cases "contents q")
      case Nil
      with pop_none [OF Cons.prems] Cons.IH [OF Cons.prems] Pop show ?thesis by fastforce
    next
      case (Cons x xs)
      obtain q1 where q1: "q_pop q = Inr (Some x, q1)" "inv q1" "contents q1 = xs"
          "bound q1 = bound q"
        using pop_some [OF Cons.prems Cons] by blast
      with Cons.IH [OF q1(2)] Pop Cons show ?thesis by force
    qed
  qed
qed simp

text \<open>Pushing a whole list that fits and popping as often returns the list.\<close>

lemma fill:
  "inv q \<Longrightarrow> length (contents q) + length xs \<le> bound q \<Longrightarrow>
   \<exists>q'. queue_run q_push q_pop (map Push xs) q = Inr (q', xs, []) \<and> inv q' \<and>
     bound q' = bound q \<and> contents q' = contents q @ xs"
proof (induction xs arbitrary: q)
  case (Cons x xs)
  then obtain q1 where q1: "q_push x q = Inr (True, q1)" "inv q1" "contents q1 = contents q @ [x]"
      "bound q1 = bound q"
    using push_room [OF Cons.prems(1), of x] by auto
  then obtain q2 where "queue_run q_push q_pop (map Push xs) q1 = Inr (q2, xs, [])" "inv q2"
      "bound q2 = bound q1" "contents q2 = contents q1 @ xs"
    using Cons.IH [OF q1(2)] Cons.prems(2) by auto
  with q1 show ?case by simp
qed simp

lemma drain:
  "inv q \<Longrightarrow> \<exists>q'. queue_run q_push q_pop (replicate (length (contents q)) Pop) q =
       Inr (q', [], contents q) \<and> inv q' \<and> bound q' = bound q \<and> contents q' = []"
proof (induction "contents q" arbitrary: q)
  case (Cons x xs)
  obtain q1 where q1: "q_pop q = Inr (Some x, q1)" "inv q1" "contents q1 = xs" "bound q1 = bound q"
    using pop_some [OF Cons.prems Cons.hyps(2) [symmetric]] by blast
  with Cons.hyps(1) [of q1] show ?case by (auto simp flip: Cons.hyps(2))
qed simp

end

end
