(* ===== verification/Ring_Buffer.thy ===== *)
theory Ring_Buffer
  imports Bounded_Queue
begin

text \<open>
  The single-producer single-consumer queue of \<open>include/latency_lab/spsc_ring_buffer.hpp\<close>:
  an array with one slot more than the requested capacity and two indices. This theory holds the
  calls run one after the other; Ring_Concurrent splits them into their atomic steps.
\<close>

section \<open>State and operations\<close>

record 'a ring =
  ring_slots :: u64
  ring_buffer :: "'a list"
  ring_head :: u64
  ring_tail :: u64

text \<open>
  The constructor: \<open>capacity_(capacity + 1), buffer_(capacity_)\<close>, in \<open>std::size_t\<close>
  arithmetic; the elements are value-initialised (\<open>dflt\<close>).
\<close>

definition ring_new :: "'a \<Rightarrow> u64 \<Rightarrow> 'a ring" where
  "ring_new dflt capacity =
     (let slots = capacity + 1
      in \<lparr>ring_slots = slots, ring_buffer = replicate (unat slots) dflt, ring_head = 0, ring_tail = 0\<rparr>)"

definition increment :: "u64 \<Rightarrow> u64 \<Rightarrow> u64" where
  "increment slots v = (let v = v + 1 in if v = slots then 0 else v)"

definition ring_push :: "'a \<Rightarrow> 'a ring \<Rightarrow> (bool \<times> 'a ring) cpp" where
  "ring_push item r =
     (let head = ring_head r; next_head = increment (ring_slots r) head
      in if next_head = ring_tail r then Inr (False, r)
         else if unat head < length (ring_buffer r)
         then Inr (True, r\<lparr>ring_buffer := (ring_buffer r)[unat head := item], ring_head := next_head\<rparr>)
         else Inl Out_Of_Bounds)"

definition ring_pop :: "'a ring \<Rightarrow> ('a option \<times> 'a ring) cpp" where
  "ring_pop r =
     (let tail = ring_tail r
      in if tail = ring_head r then Inr (None, r)
         else if unat tail < length (ring_buffer r)
         then Inr (Some (ring_buffer r ! unat tail), r\<lparr>ring_tail := increment (ring_slots r) tail\<rparr>)
         else Inl Out_Of_Bounds)"

definition ring_empty :: "'a ring \<Rightarrow> bool" where
  "ring_empty r \<longleftrightarrow> ring_head r = ring_tail r"

definition ring_capacity :: "'a ring \<Rightarrow> u64" where
  "ring_capacity r = ring_slots r - 1"

section \<open>Contents and invariant\<close>

definition ring_used :: "'a ring \<Rightarrow> nat" where
  "ring_used r = (unat (ring_head r) + (length (ring_buffer r) - unat (ring_tail r))) mod length (ring_buffer r)"

definition ring_contents :: "'a ring \<Rightarrow> 'a list" where
  "ring_contents r =
     map (\<lambda>k. ring_buffer r ! ((unat (ring_tail r) + k) mod length (ring_buffer r))) [0..<ring_used r]"

definition ring_bound :: "'a ring \<Rightarrow> nat" where
  "ring_bound r = length (ring_buffer r) - 1"

definition ring_inv :: "'a ring \<Rightarrow> bool" where
  "ring_inv r \<longleftrightarrow> length (ring_buffer r) = unat (ring_slots r) \<and>
     unat (ring_head r) < unat (ring_slots r) \<and> unat (ring_tail r) < unat (ring_slots r)"

lemma unat_increment:
  assumes "unat v < unat slots"
  shows "unat (increment slots v) = (unat v + 1) mod unat slots"
proof -
  have "unat slots < 2 ^ 64" using unsigned_less [of slots, where ?'a = nat] by simp
  with assms have s: "unat (v + 1) = unat v + 1" by (simp add: unat_word_ariths)
  show ?thesis
  proof (cases "v + 1 = slots")
    case True
    with s have "unat v + 1 = unat slots" by simp
    with True show ?thesis by (simp add: increment_def Let_def)
  next
    case False
    with s assms have "unat v + 1 < unat slots"
      by (metis Suc_eq_plus1 Suc_lessI word_unat_eq_iff)
    with False s show ?thesis by (simp add: increment_def Let_def)
  qed
qed

text \<open>Arithmetic on a circle of \<open>N\<close> slots.\<close>

lemma circle_full:
  fixes h t N :: nat
  assumes "h < N" and "t < N"
  shows "(h + 1) mod N = t \<longleftrightarrow> (h + (N - t)) mod N = N - 1"
    and "h = t \<longleftrightarrow> (h + (N - t)) mod N = 0"
    and "(h + (N - t)) mod N = (if t \<le> h then h - t else h + N - t)"
proof -
  show d: "(h + (N - t)) mod N = (if t \<le> h then h - t else h + N - t)"
  proof (cases "t \<le> h")
    case True
    then have "h + (N - t) = (h - t) + N" using assms by simp
    then have "(h + (N - t)) mod N = (h - t) mod N" by (simp only: mod_add_self2)
    with True assms show ?thesis by simp
  next
    case False
    with assms show ?thesis by simp
  qed
  show "h = t \<longleftrightarrow> (h + (N - t)) mod N = 0" unfolding d using assms by auto
  show "(h + 1) mod N = t \<longleftrightarrow> (h + (N - t)) mod N = N - 1"
    unfolding d using assms by (cases "h + 1 = N") auto
qed

lemma circle_step:
  fixes h t N :: nat
  assumes "h < N" and "t < N"
  shows "(h + (N - t)) mod N < N - 1 \<Longrightarrow>
      ((h + 1) mod N + (N - t)) mod N = (h + (N - t)) mod N + 1"
    and "0 < (h + (N - t)) mod N \<Longrightarrow>
      (h + (N - (t + 1) mod N)) mod N = (h + (N - t)) mod N - 1"
    and "(t + (h + (N - t)) mod N) mod N = h"
proof -
  have t': "(t + 1) mod N < N" and h': "(h + 1) mod N < N" using assms by simp_all
  show "((h + 1) mod N + (N - t)) mod N = (h + (N - t)) mod N + 1"
    if "(h + (N - t)) mod N < N - 1"
    using that assms unfolding circle_full(3) [OF assms] circle_full(3) [OF h' assms(2)]
    by (cases "h + 1 = N") (auto split: if_splits)
  show "(h + (N - (t + 1) mod N)) mod N = (h + (N - t)) mod N - 1"
    if "0 < (h + (N - t)) mod N"
    using that assms unfolding circle_full(3) [OF assms] circle_full(3) [OF assms(1) t']
    by (cases "t + 1 = N") (auto split: if_splits)
  show "(t + (h + (N - t)) mod N) mod N = h"
    using assms unfolding circle_full(3) [OF assms] by (auto split: if_splits)
qed

lemma circle_inj:
  fixes t j k N :: nat
  assumes "(t + j) mod N = (t + k) mod N" and "j < N" and "k < N"
  shows "j = k"
proof (rule ccontr)
  assume "j \<noteq> k"
  moreover have "False" if "a < b" "b < N" "(t + a) mod N = (t + b) mod N" for a b :: nat
  proof -
    have "N dvd (t + b) - (t + a)" using that mod_eq_dvd_iff_nat [of "t + a" "t + b" N] by simp
    then show False using that by (simp add: nat_dvd_not_less)
  qed
  ultimately show False using assms by (metis nat_neq_iff)
qed

lemma ring_used_less: "ring_inv r \<Longrightarrow> ring_used r < length (ring_buffer r)"
  unfolding ring_used_def ring_inv_def by (intro mod_less_divisor) linarith

lemma slot_count:
  assumes "(capacity :: u64) < - 1"
  shows "unat (capacity + 1) = Suc (unat capacity)"
  using assms by (metis add.commute add_eq_0_iff less_irrefl minus_minus unatSuc)

lemma ring_new_inv:
  assumes "capacity < - 1"
  shows "ring_inv (ring_new dflt capacity)"
    and "ring_contents (ring_new dflt capacity) = []"
    and "ring_bound (ring_new dflt capacity) = unat capacity"
  using slot_count [OF assms]
  by (simp_all add: ring_inv_def ring_new_def Let_def ring_contents_def ring_used_def ring_bound_def)

section \<open>Each call on its branch\<close>

lemma ring_simps [queue_simps]:
  "length (ring_contents r) = ring_used r"
  "ring_inv r \<Longrightarrow> increment (ring_slots r) (ring_head r) = ring_tail r \<longleftrightarrow> ring_used r = ring_bound r"
  "ring_inv r \<Longrightarrow> ring_head r = ring_tail r \<longleftrightarrow> ring_used r = 0"
proof -
  show "length (ring_contents r) = ring_used r" by (simp add: ring_contents_def)
  assume inv: "ring_inv r"
  then have h: "unat (ring_head r) < length (ring_buffer r)"
    and t: "unat (ring_tail r) < length (ring_buffer r)"
    and n: "unat (ring_slots r) = length (ring_buffer r)"
    by (simp_all add: ring_inv_def)
  show "increment (ring_slots r) (ring_head r) = ring_tail r \<longleftrightarrow> ring_used r = ring_bound r"
    using circle_full(1) [OF h t] h unat_increment [of "ring_head r" "ring_slots r"]
    by (simp add: n ring_used_def ring_bound_def word_unat_eq_iff)
  show "ring_head r = ring_tail r \<longleftrightarrow> ring_used r = 0"
    using circle_full(2) [OF h t] by (simp add: ring_used_def word_unat_eq_iff)
qed

lemma ring_push_full:
  "ring_inv r \<Longrightarrow> ring_used r = ring_bound r \<Longrightarrow> ring_push x r = Inr (False, r)"
  by (simp add: ring_push_def queue_simps)

lemma ring_pop_none: "ring_inv r \<Longrightarrow> ring_used r = 0 \<Longrightarrow> ring_pop r = Inr (None, r)"
  by (simp add: ring_pop_def flip: ring_simps(3))

lemma ring_push_room:
  assumes inv: "ring_inv r" and room: "ring_used r < ring_bound r"
  obtains r' where "ring_push x r = Inr (True, r')" and "ring_inv r'"
    and "ring_contents r' = ring_contents r @ [x]" and "ring_bound r' = ring_bound r"
    and "ring_slots r' = ring_slots r"
proof
  let ?r = "r\<lparr>ring_buffer := (ring_buffer r)[unat (ring_head r) := x],
              ring_head := increment (ring_slots r) (ring_head r)\<rparr>"
  let ?N = "length (ring_buffer r)" and ?h = "unat (ring_head r)" and ?t = "unat (ring_tail r)"
  have h: "?h < ?N" and t: "?t < ?N" and n: "unat (ring_slots r) = ?N"
    using inv by (simp_all add: ring_inv_def)
  have next_head: "unat (increment (ring_slots r) (ring_head r)) = (?h + 1) mod ?N"
    using unat_increment h n by metis
  moreover have "(?h + 1) mod ?N < ?N" using h by (intro mod_less_divisor) linarith
  ultimately have inv': "unat (increment (ring_slots r) (ring_head r)) < ?N" by simp
  show "ring_push x r = Inr (True, ?r)"
    using room h inv by (simp add: ring_push_def Let_def ring_simps(2))
  show "ring_inv ?r" using h t n inv' by (simp add: ring_inv_def)
  show "ring_bound ?r = ring_bound r" and "ring_slots ?r = ring_slots r"
    by (simp_all add: ring_bound_def)
  have used: "ring_used ?r = ring_used r + 1"
    using circle_step(1) [OF h t] room next_head by (simp add: ring_used_def ring_bound_def)
  have last: "(?t + ring_used r) mod ?N = ?h"
    using circle_step(3) [OF h t] by (simp add: ring_used_def)
  have "(ring_buffer r)[?h := x] ! ((?t + k) mod ?N) = ring_buffer r ! ((?t + k) mod ?N)"
    if "k < ring_used r" for k
  proof -
    have "k < ?N" using that ring_used_less [OF inv] by linarith
    then have "(?t + k) mod ?N \<noteq> ?h"
      using circle_inj [of ?t k ?N "ring_used r"] ring_used_less [OF inv] that last by auto
    then show ?thesis by simp
  qed
  then show "ring_contents ?r = ring_contents r @ [x]"
    using h unfolding ring_contents_def used by (simp add: last)
qed

lemma ring_pop_some:
  assumes inv: "ring_inv r" and some: "ring_contents r = x # xs"
  obtains r' where "ring_pop r = Inr (Some x, r')" and "ring_inv r'" and "ring_contents r' = xs"
    and "ring_bound r' = ring_bound r" and "ring_slots r' = ring_slots r"
proof
  let ?r = "r\<lparr>ring_tail := increment (ring_slots r) (ring_tail r)\<rparr>"
  let ?N = "length (ring_buffer r)" and ?h = "unat (ring_head r)" and ?t = "unat (ring_tail r)"
  have h: "?h < ?N" and t: "?t < ?N" and n: "unat (ring_slots r) = ?N"
    using inv by (simp_all add: ring_inv_def)
  have next_tail: "unat (increment (ring_slots r) (ring_tail r)) = (?t + 1) mod ?N"
    using unat_increment t n by metis
  moreover have "(?t + 1) mod ?N < ?N" using t by (intro mod_less_divisor) linarith
  ultimately have inv': "unat (increment (ring_slots r) (ring_tail r)) < ?N" by simp
  have pos: "0 < ring_used r" using some ring_simps(1) [of r] by simp
  then obtain k where k: "ring_used r = Suc k" using gr0_implies_Suc by blast
  have elems: "ring_contents r = ring_buffer r ! (?t mod ?N) #
      map (\<lambda>k. ring_buffer r ! ((?t + Suc k) mod ?N)) [0..<k]"
    by (simp add: ring_contents_def k upt_conv_Cons map_Suc_upt [symmetric] del: upt_Suc)
  show "ring_pop r = Inr (Some x, ?r)"
    using pos elems some t inv ring_simps(3) [OF inv] by (auto simp: ring_pop_def Let_def)
  show "ring_inv ?r" using h t n inv' by (simp add: ring_inv_def)
  show "ring_bound ?r = ring_bound r" and "ring_slots ?r = ring_slots r"
    by (simp_all add: ring_bound_def)
  have "ring_used ?r = k"
    using circle_step(2) [OF h t] next_tail pos k by (simp add: ring_used_def)
  then have "ring_contents ?r = map (\<lambda>j. ring_buffer r ! ((?t + Suc j) mod ?N)) [0..<k]"
    by (simp add: ring_contents_def next_tail mod_add_left_eq)
  with elems some show "ring_contents ?r = xs" by simp
qed

lemma ring_empty_iff: "ring_inv r \<Longrightarrow> ring_empty r \<longleftrightarrow> ring_contents r = []"
  using ring_simps(1,3) [of r] by (metis length_0_conv ring_empty_def)

lemma ring_capacity_bound: "ring_inv r \<Longrightarrow> unat (ring_capacity r) = ring_bound r"
  by (cases "ring_slots r = 0")
     (auto simp: ring_capacity_def ring_bound_def ring_inv_def unat_minus_one)

interpretation ring: bounded_queue ring_push ring_pop ring_contents ring_bound ring_inv
proof
  fix q :: "'a ring" and x xs
  show "\<exists>q'. ring_push x q = Inr (True, q') \<and> ring_inv q' \<and>
      ring_contents q' = ring_contents q @ [x] \<and> ring_bound q' = ring_bound q"
    if "ring_inv q" "length (ring_contents q) < ring_bound q"
    using that by (metis ring_push_room ring_simps(1))
  show "ring_push x q = Inr (False, q)"
    if "ring_inv q" "length (ring_contents q) = ring_bound q"
    using that ring_push_full by (metis ring_simps(1))
  show "\<exists>q'. ring_pop q = Inr (Some x, q') \<and> ring_inv q' \<and> ring_contents q' = xs \<and>
      ring_bound q' = ring_bound q"
    if "ring_inv q" "ring_contents q = x # xs"
    using that by (metis ring_pop_some)
  show "ring_pop q = Inr (None, q)" if "ring_inv q" "ring_contents q = []"
    using that ring_pop_none by (metis length_0_conv ring_simps(1))
  show "length (ring_contents q) \<le> ring_bound q" if "ring_inv q"
    using ring_used_less [OF that] ring_simps(1) [of q] by (simp add: ring_bound_def)
qed

section \<open>Properties\<close>

text \<open>
  Property C25. Any sequence of calls on a fresh ring buffer stays inside the array, behaves first
  in first out (what was pushed is what was popped followed by what is left) and never holds more
  than the requested capacity.
\<close>

theorem ring_fifo:
  assumes "capacity < - 1"
  shows "\<exists>r ins outs. queue_run ring_push ring_pop calls (ring_new dflt capacity) = Inr (r, ins, outs) \<and>
     ins = outs @ ring_contents r \<and> length (ring_contents r) \<le> unat capacity \<and>
     ring_empty r = (ring_contents r = [])"
proof -
  obtain r ins outs where r: "queue_run ring_push ring_pop calls (ring_new dflt capacity) =
      Inr (r, ins, outs)" "ring_inv r" "ring_bound r = unat capacity" "ins = outs @ ring_contents r"
    using ring.fifo [OF ring_new_inv(1) [OF assms, of dflt], of calls]
    by (auto simp: ring_new_inv [OF assms])
  with ring.bounded [OF r(2)] ring_empty_iff [OF r(2)] show ?thesis by auto
qed

theorem ring_fifo_witness:
  "\<exists>r ins outs. queue_run ring_push ring_pop [Push 5, Push 6, Push (7 :: nat), Pop] (ring_new 0 2) =
     Inr (r, ins, outs) \<and> ins = outs @ ring_contents r \<and> length (ring_contents r) \<le> 2"
  using ring_fifo [of 2 "[Push 5, Push 6, Push (7 :: nat), Pop]" 0] by fastforce

text \<open>
  The whole capacity is usable: as many values as the requested capacity are accepted
  one after the other, the next one is refused, and popping returns all of them in order.
\<close>

lemma ring_fills:
  assumes "capacity < - 1" and "length xs = unat capacity"
  shows "\<exists>r r'. queue_run ring_push ring_pop (map Push xs) (ring_new dflt capacity) = Inr (r, xs, []) \<and>
     ring_push y r = Inr (False, r) \<and>
     queue_run ring_push ring_pop (replicate (length xs) Pop) r = Inr (r', [], xs) \<and> ring_empty r'"
proof -
  note new = ring_new_inv [OF assms(1), of dflt]
  obtain r where r: "queue_run ring_push ring_pop (map Push xs) (ring_new dflt capacity) =
      Inr (r, xs, [])" "ring_inv r" "ring_bound r = unat capacity" "ring_contents r = xs"
    using ring.fill [OF new(1), of xs] assms(2) by (auto simp: new)
  obtain r' where "queue_run ring_push ring_pop (replicate (length xs) Pop) r = Inr (r', [], xs)"
      "ring_inv r'" "ring_contents r' = []"
    using ring.drain [OF r(2)] r(4) by auto
  with r ring.push_full [OF r(2), of y] assms(2) ring_empty_iff show ?thesis by auto
qed

text \<open>
  The two ends of the capacity: a ring of capacity 0 refuses every push, so the
  producer's retry loop never ends; with the largest \<open>std::size_t\<close> the slot count wraps to 0 and
  the first push writes outside the array.
\<close>

lemma ring_capacity_ends:
  "ring_push x (ring_new dflt 0) = Inr (False, ring_new dflt 0) \<and>
   ring_pop (ring_new dflt 0) = Inr (None, ring_new dflt 0) \<and>
   ring_push x (ring_new dflt (- 1)) = Inl Out_Of_Bounds"
  by (simp add: ring_push_def ring_pop_def ring_new_def increment_def Let_def)

end
