(* ===== verification/Ring_Concurrent.thy ===== *)
theory Ring_Concurrent
  imports Ring_Buffer "HOL-Library.Sublist"
begin

text \<open>
  \<open>SpscRingBuffer\<close> under two threads, in the C++ memory model. Each atomic index is its
  modification order, the list of all values stored to it; an acquire load by the other thread may
  return any store not older than the one it read last, and then the stores before it, plain
  writes included, have happened before the load. A plain access of a slot is a data race unless
  the other thread's last conflicting access happened before it: each slot carries the number of
  the release store that publishes its last write and its last read, and an access compares it
  with the newest store its thread has acquired.
\<close>

section \<open>State\<close>

text \<open>Where each thread is inside its call, with the local variables that are still needed.\<close>

datatype 'a producer_pc =
    Producer_Idle
  | Load_Tail 'a u64 u64
  | Write_Slot 'a u64 u64
  | Store_Head 'a u64

datatype 'a consumer_pc =
    Consumer_Idle
  | Load_Head u64
  | Read_Slot u64
  | Store_Tail 'a u64

text \<open>
  \<open>head_order\<close> and \<open>tail_order\<close> are the modification orders, \<open>producer_view\<close> the position in
  \<open>tail_order\<close> the producer has acquired, \<open>consumer_view\<close> the position in \<open>head_order\<close>
  the consumer has acquired. \<open>pushed\<close> and \<open>popped\<close> record the history of the two threads.
\<close>

record 'a spsc =
  slots :: u64
  cells :: "'a list"
  head_order :: "u64 list"
  tail_order :: "u64 list"
  producer_view :: nat
  consumer_view :: nat
  written_at :: "nat \<Rightarrow> nat"
  read_at :: "nat \<Rightarrow> nat"
  producer_at :: "'a producer_pc"
  consumer_at :: "'a consumer_pc"
  pushed :: "'a list"
  popped :: "'a list"

definition spsc_new :: "'a \<Rightarrow> u64 \<Rightarrow> 'a spsc" where
  "spsc_new dflt capacity =
     (let r = ring_new dflt capacity
      in \<lparr>slots = ring_slots r, cells = ring_buffer r,
          head_order = [ring_head r], tail_order = [ring_tail r],
          producer_view = 0, consumer_view = 0, written_at = (\<lambda>_. 0), read_at = (\<lambda>_. 0),
          producer_at = Producer_Idle, consumer_at = Consumer_Idle, pushed = [], popped = []\<rparr>)"

section \<open>Plain accesses\<close>

definition write_cell :: "u64 \<Rightarrow> 'a \<Rightarrow> 'a spsc \<Rightarrow> 'a spsc cpp" where
  "write_cell head item s =
     (if length (cells s) \<le> unat head then Inl Out_Of_Bounds
      else if read_at s (unat head) > producer_view s then Inl Data_Race
      else Inr (s\<lparr>cells := (cells s)[unat head := item],
                  written_at := (written_at s)(unat head := length (head_order s))\<rparr>))"

definition read_cell :: "u64 \<Rightarrow> 'a spsc \<Rightarrow> ('a \<times> 'a spsc) cpp" where
  "read_cell tail s =
     (if length (cells s) \<le> unat tail then Inl Out_Of_Bounds
      else if written_at s (unat tail) > consumer_view s then Inl Data_Race
      else Inr (cells s ! unat tail,
                s\<lparr>read_at := (read_at s)(unat tail := length (tail_order s))\<rparr>))"

text \<open>The next access of one of the threads is undefined behaviour.\<close>

definition spsc_undefined :: "'a spsc \<Rightarrow> bool" where
  "spsc_undefined s \<longleftrightarrow>
     (case producer_at s of Write_Slot x head _ \<Rightarrow> isl (write_cell head x s) | _ \<Rightarrow> False) \<or>
     (case consumer_at s of Read_Slot tail \<Rightarrow> isl (read_cell tail s) | _ \<Rightarrow> False)"

section \<open>Steps\<close>

text \<open>
  The calls and returns a client sees; every other step is silent. \<open>Acquires\<close> is the consumer
  synchronising with the producer through another atomic variable.
\<close>

datatype 'a event =
    Silent
  | Calls_Push 'a
  | Push_Returns 'a bool
  | Calls_Pop
  | Pop_Returns "'a option"
  | Empty_Returns bool
  | Acquires nat

inductive spsc_step :: "'a spsc \<Rightarrow> 'a event \<Rightarrow> 'a spsc \<Rightarrow> bool" where
  push_call:
    "producer_at s = Producer_Idle \<Longrightarrow> head = last (head_order s) \<Longrightarrow>
     spsc_step s (Calls_Push x) (s\<lparr>producer_at := Load_Tail x head (increment (slots s) head)\<rparr>)"
| push_full:
    "producer_at s = Load_Tail x head next_head \<Longrightarrow>
     producer_view s \<le> v \<Longrightarrow> v < length (tail_order s) \<Longrightarrow> next_head = tail_order s ! v \<Longrightarrow>
     spsc_step s (Push_Returns x False) (s\<lparr>producer_at := Producer_Idle, producer_view := v\<rparr>)"
| push_room:
    "producer_at s = Load_Tail x head next_head \<Longrightarrow>
     producer_view s \<le> v \<Longrightarrow> v < length (tail_order s) \<Longrightarrow> next_head \<noteq> tail_order s ! v \<Longrightarrow>
     spsc_step s Silent (s\<lparr>producer_at := Write_Slot x head next_head, producer_view := v\<rparr>)"
| push_write:
    "producer_at s = Write_Slot x head next_head \<Longrightarrow> write_cell head x s = Inr s' \<Longrightarrow>
     spsc_step s Silent (s'\<lparr>producer_at := Store_Head x next_head\<rparr>)"
| push_store:
    "producer_at s = Store_Head x next_head \<Longrightarrow>
     spsc_step s (Push_Returns x True)
       (s\<lparr>producer_at := Producer_Idle, head_order := head_order s @ [next_head],
          pushed := pushed s @ [x]\<rparr>)"
| pop_call:
    "consumer_at s = Consumer_Idle \<Longrightarrow>
     spsc_step s Calls_Pop (s\<lparr>consumer_at := Load_Head (last (tail_order s))\<rparr>)"
| pop_none:
    "consumer_at s = Load_Head tail \<Longrightarrow>
     consumer_view s \<le> v \<Longrightarrow> v < length (head_order s) \<Longrightarrow> tail = head_order s ! v \<Longrightarrow>
     spsc_step s (Pop_Returns None) (s\<lparr>consumer_at := Consumer_Idle, consumer_view := v\<rparr>)"
| pop_some:
    "consumer_at s = Load_Head tail \<Longrightarrow>
     consumer_view s \<le> v \<Longrightarrow> v < length (head_order s) \<Longrightarrow> tail \<noteq> head_order s ! v \<Longrightarrow>
     spsc_step s Silent (s\<lparr>consumer_at := Read_Slot tail, consumer_view := v\<rparr>)"
| pop_read:
    "consumer_at s = Read_Slot tail \<Longrightarrow> read_cell tail s = Inr (x, s') \<Longrightarrow>
     spsc_step s Silent (s'\<lparr>consumer_at := Store_Tail x tail\<rparr>)"
| pop_store:
    "consumer_at s = Store_Tail x tail \<Longrightarrow>
     spsc_step s (Pop_Returns (Some x))
       (s\<lparr>consumer_at := Consumer_Idle, tail_order := tail_order s @ [increment (slots s) tail],
          popped := popped s @ [x]\<rparr>)"
| empty_call:
    "consumer_at s = Consumer_Idle \<Longrightarrow> consumer_view s \<le> v \<Longrightarrow> v < length (head_order s) \<Longrightarrow>
     spsc_step s (Empty_Returns (head_order s ! v = last (tail_order s))) (s\<lparr>consumer_view := v\<rparr>)"
| acquire:
    "consumer_at s = Consumer_Idle \<Longrightarrow> consumer_view s \<le> v \<Longrightarrow> v < length (head_order s) \<Longrightarrow>
     spsc_step s (Acquires v) (s\<lparr>consumer_view := v\<rparr>)"

inductive spsc_reachable :: "'a \<Rightarrow> u64 \<Rightarrow> 'a spsc \<Rightarrow> bool" for dflt capacity where
  start: "spsc_reachable dflt capacity (spsc_new dflt capacity)"
| step: "spsc_reachable dflt capacity s \<Longrightarrow> spsc_step s e s' \<Longrightarrow> spsc_reachable dflt capacity s'"

inductive_cases spsc_stepE: "spsc_step s e s'"

section \<open>Positions on the circle\<close>

definition position :: "u64 \<Rightarrow> nat \<Rightarrow> u64" where
  "position n i = of_nat (i mod unat n)"

lemma unat_position:
  assumes "0 < unat n"
  shows "unat (position n i) = i mod unat n"
proof -
  have "i mod unat n < unat n" using assms by simp
  also have "unat n < 2 ^ 64" using unsigned_less [of n, where ?'a = nat] by simp
  finally show ?thesis by (simp add: position_def unsigned_of_nat take_bit_nat_eq_self)
qed

lemma position_eq_iff:
  "0 < unat n \<Longrightarrow> position n i = position n j \<longleftrightarrow> i mod unat n = j mod unat n"
  by (metis unat_position word_unat_eq_iff)

lemma increment_position:
  "0 < unat n \<Longrightarrow> increment n (position n i) = position n (i + 1)"
  by (simp add: word_unat_eq_iff unat_position unat_increment mod_Suc_eq)

lemma window_inj:
  fixes i j :: nat
  assumes "i mod n = j mod n" and "b \<le> i" and "i < b + n" and "b \<le> j" and "j < b + n"
  shows "i = j"
proof -
  have "i - b = j - b" using circle_inj [of b "i - b" n "j - b"] assms by simp
  then show ?thesis using assms by linarith
qed

section \<open>Invariant\<close>

text \<open>
  With \<open>n\<close> slots, \<open>p\<close> values pushed and \<open>c\<close> popped: slot \<open>i mod n\<close> holds value \<open>i\<close> for
  \<open>c \<le> i < p\<close>, was last written for a value at most \<open>i\<close> and last read for a value at most
  \<open>i - n\<close>; the threads' views are at most behind, and never by more than the room they use.
\<close>

definition orders_inv :: "'a spsc \<Rightarrow> bool" where
  "orders_inv s \<longleftrightarrow> 0 < unat (slots s) \<and> length (cells s) = unat (slots s) \<and>
     head_order s = map (position (slots s)) [0..<Suc (length (pushed s))] \<and>
     tail_order s = map (position (slots s)) [0..<Suc (length (popped s))] \<and>
     producer_view s \<le> length (popped s) \<and> length (popped s) \<le> consumer_view s \<and>
     consumer_view s \<le> length (pushed s) \<and>
     length (pushed s) < producer_view s + unat (slots s)"

definition cells_inv :: "'a spsc \<Rightarrow> bool" where
  "cells_inv s \<longleftrightarrow>
     (\<forall>i. length (popped s) \<le> i \<and> i < length (pushed s) \<longrightarrow>
        cells s ! (i mod unat (slots s)) = pushed s ! i) \<and>
     (\<forall>i. length (popped s) \<le> i \<and> i < length (popped s) + unat (slots s) \<longrightarrow>
        written_at s (i mod unat (slots s)) \<le> Suc i) \<and>
     (\<forall>i. length (pushed s) \<le> i \<and> i < length (pushed s) + unat (slots s) \<longrightarrow>
        read_at s (i mod unat (slots s)) \<le> Suc i - unat (slots s)) \<and>
     prefix (popped s) (pushed s)"

definition producer_inv :: "'a spsc \<Rightarrow> bool" where
  "producer_inv s \<longleftrightarrow>
     (case producer_at s of
        Producer_Idle \<Rightarrow> True
      | Load_Tail x head next_head \<Rightarrow>
          head = position (slots s) (length (pushed s)) \<and>
          next_head = position (slots s) (Suc (length (pushed s)))
      | Write_Slot x head next_head \<Rightarrow>
          head = position (slots s) (length (pushed s)) \<and>
          next_head = position (slots s) (Suc (length (pushed s))) \<and>
          Suc (length (pushed s)) < producer_view s + unat (slots s)
      | Store_Head x next_head \<Rightarrow>
          next_head = position (slots s) (Suc (length (pushed s))) \<and>
          Suc (length (pushed s)) < producer_view s + unat (slots s) \<and>
          cells s ! (length (pushed s) mod unat (slots s)) = x)"

definition consumer_inv :: "'a spsc \<Rightarrow> bool" where
  "consumer_inv s \<longleftrightarrow>
     (case consumer_at s of
        Consumer_Idle \<Rightarrow> True
      | Load_Head tail \<Rightarrow> tail = position (slots s) (length (popped s))
      | Read_Slot tail \<Rightarrow>
          tail = position (slots s) (length (popped s)) \<and> length (popped s) < consumer_view s
      | Store_Tail x tail \<Rightarrow>
          tail = position (slots s) (length (popped s)) \<and> length (popped s) < consumer_view s \<and>
          x = pushed s ! length (popped s))"

definition spsc_inv :: "'a spsc \<Rightarrow> bool" where
  "spsc_inv s \<longleftrightarrow> orders_inv s \<and> cells_inv s \<and> producer_inv s \<and> consumer_inv s"

lemmas spsc_inv_defs = spsc_inv_def orders_inv_def cells_inv_def producer_inv_def consumer_inv_def

lemma orders_invD:
  assumes "orders_inv s"
  shows "last (head_order s) = position (slots s) (length (pushed s))"
    and "last (tail_order s) = position (slots s) (length (popped s))"
    and "length (head_order s) = Suc (length (pushed s))"
    and "length (tail_order s) = Suc (length (popped s))"
    and "v < length (head_order s) \<Longrightarrow> head_order s ! v = position (slots s) v"
    and "v < length (tail_order s) \<Longrightarrow> tail_order s ! v = position (slots s) v"
proof -
  have h: "head_order s = map (position (slots s)) [0..<Suc (length (pushed s))]"
    and t: "tail_order s = map (position (slots s)) [0..<Suc (length (popped s))]"
    using assms by (simp_all only: orders_inv_def)
  show "last (head_order s) = position (slots s) (length (pushed s))"
    and "last (tail_order s) = position (slots s) (length (popped s))"
    and "length (head_order s) = Suc (length (pushed s))"
    and "length (tail_order s) = Suc (length (popped s))"
    by (simp_all add: h t)
  show "v < length (head_order s) \<Longrightarrow> head_order s ! v = position (slots s) v"
    and "v < length (tail_order s) \<Longrightarrow> tail_order s ! v = position (slots s) v"
    unfolding h t by (simp_all only: length_map nth_map length_upt nth_upt diff_zero add_0)
qed

lemma spsc_inv_new:
  assumes "capacity < - 1"
  shows "spsc_inv (spsc_new dflt capacity)"
  using ring_new_inv(1) [OF assms, of dflt]
  by (auto simp: spsc_inv_defs spsc_new_def Let_def ring_inv_def ring_new_def position_def)

subsection \<open>The accesses are defined\<close>

lemma write_cell_ok:
  assumes "spsc_inv s" and "producer_at s = Write_Slot x head next_head"
  shows "write_cell head x s = Inr (s\<lparr>cells := (cells s)[length (pushed s) mod unat (slots s) := x],
      written_at := (written_at s)(length (pushed s) mod unat (slots s) := Suc (length (pushed s)))\<rparr>)"
proof -
  let ?n = "unat (slots s)" and ?p = "length (pushed s)"
  have n: "0 < ?n" "length (cells s) = ?n" and head: "head = position (slots s) ?p"
    and room: "Suc ?p < producer_view s + ?n" and ord: "orders_inv s"
    using assms by (simp_all add: spsc_inv_defs)
  have u: "unat head = ?p mod ?n" "unat head < ?n" using n by (simp_all add: head unat_position)
  have "read_at s (?p mod ?n) \<le> Suc ?p - ?n"
    using assms(1) n by (simp add: spsc_inv_def cells_inv_def)
  with room have "read_at s (unat head) \<le> producer_view s" using u by simp
  then show ?thesis using u n orders_invD(3) [OF ord] by (simp add: write_cell_def not_le)
qed

lemma read_cell_ok:
  assumes "spsc_inv s" and "consumer_at s = Read_Slot tail"
  shows "read_cell tail s = Inr (pushed s ! length (popped s),
      s\<lparr>read_at := (read_at s)(length (popped s) mod unat (slots s) := Suc (length (popped s)))\<rparr>)"
proof -
  let ?n = "unat (slots s)" and ?c = "length (popped s)"
  have n: "0 < ?n" "length (cells s) = ?n" and tail: "tail = position (slots s) ?c"
    and seen: "?c < consumer_view s" "consumer_view s \<le> length (pushed s)" and ord: "orders_inv s"
    using assms by (simp_all add: spsc_inv_defs)
  have u: "unat tail = ?c mod ?n" "unat tail < ?n" using n by (simp_all add: tail unat_position)
  have "written_at s (?c mod ?n) \<le> Suc ?c" and "cells s ! (?c mod ?n) = pushed s ! ?c"
    using assms(1) n seen by (simp_all add: spsc_inv_def cells_inv_def)
  with seen u n orders_invD(4) [OF ord] show ?thesis by (simp add: read_cell_def not_le)
qed

lemma spsc_inv_defined: "spsc_inv s \<Longrightarrow> \<not> spsc_undefined s"
  using write_cell_ok [of s] read_cell_ok [of s]
  by (auto simp: spsc_undefined_def split: producer_pc.splits consumer_pc.splits)

subsection \<open>Every step preserves the invariant\<close>

lemma inv_push_call:
  assumes "spsc_inv s"
  shows "spsc_inv (s\<lparr>producer_at := Load_Tail x (last (head_order s))
      (increment (slots s) (last (head_order s)))\<rparr>)"
proof -
  have "orders_inv s" using assms by (simp add: spsc_inv_def)
  then have "increment (slots s) (last (head_order s)) = position (slots s) (Suc (length (pushed s)))"
    using increment_position [of "slots s" "length (pushed s)"]
    by (simp add: orders_invD(1) orders_inv_def)
  then show ?thesis using assms orders_invD(1) [of s]
    by (auto simp: spsc_inv_defs split: consumer_pc.splits)
qed

lemma inv_push_load:
  assumes "spsc_inv s" and "producer_at s = Load_Tail x head next_head"
    and "producer_view s \<le> v" and "v < length (tail_order s)"
  shows "spsc_inv (s\<lparr>producer_at := Producer_Idle, producer_view := v\<rparr>)"
    and "next_head \<noteq> tail_order s ! v \<Longrightarrow>
      spsc_inv (s\<lparr>producer_at := Write_Slot x head next_head, producer_view := v\<rparr>)"
proof -
  have ord: "orders_inv s" using assms(1) by (simp add: spsc_inv_def)
  then have v: "v \<le> length (popped s)" using assms(4) by (simp add: orders_invD(4))
  show "spsc_inv (s\<lparr>producer_at := Producer_Idle, producer_view := v\<rparr>)"
    using assms(1,3) v by (auto simp: spsc_inv_defs split: consumer_pc.splits)
  let ?n = "unat (slots s)" and ?p = "length (pushed s)"
  have b: "0 < ?n" "?p < producer_view s + ?n" "length (popped s) \<le> ?p"
    using ord by (simp_all add: orders_inv_def)
  assume "next_head \<noteq> tail_order s ! v"
  then have "position (slots s) (Suc ?p) \<noteq> position (slots s) v"
    using assms(1,2,4) orders_invD(6) [OF ord] by (simp add: spsc_inv_def producer_inv_def)
  then have "Suc ?p mod ?n \<noteq> v mod ?n" using b by (simp add: position_eq_iff)
  then have "Suc ?p \<noteq> v + ?n" by auto
  then have "Suc ?p < v + ?n" using b assms(3) by linarith
  then show "spsc_inv (s\<lparr>producer_at := Write_Slot x head next_head, producer_view := v\<rparr>)"
    using assms(1-3) v by (auto simp: spsc_inv_defs split: consumer_pc.splits)
qed

lemma inv_push_write:
  assumes "spsc_inv s" and "producer_at s = Write_Slot x head next_head"
    and "write_cell head x s = Inr s'"
  shows "spsc_inv (s'\<lparr>producer_at := Store_Head x next_head\<rparr>)"
proof -
  let ?n = "unat (slots s)" and ?p = "length (pushed s)" and ?c = "length (popped s)"
  have s': "s' = s\<lparr>cells := (cells s)[?p mod ?n := x],
      written_at := (written_at s)(?p mod ?n := Suc ?p)\<rparr>"
    using write_cell_ok [OF assms(1,2)] assms(3) by simp
  have n: "0 < ?n" "length (cells s) = ?n" and le: "?c \<le> ?p" "Suc ?p < ?c + ?n"
    using assms(1,2) by (auto simp: spsc_inv_defs)
  have other: "i mod ?n \<noteq> ?p mod ?n" if "?c \<le> i" "i < ?c + ?n" "i \<noteq> ?p" for i
    using window_inj [of i ?n ?p ?c] that le by auto
  have keep: "(cells s)[?p mod ?n := x] ! (i mod ?n) = pushed s ! i"
    if "?c \<le> i" "i < ?p" for i
    using assms(1) other [of i] that le by (simp add: spsc_inv_def cells_inv_def)
  have stamp: "((written_at s)(?p mod ?n := Suc ?p)) (i mod ?n) \<le> Suc i"
    if "?c \<le> i" "i < ?c + ?n" for i
    using assms(1) other [of i] that by (cases "i = ?p") (simp_all add: spsc_inv_def cells_inv_def)
  have cells: "cells_inv (s'\<lparr>producer_at := Store_Head x next_head\<rparr>)"
    using assms(1) keep stamp by (simp add: spsc_inv_def cells_inv_def s')
  show ?thesis
    using assms(1,2) cells n by (auto simp: spsc_inv_def orders_inv_def producer_inv_def
        consumer_inv_def s' split: consumer_pc.splits)
qed

lemma inv_push_store:
  assumes "spsc_inv s" and "producer_at s = Store_Head x next_head"
  shows "spsc_inv (s\<lparr>producer_at := Producer_Idle, head_order := head_order s @ [next_head],
      pushed := pushed s @ [x]\<rparr>)"
    (is "spsc_inv ?s")
proof -
  let ?n = "unat (slots s)" and ?p = "length (pushed s)" and ?c = "length (popped s)"
  have pc: "next_head = position (slots s) (Suc ?p)" "Suc ?p < producer_view s + ?n"
      "cells s ! (?p mod ?n) = x"
    using assms by (simp_all add: spsc_inv_def producer_inv_def)
  have le: "?c \<le> ?p" and n: "0 < ?n" using assms(1) by (simp_all add: spsc_inv_defs)
  have read: "read_at s (i mod ?n) \<le> Suc i - ?n" if i: "Suc ?p \<le> i" "i < Suc ?p + ?n" for i
  proof (cases "i = ?p + ?n")
    case True
    moreover have "read_at s (?p mod ?n) \<le> Suc ?p - ?n"
      using assms(1) n by (simp add: spsc_inv_def cells_inv_def)
    ultimately show ?thesis by simp
  next
    case False
    with i assms(1) show ?thesis by (simp add: spsc_inv_def cells_inv_def)
  qed
  have "cells_inv ?s"
    using assms(1) read pc(3) le
    by (auto simp: spsc_inv_def cells_inv_def nth_append less_Suc_eq)
  moreover have "orders_inv ?s" using assms(1) pc by (simp add: spsc_inv_def orders_inv_def)
  moreover have "consumer_inv ?s"
    using assms(1) by (auto simp: spsc_inv_def consumer_inv_def orders_inv_def nth_append
        split: consumer_pc.splits)
  ultimately show ?thesis by (simp add: spsc_inv_def producer_inv_def)
qed

lemma inv_consumer_view:
  assumes "spsc_inv s" and "consumer_view s \<le> v" and "v < length (head_order s)"
  shows "spsc_inv (s\<lparr>consumer_view := v\<rparr>)"
proof -
  have "v \<le> length (pushed s)" using assms(1,3) by (simp add: spsc_inv_def orders_invD(3))
  with assms(1,2) show ?thesis
    by (auto simp: spsc_inv_defs split: producer_pc.splits consumer_pc.splits)
qed

lemma inv_consumer_idle: "spsc_inv s \<Longrightarrow> spsc_inv (s\<lparr>consumer_at := Consumer_Idle\<rparr>)"
  by (auto simp: spsc_inv_defs split: producer_pc.splits)

lemma inv_pop_call: "spsc_inv s \<Longrightarrow> spsc_inv (s\<lparr>consumer_at := Load_Head (last (tail_order s))\<rparr>)"
  using orders_invD(2) [of s] by (auto simp: spsc_inv_defs split: producer_pc.splits)

lemma inv_pop_some:
  assumes "spsc_inv s" and "consumer_at s = Load_Head tail"
    and "consumer_view s \<le> v" and "v < length (head_order s)" and "tail \<noteq> head_order s ! v"
  shows "spsc_inv (s\<lparr>consumer_at := Read_Slot tail, consumer_view := v\<rparr>)"
proof -
  have ord: "orders_inv s" using assms(1) by (simp add: spsc_inv_def)
  have tail: "tail = position (slots s) (length (popped s))"
    using assms(1,2) by (simp add: spsc_inv_def consumer_inv_def)
  with assms(5) orders_invD(5) [OF ord assms(4)] have "length (popped s) \<noteq> v" by auto
  moreover have "length (popped s) \<le> v" using ord assms(3) by (simp add: orders_inv_def)
  ultimately have "length (popped s) < v" by simp
  with inv_consumer_view [OF assms(1,3,4)] tail show ?thesis
    by (auto simp: spsc_inv_defs split: producer_pc.splits)
qed

lemma inv_pop_read:
  assumes "spsc_inv s" and "consumer_at s = Read_Slot tail" and "read_cell tail s = Inr (x, s')"
  shows "spsc_inv (s'\<lparr>consumer_at := Store_Tail x tail\<rparr>)"
proof -
  let ?n = "unat (slots s)" and ?p = "length (pushed s)" and ?c = "length (popped s)"
  have s': "x = pushed s ! ?c" "s' = s\<lparr>read_at := (read_at s)(?c mod ?n := Suc ?c)\<rparr>"
    using read_cell_ok [OF assms(1,2)] assms(3) by simp_all
  have le: "?c < ?p" "?p < ?c + ?n" using assms(1,2) by (simp_all add: spsc_inv_defs)
  have stamp: "((read_at s)(?c mod ?n := Suc ?c)) (i mod ?n) \<le> Suc i - ?n"
    if i: "?p \<le> i" "i < ?p + ?n" for i
  proof (cases "i mod ?n = ?c mod ?n")
    case True
    then have "i = ?c + ?n" using window_inj [of i ?n "?c + ?n" ?p] i le by simp
    then show ?thesis by simp
  next
    case False
    with assms(1) i show ?thesis by (simp add: spsc_inv_def cells_inv_def)
  qed
  have cells: "cells_inv (s'\<lparr>consumer_at := Store_Tail x tail\<rparr>)"
    using assms(1) stamp by (simp add: spsc_inv_def cells_inv_def s'(2))
  show ?thesis
    using assms(1,2) cells s'(1)
    by (auto simp: spsc_inv_def orders_inv_def producer_inv_def consumer_inv_def s'(2)
        split: producer_pc.splits)
qed

lemma inv_pop_store:
  assumes "spsc_inv s" and "consumer_at s = Store_Tail x tail"
  shows "spsc_inv (s\<lparr>consumer_at := Consumer_Idle,
      tail_order := tail_order s @ [increment (slots s) tail], popped := popped s @ [x]\<rparr>)"
    (is "spsc_inv ?s")
proof -
  let ?n = "unat (slots s)" and ?p = "length (pushed s)" and ?c = "length (popped s)"
  have pc: "tail = position (slots s) ?c" "?c < consumer_view s" "x = pushed s ! ?c"
    using assms by (simp_all add: spsc_inv_def consumer_inv_def)
  have le: "?c < ?p" "consumer_view s \<le> ?p" and n: "0 < ?n"
    using assms(1) pc(2) by (simp_all add: spsc_inv_defs)
  have written: "written_at s (i mod ?n) \<le> Suc i" if i: "Suc ?c \<le> i" "i < Suc ?c + ?n" for i
  proof (cases "i = ?c + ?n")
    case True
    moreover have "written_at s (?c mod ?n) \<le> Suc ?c"
      using assms(1) n by (simp add: spsc_inv_def cells_inv_def)
    ultimately show ?thesis by simp
  next
    case False
    with i assms(1) show ?thesis by (simp add: spsc_inv_def cells_inv_def)
  qed
  have "prefix (popped s @ [x]) (pushed s)"
    using assms(1) le pc(3) by (simp add: spsc_inv_def cells_inv_def append_one_prefix)
  with assms(1) written have "cells_inv ?s" by (simp add: spsc_inv_def cells_inv_def)
  moreover have "orders_inv ?s"
    using assms(1) pc le n by (simp add: spsc_inv_def orders_inv_def increment_position)
  moreover have "producer_inv ?s"
    using assms(1) by (auto simp: spsc_inv_def producer_inv_def split: producer_pc.splits)
  ultimately show ?thesis by (simp add: spsc_inv_def consumer_inv_def)
qed

lemma spsc_step_inv: "spsc_step s e s' \<Longrightarrow> spsc_inv s \<Longrightarrow> spsc_inv s'"
proof (induction rule: spsc_step.induct)
  case (pop_none s tail v)
  then show ?case using inv_consumer_view [OF inv_consumer_idle [of s], of v] by simp
qed (auto intro: inv_push_call inv_push_load inv_push_write inv_push_store inv_consumer_view
       inv_pop_call inv_pop_some inv_pop_read inv_pop_store)

lemma spsc_reachable_inv: "spsc_reachable dflt capacity s \<Longrightarrow> capacity < - 1 \<Longrightarrow> spsc_inv s"
  by (induction rule: spsc_reachable.induct) (auto intro: spsc_inv_new spsc_step_inv)

lemma spsc_step_slots: "spsc_step s e s' \<Longrightarrow> slots s' = slots s"
  by (induction rule: spsc_step.induct) (auto simp: write_cell_def read_cell_def split: if_splits)

lemma spsc_reachable_slots: "spsc_reachable dflt capacity s \<Longrightarrow> slots s = capacity + 1"
  by (induction rule: spsc_reachable.induct)
     (simp_all add: spsc_new_def ring_new_def Let_def spsc_step_slots)

lemma spsc_reachable_bound:
  assumes "spsc_reachable dflt capacity s" and "capacity < - 1"
  shows "length (pushed s) \<le> length (popped s) + unat capacity"
proof -
  have "unat (slots s) = Suc (unat capacity)"
    using slot_count [OF assms(2)] spsc_reachable_slots [OF assms(1)] by simp
  moreover have "length (pushed s) < length (popped s) + unat (slots s)"
    using spsc_reachable_inv [OF assms] by (simp add: spsc_inv_def orders_inv_def)
  ultimately show ?thesis by simp
qed

section \<open>Linearisation\<close>

text \<open>The ring buffer as the newest stores show it.\<close>

definition spsc_ring :: "'a spsc \<Rightarrow> 'a ring" where
  "spsc_ring s =
     \<lparr>ring_slots = slots s, ring_buffer = cells s,
      ring_head = last (head_order s), ring_tail = last (tail_order s)\<rparr>"

lemma spsc_ring_contents:
  assumes "spsc_inv s"
  shows "ring_inv (spsc_ring s)"
    and "ring_contents (spsc_ring s) = drop (length (popped s)) (pushed s)"
proof -
  let ?n = "unat (slots s)" and ?p = "length (pushed s)" and ?c = "length (popped s)"
  have ord: "orders_inv s" using assms by (simp add: spsc_inv_def)
  then have n: "0 < ?n" "length (cells s) = ?n" and le: "?c \<le> ?p" "?p < ?c + ?n"
    by (auto simp: orders_inv_def)
  have ends: "unat (ring_head (spsc_ring s)) = ?p mod ?n"
      "unat (ring_tail (spsc_ring s)) = ?c mod ?n" "length (ring_buffer (spsc_ring s)) = ?n"
    using n by (simp_all add: spsc_ring_def orders_invD [OF ord] unat_position)
  show "ring_inv (spsc_ring s)"
    using n ends unfolding ring_inv_def by (simp add: spsc_ring_def)
  let ?u = "ring_used (spsc_ring s)"
  have u: "?u < ?n" using n by (simp add: ring_used_def ends)
  have "(?c + ?u) mod ?n = (?c mod ?n + ?u) mod ?n" by (simp add: mod_add_left_eq)
  also have "\<dots> = ?p mod ?n"
    using circle_step(3) [of "?p mod ?n" ?n "?c mod ?n"] n by (simp add: ring_used_def ends)
  finally have "(?c + ?u) mod ?n = ?p mod ?n" .
  then have used: "?u = ?p - ?c"
    using window_inj [of "?c + ?u" ?n ?p ?c] u le by linarith
  have "cells s ! ((?c + k) mod ?n) = pushed s ! (?c + k)" if "k < ?p - ?c" for k
    using assms that by (simp add: spsc_inv_def cells_inv_def)
  then show "ring_contents (spsc_ring s) = drop ?c (pushed s)"
    by (intro nth_equalityI)
       (simp_all add: ring_contents_def used ends mod_add_left_eq, simp add: spsc_ring_def)
qed

lemma linear_push:
  assumes "spsc_inv s" and "producer_at s = Store_Head x next_head"
  shows "ring_push x (spsc_ring s) = Inr (True, spsc_ring
     (s\<lparr>producer_at := Producer_Idle, head_order := head_order s @ [next_head],
        pushed := pushed s @ [x]\<rparr>))"
proof -
  let ?n = "unat (slots s)" and ?p = "length (pushed s)" and ?c = "length (popped s)"
  have ord: "orders_inv s" using assms by (simp add: spsc_inv_def)
  then have n: "0 < ?n" "length (cells s) = ?n" and view: "producer_view s \<le> ?c" "?c \<le> ?p"
    by (auto simp: orders_inv_def)
  have pc: "next_head = position (slots s) (Suc ?p)" "Suc ?p < producer_view s + ?n"
      "cells s ! (?p mod ?n) = x"
    using assms by (simp_all add: spsc_inv_def producer_inv_def)
  have "Suc ?p mod ?n \<noteq> ?c mod ?n"
    using window_inj [of "Suc ?p" ?n ?c ?c] view pc(2) by auto
  then have "position (slots s) (Suc ?p) \<noteq> position (slots s) ?c"
    using n by (simp add: position_eq_iff)
  moreover have "(cells s)[?p mod ?n := x] = cells s" using pc(3) n by (metis list_update_id)
  ultimately show ?thesis
    using n pc(1) increment_position [OF n(1), of ?p]
    by (simp add: ring_push_def spsc_ring_def orders_invD [OF ord] unat_position)
qed

lemma linear_pop:
  assumes "spsc_inv s" and "consumer_at s = Store_Tail x tail"
  shows "ring_pop (spsc_ring s) = Inr (Some x, spsc_ring
     (s\<lparr>consumer_at := Consumer_Idle, tail_order := tail_order s @ [increment (slots s) tail],
        popped := popped s @ [x]\<rparr>))"
proof -
  let ?n = "unat (slots s)" and ?p = "length (pushed s)" and ?c = "length (popped s)"
  have ord: "orders_inv s" using assms by (simp add: spsc_inv_def)
  then have n: "0 < ?n" "length (cells s) = ?n" and view: "consumer_view s \<le> ?p" "?p < ?c + ?n"
    by (auto simp: orders_inv_def)
  have pc: "tail = position (slots s) ?c" "?c < consumer_view s" "x = pushed s ! ?c"
    using assms by (simp_all add: spsc_inv_def consumer_inv_def)
  have "?c mod ?n \<noteq> ?p mod ?n" using window_inj [of ?c ?n ?p ?c] view pc(2) by auto
  then have "position (slots s) ?c \<noteq> position (slots s) ?p" using n by (simp add: position_eq_iff)
  moreover have "cells s ! (?c mod ?n) = x"
    using assms(1) view pc(2,3) by (simp add: spsc_inv_def cells_inv_def)
  ultimately show ?thesis
    using n pc(1) by (simp add: ring_pop_def spsc_ring_def orders_invD [OF ord] unat_position)
qed

section \<open>Each call takes boundedly many steps\<close>

fun producer_work :: "'a producer_pc \<Rightarrow> nat" where
  "producer_work Producer_Idle = 0"
| "producer_work (Store_Head _ _) = 1"
| "producer_work (Write_Slot _ _ _) = 2"
| "producer_work (Load_Tail _ _ _) = 3"

fun consumer_work :: "'a consumer_pc \<Rightarrow> nat" where
  "consumer_work Consumer_Idle = 0"
| "consumer_work (Store_Tail _ _) = 1"
| "consumer_work (Read_Slot _) = 2"
| "consumer_work (Load_Head _) = 3"

lemma producer_progress:
  assumes "spsc_inv s" and "producer_at s \<noteq> Producer_Idle"
  shows "\<exists>e s'. spsc_step s e s' \<and> consumer_at s' = consumer_at s \<and>
     producer_work (producer_at s') < producer_work (producer_at s)"
proof (cases "producer_at s")
  case (Load_Tail x head next_head)
  have "producer_view s < length (tail_order s)"
    using assms(1) orders_invD(4) [of s] by (auto simp: spsc_inv_def orders_inv_def)
  with Load_Tail show ?thesis
    using push_full [OF Load_Tail order_refl] push_room [OF Load_Tail order_refl]
    by (cases "next_head = tail_order s ! producer_view s") fastforce+
next
  case (Write_Slot x head next_head)
  with push_write [OF Write_Slot write_cell_ok [OF assms(1) Write_Slot]] show ?thesis by fastforce
next
  case (Store_Head x next_head)
  with push_store [OF Store_Head] show ?thesis by fastforce
qed (use assms in simp)

lemma consumer_progress:
  assumes "spsc_inv s" and "consumer_at s \<noteq> Consumer_Idle"
  shows "\<exists>e s'. spsc_step s e s' \<and> producer_at s' = producer_at s \<and>
     consumer_work (consumer_at s') < consumer_work (consumer_at s)"
proof (cases "consumer_at s")
  case (Load_Head tail)
  have "consumer_view s < length (head_order s)"
    using assms(1) orders_invD(3) [of s] by (auto simp: spsc_inv_def orders_inv_def)
  with Load_Head show ?thesis
    using pop_none [OF Load_Head order_refl] pop_some [OF Load_Head order_refl]
    by (cases "tail = head_order s ! consumer_view s") fastforce+
next
  case (Read_Slot tail)
  with pop_read [OF Read_Slot read_cell_ok [OF assms(1) Read_Slot]] show ?thesis by fastforce
next
  case (Store_Tail x tail)
  with pop_store [OF Store_Tail] show ?thesis by fastforce
qed (use assms in simp)

text \<open>A whole call on its own, with the newest values visible.\<close>

lemma push_runs_through:
  assumes inv: "spsc_inv q" and idle: "producer_at q = Producer_Idle"
    and room: "Suc (length (pushed q)) < length (popped q) + unat (slots q)"
  obtains q1 q2 q3 q4 where "spsc_step q (Calls_Push x) q1" and "spsc_step q1 Silent q2"
    and "spsc_step q2 Silent q3" and "spsc_step q3 (Push_Returns x True) q4"
    and "producer_at q4 = Producer_Idle" and "consumer_at q4 = consumer_at q"
    and "pushed q4 = pushed q @ [x]" and "popped q4 = popped q" and "slots q4 = slots q"
proof -
  let ?n = "unat (slots q)" and ?p = "length (pushed q)" and ?c = "length (popped q)"
  have ord: "orders_inv q" using inv by (simp add: spsc_inv_def)
  then have n: "0 < ?n" and le: "?c \<le> ?p" "producer_view q \<le> ?c" by (auto simp: orders_inv_def)
  define h where "h = last (head_order q)"
  define q1 where "q1 = q\<lparr>producer_at := Load_Tail x h (increment (slots q) h)\<rparr>"
  have s1: "spsc_step q (Calls_Push x) q1" unfolding q1_def h_def by (rule push_call [OF idle refl])
  have next_head: "increment (slots q) h = position (slots q) (Suc ?p)"
    unfolding h_def orders_invD(1) [OF ord] using increment_position [OF n] by simp
  have "Suc ?p mod ?n \<noteq> ?c mod ?n" using window_inj [of "Suc ?p" ?n ?c ?c] le room by auto
  then have "position (slots q) (Suc ?p) \<noteq> position (slots q) ?c" using n by (simp add: position_eq_iff)
  moreover have "tail_order q ! ?c = position (slots q) ?c"
    using orders_invD(4) [OF ord] by (intro orders_invD(6) [OF ord]) simp
  ultimately have ne: "increment (slots q) h \<noteq> tail_order q ! ?c" by (simp add: next_head)
  define q2 where "q2 = q1\<lparr>producer_at := Write_Slot x h (increment (slots q) h), producer_view := ?c\<rparr>"
  have s2: "spsc_step q1 Silent q2"
    unfolding q2_def by (rule push_room) (use le ne orders_invD(4) [OF ord] in \<open>simp_all add: q1_def\<close>)
  have inv2: "spsc_inv q2" using spsc_step_inv [OF s2 spsc_step_inv [OF s1 inv]] .
  have pc2: "producer_at q2 = Write_Slot x h (increment (slots q) h)" by (simp add: q2_def)
  obtain q3' where w: "write_cell h x q2 = Inr q3'" using write_cell_ok [OF inv2 pc2] by blast
  define q3 where "q3 = q3'\<lparr>producer_at := Store_Head x (increment (slots q) h)\<rparr>"
  have s3: "spsc_step q2 Silent q3" unfolding q3_def by (rule push_write [OF pc2 w])
  have q3': "pushed q3' = pushed q" "popped q3' = popped q" "slots q3' = slots q"
      "consumer_at q3' = consumer_at q"
    using w by (auto simp: write_cell_def q2_def q1_def split: if_splits)
  show thesis
    by (rule that [OF s1 s2 s3 push_store [of q3 x "increment (slots q) h"]])
       (simp_all add: q3_def q3')
qed

lemma pop_runs_through:
  assumes inv: "spsc_inv q" and idle: "consumer_at q = Consumer_Idle"
    and some: "length (popped q) < length (pushed q)"
  obtains q1 q2 q3 q4 where "spsc_step q Calls_Pop q1" and "spsc_step q1 Silent q2"
    and "spsc_step q2 Silent q3"
    and "spsc_step q3 (Pop_Returns (Some (pushed q ! length (popped q)))) q4"
    and "consumer_at q4 = Consumer_Idle" and "producer_at q4 = producer_at q"
    and "pushed q4 = pushed q" and "popped q4 = popped q @ [pushed q ! length (popped q)]"
    and "slots q4 = slots q"
proof -
  let ?n = "unat (slots q)" and ?p = "length (pushed q)" and ?c = "length (popped q)"
  have ord: "orders_inv q" using inv by (simp add: spsc_inv_def)
  then have n: "0 < ?n" and le: "consumer_view q \<le> ?p" "?p < ?c + ?n" by (auto simp: orders_inv_def)
  define t where "t = last (tail_order q)"
  define q1 where "q1 = q\<lparr>consumer_at := Load_Head t\<rparr>"
  have s1: "spsc_step q Calls_Pop q1" unfolding q1_def t_def by (rule pop_call [OF idle])
  have "?c mod ?n \<noteq> ?p mod ?n" using window_inj [of ?c ?n ?p ?c] le some by auto
  then have "position (slots q) ?c \<noteq> position (slots q) ?p" using n by (simp add: position_eq_iff)
  moreover have "head_order q ! ?p = position (slots q) ?p"
    using orders_invD(3) [OF ord] by (intro orders_invD(5) [OF ord]) simp
  ultimately have ne: "t \<noteq> head_order q ! ?p" by (simp add: t_def orders_invD(2) [OF ord])
  define q2 where "q2 = q1\<lparr>consumer_at := Read_Slot t, consumer_view := ?p\<rparr>"
  have s2: "spsc_step q1 Silent q2"
    unfolding q2_def by (rule pop_some) (use le ne orders_invD(3) [OF ord] in \<open>simp_all add: q1_def\<close>)
  have inv2: "spsc_inv q2" using spsc_step_inv [OF s2 spsc_step_inv [OF s1 inv]] .
  have pc2: "consumer_at q2 = Read_Slot t" by (simp add: q2_def)
  obtain q3' where r: "read_cell t q2 = Inr (pushed q ! ?c, q3')"
    using read_cell_ok [OF inv2 pc2] by (simp add: q2_def q1_def)
  define q3 where "q3 = q3'\<lparr>consumer_at := Store_Tail (pushed q ! ?c) t\<rparr>"
  have s3: "spsc_step q2 Silent q3" unfolding q3_def by (rule pop_read [OF pc2 r])
  have q3': "pushed q3' = pushed q" "popped q3' = popped q" "slots q3' = slots q"
      "producer_at q3' = producer_at q"
    using r by (auto simp: read_cell_def q2_def q1_def split: if_splits)
  show thesis
    by (rule that [OF s1 s2 s3 pop_store [of q3 "pushed q ! ?c" t]]) (simp_all add: q3_def q3')
qed

section \<open>Properties\<close>

lemma sample_spsc: "spsc_reachable 0 2 (spsc_new 0 2)"
  by (rule start)

text \<open>
  Property C2. Under every interleaving of one producer and one consumer and every value the
  memory model lets an acquire load return, no access of a slot is out of bounds or a data race,
  the values popped are a prefix of the values pushed, and at most the requested capacity is in
  flight.
\<close>

theorem spsc_race_free:
  assumes "capacity < - 1" and "spsc_reachable dflt capacity s"
  shows "\<not> spsc_undefined s \<and> prefix (popped s) (pushed s) \<and>
     length (pushed s) \<le> length (popped s) + unat capacity"
  using spsc_inv_defined [OF spsc_reachable_inv [OF assms(2,1)]] spsc_reachable_inv [OF assms(2,1)]
    spsc_reachable_bound [OF assms(2,1)]
  by (simp add: spsc_inv_def cells_inv_def)

theorem spsc_race_free_witness:
  "\<exists>s. spsc_reachable 0 (2 :: u64) s \<and> producer_at s = Write_Slot (7 :: nat) 0 1 \<and> \<not> spsc_undefined s"
proof -
  let ?s0 = "spsc_new (0 :: nat) 2"
  let ?s1 = "?s0\<lparr>producer_at := Load_Tail 7 0 1\<rparr>"
  let ?s2 = "?s1\<lparr>producer_at := Write_Slot 7 0 1, producer_view := 0\<rparr>"
  have "spsc_step ?s0 (Calls_Push 7) ?s1"
    using push_call [of ?s0 0 7] by (simp add: spsc_new_def ring_new_def Let_def increment_def)
  then have "spsc_reachable 0 2 ?s1" by (rule step [OF sample_spsc])
  moreover have "spsc_step ?s1 Silent ?s2"
    by (rule push_room) (simp_all add: spsc_new_def ring_new_def Let_def)
  ultimately have reach: "spsc_reachable 0 2 ?s2" by (rule step)
  with spsc_race_free [OF _ this] show ?thesis by (intro exI [of _ ?s2]) simp
qed

text \<open>
  Property C6. Linearisability: the step that ends a successful push or pop is exactly the
  sequential \<open>ring_push\<close> or \<open>ring_pop\<close> on the shared state, no other step changes the contents,
  and the contents are always what was pushed and not yet popped.
\<close>

theorem spsc_linearizable:
  assumes "capacity < - 1" and "spsc_reachable dflt capacity s" and "spsc_step s e s'"
  shows "ring_contents (spsc_ring s) = drop (length (popped s)) (pushed s) \<and>
    (case e of
       Push_Returns x True \<Rightarrow> ring_push x (spsc_ring s) = Inr (True, spsc_ring s')
     | Pop_Returns (Some x) \<Rightarrow> ring_pop (spsc_ring s) = Inr (Some x, spsc_ring s')
     | _ \<Rightarrow> ring_contents (spsc_ring s') = ring_contents (spsc_ring s))"
proof -
  have inv: "spsc_inv s" by (rule spsc_reachable_inv [OF assms(2,1)])
  have inv': "spsc_inv s'" by (rule spsc_step_inv [OF assms(3) inv])
  note c = spsc_ring_contents(2) [OF inv] spsc_ring_contents(2) [OF inv']
  from assms(3) show ?thesis
    by (cases rule: spsc_stepE)
       (use c in \<open>auto simp: linear_push [OF inv] linear_pop [OF inv] write_cell_def read_cell_def
         split: if_splits\<close>)
qed

theorem spsc_linearizable_witness:
  "ring_contents (spsc_ring (spsc_new (0 :: nat) 2)) = []"
proof -
  have "spsc_step (spsc_new (0 :: nat) 2) Calls_Pop
      ((spsc_new 0 2)\<lparr>consumer_at := Load_Head (last (tail_order (spsc_new (0 :: nat) 2)))\<rparr>)"
    by (rule pop_call) (simp add: spsc_new_def Let_def)
  from spsc_linearizable [OF _ sample_spsc this] show ?thesis
    by (simp add: spsc_new_def Let_def)
qed

text \<open>
  Property C24. Wait-freedom: whatever the other thread does, a thread inside a call always has a
  step of its own, and each such step brings it strictly closer to its return; a call takes at most
  three steps after it starts.
\<close>

theorem spsc_wait_free:
  assumes "capacity < - 1" and "spsc_reachable dflt capacity s"
  shows "(producer_at s = Producer_Idle \<or> (\<exists>e s'. spsc_step s e s' \<and> consumer_at s' = consumer_at s \<and>
       producer_work (producer_at s') < producer_work (producer_at s))) \<and>
     (consumer_at s = Consumer_Idle \<or> (\<exists>e s'. spsc_step s e s' \<and> producer_at s' = producer_at s \<and>
       consumer_work (consumer_at s') < consumer_work (consumer_at s))) \<and>
     producer_work (producer_at s) \<le> 3 \<and> consumer_work (consumer_at s) \<le> 3"
  using producer_progress [OF spsc_reachable_inv [OF assms(2,1)]]
    consumer_progress [OF spsc_reachable_inv [OF assms(2,1)]]
  by (cases "producer_at s"; cases "consumer_at s") simp_all

theorem spsc_wait_free_witness:
  "\<exists>e s'. spsc_step ((spsc_new (0 :: nat) 2)\<lparr>consumer_at := Load_Head 0\<rparr>) e s' \<and>
     consumer_at s' = Consumer_Idle"
proof -
  let ?s = "(spsc_new (0 :: nat) 2)\<lparr>consumer_at := Load_Head 0\<rparr>"
  have "spsc_step (spsc_new (0 :: nat) 2) Calls_Pop ?s"
    using pop_call [of "spsc_new (0 :: nat) 2"] by (simp add: spsc_new_def ring_new_def Let_def)
  then have reach: "spsc_reachable 0 2 ?s" by (rule step [OF sample_spsc])
  from spsc_wait_free [OF _ this] obtain e s' where "spsc_step ?s e s'"
      "consumer_work (consumer_at s') < 3" "producer_at s' = Producer_Idle"
    by (auto simp: spsc_new_def Let_def)
  then show ?thesis
    by (intro exI [of _ e] exI [of _ s'])
       (auto elim!: spsc_stepE simp: spsc_new_def ring_new_def Let_def)
qed

end
