(* ===== verification/Message.thy ===== *)
theory Message
  imports Prelude
begin

text \<open>
  The market data message of \<open>include/latency_lab/market_message.hpp\<close>: its two enumerations
  and the 64-byte record. \<open>get_timestamp_ns\<close> reads \<open>std::chrono::steady_clock\<close>; where the
  sources call it, the model takes the value read as an argument.
\<close>

datatype side = Buy | Sell

datatype message_type = Add | Modify | Cancel | Trade

record market_message =
  msg_sequence_number :: u64
  msg_exchange_timestamp_ns :: u64
  msg_order_id :: u64
  msg_price :: int64
  msg_quantity :: u32
  msg_side :: side
  msg_type :: message_type
  msg_symbol :: "u8 list"
  msg_padding :: "u8 list"

text \<open>\<open>MarketMessage msg = {}\<close>: every member is value-initialised to zero.\<close>

definition zero_message :: market_message where
  "zero_message = \<lparr>msg_sequence_number = 0, msg_exchange_timestamp_ns = 0, msg_order_id = 0,
     msg_price = Int64 0, msg_quantity = 0, msg_side = Buy, msg_type = Add,
     msg_symbol = replicate 8 0, msg_padding = replicate 18 0\<rparr>"

text \<open>The messages the tests build: a zeroed message with five members set.\<close>

definition make_message :: "message_type \<Rightarrow> u64 \<Rightarrow> side \<Rightarrow> int64 \<Rightarrow> u32 \<Rightarrow> market_message" where
  "make_message t i s p q = zero_message\<lparr>msg_type := t, msg_order_id := i, msg_side := s,
     msg_price := p, msg_quantity := q\<rparr>"

lemma make_message_simps [simp]:
  "msg_type (make_message t i s p q) = t"
  "msg_order_id (make_message t i s p q) = i"
  "msg_side (make_message t i s p q) = s"
  "msg_price (make_message t i s p q) = p"
  "msg_quantity (make_message t i s p q) = q"
  by (simp_all add: make_message_def zero_message_def)

end
