(* ===== verification/Book_Spec.thy ===== *)
theory Book_Spec
  imports Message
begin

text \<open>
  What a limit order book promises, independent of how either book of the sources stores it:
  the resting orders in order of arrival. A price level is a function of that list
  (\<open>level_of\<close>), each message has a one-line effect on it (\<open>spec_message\<close>), and the laws
  below say how a level changes when one order is added, re-quantified or removed. Both books
  refine this specification.
\<close>

section \<open>Orders and price levels\<close>

record order =
  ord_order_id :: u64
  ord_price :: int64
  ord_quantity :: u32
  ord_side :: side

record price_level =
  lvl_price :: int64
  lvl_order_ids :: "u64 list"
  lvl_total_quantity :: u32

definition new_order :: "market_message \<Rightarrow> order" where
  "new_order msg = \<lparr>ord_order_id = msg_order_id msg, ord_price = msg_price msg,
     ord_quantity = msg_quantity msg, ord_side = msg_side msg\<rparr>"

lemma new_order_simps [simp]:
  "ord_order_id (new_order msg) = msg_order_id msg"
  "ord_price (new_order msg) = msg_price msg"
  "ord_quantity (new_order msg) = msg_quantity msg"
  "ord_side (new_order msg) = msg_side msg"
  by (simp_all add: new_order_def)

section \<open>The specification\<close>

definition spec_find :: "u64 \<Rightarrow> order list \<Rightarrow> order option" where
  "spec_find i os = find (\<lambda>r. ord_order_id r = i) os"

definition upd_order :: "u64 \<Rightarrow> u32 \<Rightarrow> order list \<Rightarrow> order list" where
  "upd_order i q os = map (\<lambda>r. if ord_order_id r = i then r\<lparr>ord_quantity := q\<rparr> else r) os"

definition del_order :: "u64 \<Rightarrow> order list \<Rightarrow> order list" where
  "del_order i os = filter (\<lambda>r. ord_order_id r \<noteq> i) os"

definition spec_message :: "market_message \<Rightarrow> order list \<Rightarrow> order list" where
  "spec_message msg os =
     (case (msg_type msg, spec_find (msg_order_id msg) os) of
        (Add, None) \<Rightarrow> os @ [new_order msg]
      | (Add, Some _) \<Rightarrow> os
      | (Modify, _) \<Rightarrow> upd_order (msg_order_id msg) (msg_quantity msg) os
      | (Cancel, _) \<Rightarrow> del_order (msg_order_id msg) os
      | (Trade, None) \<Rightarrow> os
      | (Trade, Some r) \<Rightarrow>
          (if ord_quantity r \<le> msg_quantity msg then del_order (msg_order_id msg) os
           else upd_order (msg_order_id msg) (ord_quantity r - msg_quantity msg) os))"

definition spec_run :: "market_message list \<Rightarrow> order list \<Rightarrow> order list" where
  "spec_run msgs os = fold spec_message msgs os"

definition ids_distinct :: "order list \<Rightarrow> bool" where
  "ids_distinct os \<longleftrightarrow> distinct (map ord_order_id os)"

definition resting :: "side \<Rightarrow> int64 \<Rightarrow> order list \<Rightarrow> order list" where
  "resting s p os = filter (\<lambda>r. ord_side r = s \<and> ord_price r = p) os"

definition level_of :: "side \<Rightarrow> int64 \<Rightarrow> order list \<Rightarrow> price_level option" where
  "level_of s p os =
     (case resting s p os of
        [] \<Rightarrow> None
      | r # rs \<Rightarrow> Some \<lparr>lvl_price = p, lvl_order_ids = map ord_order_id (r # rs),
                        lvl_total_quantity = sum_list (map ord_quantity (r # rs))\<rparr>)"

text \<open>The true size of a level, before the books' 32-bit sum can wrap.\<close>

definition depth :: "side \<Rightarrow> int64 \<Rightarrow> order list \<Rightarrow> nat" where
  "depth s p os = sum_list (map (\<lambda>r. unat (ord_quantity r)) (resting s p os))"

definition prices_of :: "side \<Rightarrow> order list \<Rightarrow> int64 set" where
  "prices_of s os = ord_price ` {r \<in> set os. ord_side r = s}"

text \<open>The best price of a side: the highest bid, the lowest ask.\<close>

definition spec_best :: "side \<Rightarrow> order list \<Rightarrow> price_level option" where
  "spec_best s os =
     (if prices_of s os = {} then None
      else level_of s (case s of Buy \<Rightarrow> Max (prices_of s os) | Sell \<Rightarrow> Min (prices_of s os)) os)"

lemma prices_of_set: "prices_of s os = set (map ord_price (filter (\<lambda>r. ord_side r = s) os))"
  by (auto simp: prices_of_def)

section \<open>Lookup\<close>

lemma spec_find_SomeD: "spec_find i os = Some r \<Longrightarrow> r \<in> set os \<and> ord_order_id r = i"
  unfolding spec_find_def by (induction os) (auto split: if_splits)

lemma spec_find_None_iff: "spec_find i os = None \<longleftrightarrow> i \<notin> ord_order_id ` set os"
  by (auto simp: spec_find_def find_None_iff)

lemma spec_find_eqI:
  "ids_distinct os \<Longrightarrow> r \<in> set os \<Longrightarrow> ord_order_id r = i \<Longrightarrow> spec_find i os = Some r"
  by (induction os) (auto simp: ids_distinct_def spec_find_def)

lemma spec_find_append:
  "spec_find i (os @ [r]) =
     (case spec_find i os of None \<Rightarrow> if ord_order_id r = i then Some r else None | Some x \<Rightarrow> Some x)"
  by (simp add: spec_find_def find_append split: option.split)

lemma spec_find_upd:
  "spec_find j (upd_order i q os) =
     (if j = i then map_option (\<lambda>r. r\<lparr>ord_quantity := q\<rparr>) (spec_find i os) else spec_find j os)"
  by (induction os) (auto simp: spec_find_def upd_order_def)

lemma spec_find_del: "spec_find j (del_order i os) = (if j = i then None else spec_find j os)"
  by (induction os) (auto simp: spec_find_def del_order_def)

lemma spec_find_Nil [simp]: "spec_find i [] = None"
  by (simp add: spec_find_def)

lemma ids_upd [simp]: "map ord_order_id (upd_order i q os) = map ord_order_id os"
  by (induction os) (auto simp: upd_order_def)

lemma ids_del: "map ord_order_id (del_order i os) = filter (\<lambda>j. j \<noteq> i) (map ord_order_id os)"
  by (induction os) (auto simp: del_order_def)

lemma ids_distinct_Nil [simp]: "ids_distinct []"
  by (simp add: ids_distinct_def)

lemma ids_distinct_upd [simp]: "ids_distinct (upd_order i q os) = ids_distinct os"
  by (simp add: ids_distinct_def)

lemma ids_distinct_del [intro]: "ids_distinct os \<Longrightarrow> ids_distinct (del_order i os)"
  by (simp add: ids_distinct_def ids_del)

lemma ids_distinct_add [intro]:
  "ids_distinct os \<Longrightarrow> spec_find (ord_order_id r) os = None \<Longrightarrow> ids_distinct (os @ [r])"
  by (auto simp: ids_distinct_def spec_find_None_iff)

lemma ids_distinct_spec_message: "ids_distinct os \<Longrightarrow> ids_distinct (spec_message msg os)"
  by (auto simp: spec_message_def split: message_type.splits option.splits)

lemma dom_spec_find: "dom (\<lambda>i. spec_find i os) = ord_order_id ` set os"
  by (auto simp: dom_def spec_find_None_iff simp flip: not_None_eq)

lemma upd_absent: "spec_find i os = None \<Longrightarrow> upd_order i q os = os"
  by (induction os) (auto simp: spec_find_def upd_order_def split: if_splits)

lemma del_absent: "spec_find i os = None \<Longrightarrow> del_order i os = os"
  by (induction os) (auto simp: spec_find_def del_order_def split: if_splits)

lemma length_upd [simp]: "length (upd_order i q os) = length os"
  by (simp add: upd_order_def)

section \<open>How a level follows its orders\<close>

lemma resting_Nil_iff: "resting s p os = [] \<longleftrightarrow> p \<notin> prices_of s os"
  by (auto simp: resting_def prices_of_def filter_empty_conv)

lemma level_of_None_iff: "level_of s p os = None \<longleftrightarrow> p \<notin> prices_of s os"
  by (simp add: level_of_def resting_Nil_iff [symmetric] split: list.split)

lemma level_of_Some_iff:
  "level_of s p os = Some l \<longleftrightarrow>
     resting s p os \<noteq> [] \<and> l = \<lparr>lvl_price = p, lvl_order_ids = map ord_order_id (resting s p os),
       lvl_total_quantity = sum_list (map ord_quantity (resting s p os))\<rparr>"
  by (auto simp: level_of_def split: list.splits)

lemma level_of_Nil [simp]: "level_of s p [] = None"
  by (simp add: level_of_def resting_def)

lemma level_of_present: "r \<in> set os \<Longrightarrow> \<exists>l. level_of (ord_side r) (ord_price r) os = Some l"
  using level_of_None_iff [of "ord_side r" "ord_price r" os] by (auto simp: prices_of_def)

lemma resting_add:
  "resting s p (os @ [r]) = resting s p os @ (if ord_side r = s \<and> ord_price r = p then [r] else [])"
  by (simp add: resting_def)

lemma resting_upd:
  "resting s p (upd_order i q os) = upd_order i q (resting s p os)"
  by (induction os) (auto simp: resting_def upd_order_def)

lemma resting_del: "resting s p (del_order i os) = del_order i (resting s p os)"
  by (simp add: resting_def del_order_def conj_commute)

lemma ids_distinct_resting: "ids_distinct os \<Longrightarrow> ids_distinct (resting s p os)"
  by (simp add: ids_distinct_def resting_def distinct_map_filter)

lemma spec_find_resting:
  assumes "ids_distinct os" and "spec_find i os = Some r"
  shows "spec_find i (resting s p os) = (if ord_side r = s \<and> ord_price r = p then Some r else None)"
proof -
  from spec_find_SomeD [OF assms(2)] have r: "r \<in> set os" "ord_order_id r = i" by simp_all
  have "x = r" if "x \<in> set os" "ord_order_id x = i" for x
    using spec_find_eqI [OF assms(1) that] assms(2) by simp
  then have "spec_find i (resting s p os) = None" if "\<not> (ord_side r = s \<and> ord_price r = p)"
    using that by (auto simp: spec_find_None_iff resting_def)
  moreover have "spec_find i (resting s p os) = Some r" if "ord_side r = s \<and> ord_price r = p"
    using that r assms(1)
    by (intro spec_find_eqI ids_distinct_resting) (auto simp: resting_def)
  ultimately show ?thesis by simp
qed

lemma upd_order_Cons:
  "upd_order i q (x # xs) =
     (if ord_order_id x = i then x\<lparr>ord_quantity := q\<rparr> else x) # upd_order i q xs"
  by (simp add: upd_order_def)

lemma del_order_Cons:
  "del_order i (x # xs) = (if ord_order_id x = i then del_order i xs else x # del_order i xs)"
  by (simp add: del_order_def)

text \<open>Any sum over the orders, when one order is re-quantified or removed.\<close>

lemma spec_find_Cons_hit:
  assumes "ids_distinct (x # xs)" and "spec_find i (x # xs) = Some r" and "ord_order_id x = i"
  shows "x = r" and "spec_find i xs = None"
  using assms by (simp add: spec_find_def, auto simp: spec_find_None_iff ids_distinct_def)

lemma sum_upd:
  fixes f :: "order \<Rightarrow> 'a::comm_monoid_add"
  assumes "ids_distinct os" and "spec_find i os = Some r"
  shows "sum_list (map f (upd_order i q os)) + f r =
         sum_list (map f os) + f (r\<lparr>ord_quantity := q\<rparr>)"
  using assms
proof (induction os)
  case (Cons x xs)
  show ?case
  proof (cases "ord_order_id x = i")
    case True
    note hit = spec_find_Cons_hit [OF Cons.prems True]
    then have "upd_order i q xs = xs" by (intro upd_absent)
    with True hit(1) show ?thesis by (simp add: upd_order_def ac_simps)
  next
    case False
    with Cons have "sum_list (map f (upd_order i q xs)) + f r =
        sum_list (map f xs) + f (r\<lparr>ord_quantity := q\<rparr>)"
      by (simp add: spec_find_def ids_distinct_def)
    with False show ?thesis by (simp add: upd_order_Cons add.assoc)
  qed
qed simp

lemma sum_del:
  fixes f :: "order \<Rightarrow> 'a::comm_monoid_add"
  assumes "ids_distinct os" and "spec_find i os = Some r"
  shows "sum_list (map f (del_order i os)) + f r = sum_list (map f os)"
  using assms
proof (induction os)
  case (Cons x xs)
  show ?case
  proof (cases "ord_order_id x = i")
    case True
    note hit = spec_find_Cons_hit [OF Cons.prems True]
    then have "del_order i xs = xs" by (intro del_absent)
    with True hit(1) show ?thesis by (simp add: del_order_def ac_simps)
  next
    case False
    with Cons have "sum_list (map f (del_order i xs)) + f r = sum_list (map f xs)"
      by (simp add: spec_find_def ids_distinct_def)
    with False show ?thesis by (simp add: del_order_Cons add.assoc)
  qed
qed simp

lemma sum_quantity_upd:
  "ids_distinct os \<Longrightarrow> spec_find i os = Some r \<Longrightarrow>
   sum_list (map ord_quantity (upd_order i q os)) =
   sum_list (map ord_quantity os) + (q - ord_quantity r)"
  using sum_upd [of os i r ord_quantity q] by (simp add: algebra_simps)

lemma sum_quantity_del:
  "ids_distinct os \<Longrightarrow> spec_find i os = Some r \<Longrightarrow>
   sum_list (map ord_quantity (del_order i os)) =
   sum_list (map ord_quantity os) - ord_quantity r"
  using sum_del [of os i r ord_quantity] by (simp add: algebra_simps)

lemma ids_del_remove1:
  "ids_distinct os \<Longrightarrow> map ord_order_id (del_order i os) = remove1 i (map ord_order_id os)"
  by (simp add: ids_del ids_distinct_def distinct_remove1_removeAll removeAll_filter_not_eq)
     (simp add: eq_commute)

lemma level_of_add:
  "level_of s p (os @ [r]) =
     (if ord_side r = s \<and> ord_price r = p then
        Some (case level_of s p os of
                None \<Rightarrow> \<lparr>lvl_price = p, lvl_order_ids = [ord_order_id r],
                         lvl_total_quantity = ord_quantity r\<rparr>
              | Some l \<Rightarrow> l\<lparr>lvl_order_ids := lvl_order_ids l @ [ord_order_id r],
                           lvl_total_quantity := lvl_total_quantity l + ord_quantity r\<rparr>)
      else level_of s p os)"
  by (cases "resting s p os") (auto simp: level_of_def resting_add)

lemma level_of_upd:
  assumes "ids_distinct os" and "spec_find i os = Some r"
  shows "level_of s p (upd_order i q os) =
     (if ord_side r = s \<and> ord_price r = p then
        map_option (\<lambda>l. l\<lparr>lvl_total_quantity := lvl_total_quantity l + (q - ord_quantity r)\<rparr>)
          (level_of s p os)
      else level_of s p os)"
proof (cases "ord_side r = s \<and> ord_price r = p")
  case False
  with assms have "spec_find i (resting s p os) = None" by (auto simp: spec_find_resting)
  then have "resting s p (upd_order i q os) = resting s p os"
    by (simp add: resting_upd upd_absent)
  with False show ?thesis by (auto simp: level_of_def)
next
  case True
  obtain x xs where rs: "resting s p os = x # xs"
    using spec_find_resting [OF assms, of s p] True by (cases "resting s p os") auto
  note u = sum_quantity_upd [OF ids_distinct_resting [OF assms(1)], of i s p r q]
  have ne: "upd_order i q (resting s p os) \<noteq> []" by (simp add: upd_order_def rs)
  have "level_of s p (upd_order i q os) =
      Some \<lparr>lvl_price = p, lvl_order_ids = map ord_order_id (resting s p os),
        lvl_total_quantity = sum_list (map ord_quantity (resting s p os)) + (q - ord_quantity r)\<rparr>"
    using u True assms ne by (simp add: level_of_Some_iff resting_upd spec_find_resting)
  moreover have "level_of s p os = Some \<lparr>lvl_price = p,
      lvl_order_ids = map ord_order_id (resting s p os),
      lvl_total_quantity = sum_list (map ord_quantity (resting s p os))\<rparr>"
    by (simp add: level_of_Some_iff rs)
  ultimately show ?thesis using True by simp
qed

lemma level_of_del:
  assumes "ids_distinct os" and "spec_find i os = Some r"
  shows "level_of s p (del_order i os) =
     (if ord_side r = s \<and> ord_price r = p then
        (case level_of s p os of
           None \<Rightarrow> None
         | Some l \<Rightarrow> if remove1 i (lvl_order_ids l) = [] then None
                     else Some (l\<lparr>lvl_order_ids := remove1 i (lvl_order_ids l),
                                 lvl_total_quantity := lvl_total_quantity l - ord_quantity r\<rparr>))
      else level_of s p os)"
proof (cases "ord_side r = s \<and> ord_price r = p")
  case False
  with assms have "spec_find i (resting s p os) = None" by (auto simp: spec_find_resting)
  then have "resting s p (del_order i os) = resting s p os"
    by (simp add: resting_del del_absent)
  with False show ?thesis by (auto simp: level_of_def)
next
  case True
  let ?rs = "resting s p os"
  have d: "ids_distinct ?rs" using assms(1) by (rule ids_distinct_resting)
  have f: "spec_find i ?rs = Some r" using spec_find_resting [OF assms, of s p] True by simp
  have l: "level_of s p os = Some \<lparr>lvl_price = p, lvl_order_ids = map ord_order_id ?rs,
      lvl_total_quantity = sum_list (map ord_quantity ?rs)\<rparr>"
    using f by (auto simp: level_of_Some_iff)
  have ids: "remove1 i (map ord_order_id ?rs) = map ord_order_id (del_order i ?rs)"
    by (simp add: ids_del_remove1 d)
  show ?thesis
  proof (cases "del_order i ?rs")
    case Nil
    then show ?thesis using True by (simp add: l ids) (simp add: level_of_def resting_del)
  next
    case (Cons y ys)
    then have "level_of s p (del_order i os) = Some \<lparr>lvl_price = p,
        lvl_order_ids = map ord_order_id (del_order i ?rs),
        lvl_total_quantity = sum_list (map ord_quantity (del_order i ?rs))\<rparr>"
      by (simp add: level_of_Some_iff resting_del)
    moreover have "map ord_order_id (del_order i ?rs) \<noteq> []" using Cons by simp
    moreover note sum_quantity_del [OF d f]
    ultimately show ?thesis using True by (simp add: l ids)
  qed
qed

section \<open>Depth\<close>

text \<open>
  The 32-bit total of a level is its depth modulo \<open>2 ^ 32\<close>; a book is \<open>shallow\<close> when every
  level's depth fits a signed 32-bit integer, which is what the arithmetic of the books needs.
\<close>

definition shallow :: "order list \<Rightarrow> bool" where
  "shallow os \<longleftrightarrow> (\<forall>s p. depth s p os < 2 ^ 31)"

lemma level_total_depth:
  "level_of s p os = Some l \<Longrightarrow> lvl_total_quantity l = of_nat (depth s p os)"
  by (auto simp: level_of_Some_iff depth_def of_nat_sum_list_unat)

lemma level_total_unat:
  "level_of s p os = Some l \<Longrightarrow> depth s p os < 2 ^ 32 \<Longrightarrow>
   unat (lvl_total_quantity l) = depth s p os"
  by (auto simp: level_of_Some_iff depth_def unat_sum_list)

lemma depth_upd:
  assumes "ids_distinct os" and "spec_find i os = Some r"
  shows "depth (ord_side r) (ord_price r) (upd_order i q os) + unat (ord_quantity r) =
         depth (ord_side r) (ord_price r) os + unat q"
  using sum_upd [OF ids_distinct_resting [OF assms(1)],
      of i "ord_side r" "ord_price r" r "\<lambda>x. unat (ord_quantity x)" q] assms
  by (simp add: depth_def resting_upd spec_find_resting)

lemma quantity_le_depth:
  "r \<in> set os \<Longrightarrow> unat (ord_quantity r) \<le> depth (ord_side r) (ord_price r) os"
  unfolding depth_def by (rule member_le_sum_list) (auto simp: resting_def)

lemma depth_le:
  assumes "\<And>r. r \<in> set os \<Longrightarrow> unat (ord_quantity r) \<le> c"
  shows "depth s p os \<le> length os * c"
proof -
  have "depth s p os \<le> length (resting s p os) * c"
    unfolding depth_def by (rule sum_list_le_const) (use assms in \<open>auto simp: resting_def\<close>)
  also have "\<dots> \<le> length os * c" by (simp add: resting_def)
  finally show ?thesis .
qed

end
