(* ===== verification/Book_Client.thy ===== *)
theory Book_Client
  imports Book_Spec
begin

text \<open>
  The interface the benchmarks use a book through (the template parameter \<open>Book\<close> of
  \<open>run_case\<close>, and the two classes the other benchmarks name): \<open>on_message\<close>, the best levels
  and the counters. The locale \<open>book\<close> states the contract against the specification; its
  lemmas are about any book fed a stream of messages, and \<open>book_pair\<close> compares two books.
\<close>

section \<open>Feeding a stream\<close>

text \<open>\<open>for (const auto& message : messages) { book.on_message(message); }\<close>\<close>

fun feed :: "('b \<Rightarrow> 'm \<Rightarrow> 'b cpp) \<Rightarrow> 'm list \<Rightarrow> 'b \<Rightarrow> 'b cpp" where
  "feed step [] b = Inr b"
| "feed step (msg # msgs) b = cpp_bind (step b msg) (feed step msgs)"

fun stream_ok ::
  "(order list \<Rightarrow> market_message \<Rightarrow> bool) \<Rightarrow> market_message list \<Rightarrow> order list \<Rightarrow> bool" where
  "stream_ok ok [] os = True"
| "stream_ok ok (msg # msgs) os = (ok os msg \<and> stream_ok ok msgs (spec_message msg os))"

lemma feed_append: "feed step (xs @ ys) b = cpp_bind (feed step xs b) (feed step ys)"
proof (induction xs arbitrary: b)
  case (Cons x xs)
  then show ?case by (cases "step b x") simp_all
qed simp

lemma stream_ok_append:
  "stream_ok ok (xs @ ys) os \<longleftrightarrow> stream_ok ok xs os \<and> stream_ok ok ys (spec_run xs os)"
  by (induction xs arbitrary: os) (auto simp: spec_run_def)

lemma spec_run_simps [simp]:
  "spec_run [] os = os"
  "spec_run (msg # msgs) os = spec_run msgs (spec_message msg os)"
  by (simp_all add: spec_run_def)

lemma spec_run_append: "spec_run (xs @ ys) os = spec_run ys (spec_run xs os)"
  by (simp add: spec_run_def)

section \<open>The contract of a book\<close>

locale book =
  fixes step :: "'b \<Rightarrow> market_message \<Rightarrow> 'b cpp"
    and bid :: "'b \<Rightarrow> price_level option"
    and ask :: "'b \<Rightarrow> price_level option"
    and orders :: "'b \<Rightarrow> u64"
    and buy_levels :: "'b \<Rightarrow> u32"
    and sell_levels :: "'b \<Rightarrow> u32"
    and rel :: "'b \<Rightarrow> order list \<Rightarrow> bool"
    and ok :: "order list \<Rightarrow> market_message \<Rightarrow> bool"
  assumes step_ok: "rel b os \<Longrightarrow> ok os msg \<Longrightarrow>
      \<exists>b'. step b msg = Inr b' \<and> rel b' (spec_message msg os)"
    and bid_best: "rel b os \<Longrightarrow> bid b = spec_best Buy os"
    and ask_best: "rel b os \<Longrightarrow> ask b = spec_best Sell os"
    and orders_count: "rel b os \<Longrightarrow> orders b = of_nat (length os)"
    and buy_count: "rel b os \<Longrightarrow> buy_levels b = of_nat (card (prices_of Buy os))"
    and sell_count: "rel b os \<Longrightarrow> sell_levels b = of_nat (card (prices_of Sell os))"
begin

lemma feed_ok:
  "rel b os \<Longrightarrow> stream_ok ok msgs os \<Longrightarrow>
   \<exists>b'. feed step msgs b = Inr b' \<and> rel b' (spec_run msgs os)"
proof (induction msgs arbitrary: b os)
  case (Cons msg msgs)
  then obtain b' where "step b msg = Inr b'" "rel b' (spec_message msg os)"
    using step_ok by fastforce
  with Cons show ?case by simp
qed simp

end

text \<open>Two books that refine the same specification cannot be told apart by a client.\<close>

locale book_pair =
  one: book step1 bid1 ask1 orders1 buy1 sell1 rel1 ok1 +
  two: book step2 bid2 ask2 orders2 buy2 sell2 rel2 ok2
  for step1 :: "'a \<Rightarrow> market_message \<Rightarrow> 'a cpp" and bid1 ask1 orders1 buy1 sell1 rel1 ok1
    and step2 :: "'b \<Rightarrow> market_message \<Rightarrow> 'b cpp" and bid2 ask2 orders2 buy2 sell2 rel2 ok2
begin

lemma same_view:
  assumes "rel1 a os" and "rel2 b os" and "stream_ok ok1 msgs os" and "stream_ok ok2 msgs os"
  obtains a' b' where "feed step1 msgs a = Inr a'" and "feed step2 msgs b = Inr b'"
    and "bid1 a' = bid2 b'" and "ask1 a' = ask2 b'" and "orders1 a' = orders2 b'"
    and "buy1 a' = buy2 b'" and "sell1 a' = sell2 b'"
proof -
  obtain a' b' where r: "feed step1 msgs a = Inr a'" "rel1 a' (spec_run msgs os)"
      "feed step2 msgs b = Inr b'" "rel2 b' (spec_run msgs os)"
    using one.feed_ok [OF assms(1,3)] two.feed_ok [OF assms(2,4)] by blast
  show thesis
    by (rule that [OF r(1,3)])
       (simp_all add: one.bid_best [OF r(2)] two.bid_best [OF r(4)] one.ask_best [OF r(2)]
         two.ask_best [OF r(4)] one.orders_count [OF r(2)] two.orders_count [OF r(4)]
         one.buy_count [OF r(2)] two.buy_count [OF r(4)] one.sell_count [OF r(2)]
         two.sell_count [OF r(4)])
qed

end

section \<open>Streams with bounded ids and quantities\<close>

text \<open>
  When the order ids come from a finite set and the quantities are bounded, every level stays
  within their product: the condition under which neither book can overflow or run out of slots.
\<close>

definition bounded_message :: "u64 set \<Rightarrow> nat \<Rightarrow> market_message \<Rightarrow> bool" where
  "bounded_message I Q msg \<longleftrightarrow> msg_order_id msg \<in> I \<and> unat (msg_quantity msg) \<le> Q"

definition bounded_book :: "u64 set \<Rightarrow> nat \<Rightarrow> order list \<Rightarrow> bool" where
  "bounded_book I Q os \<longleftrightarrow> ids_distinct os \<and> ord_order_id ` set os \<subseteq> I \<and>
     (\<forall>r \<in> set os. unat (ord_quantity r) \<le> Q)"

lemma bounded_book_Nil [simp]: "bounded_book I Q []"
  by (simp add: bounded_book_def)

lemma bounded_book_upd: "bounded_book I Q os \<Longrightarrow> unat q \<le> Q \<Longrightarrow> bounded_book I Q (upd_order i q os)"
  by (auto simp: bounded_book_def upd_order_def ids_distinct_def o_def if_distrib cong: if_cong)

lemma bounded_book_del: "bounded_book I Q os \<Longrightarrow> bounded_book I Q (del_order i os)"
  by (auto simp: bounded_book_def del_order_def ids_distinct_def distinct_map_filter)

lemma bounded_book_step:
  assumes "bounded_book I Q os" and "bounded_message I Q msg"
  shows "bounded_book I Q (spec_message msg os)"
proof -
  have less: "unat (ord_quantity r - msg_quantity msg) \<le> Q"
    if "spec_find i os = Some r" "\<not> ord_quantity r \<le> msg_quantity msg" for i r
  proof -
    have "unat (ord_quantity r - msg_quantity msg) = unat (ord_quantity r) - unat (msg_quantity msg)"
      using that(2) by (simp add: unat_sub_if_size word_le_nat_alt)
    also have "\<dots> \<le> Q"
      using assms(1) spec_find_SomeD [OF that(1)] by (auto simp: bounded_book_def intro: le_trans)
    finally show ?thesis .
  qed
  have add: "bounded_book I Q (os @ [new_order msg])" if "spec_find (msg_order_id msg) os = None"
    using assms that ids_distinct_add [of os "new_order msg"]
    by (auto simp: bounded_book_def bounded_message_def)
  show ?thesis
    using assms less add bounded_book_upd [OF assms(1)] bounded_book_del [OF assms(1)]
    by (auto simp: spec_message_def bounded_message_def split: message_type.split option.split)
qed

lemma bounded_book_run:
  "\<forall>msg \<in> set msgs. bounded_message I Q msg \<Longrightarrow> bounded_book I Q os \<Longrightarrow>
   bounded_book I Q (spec_run msgs os)"
  by (induction msgs arbitrary: os) (simp_all add: bounded_book_step)

lemma bounded_book_length:
  assumes "bounded_book I Q os" and "finite I"
  shows "length os \<le> card I"
proof -
  have "length os = card (ord_order_id ` set os)"
    using assms(1) distinct_card [of "map ord_order_id os"]
    by (simp add: bounded_book_def ids_distinct_def)
  also have "\<dots> \<le> card I" using assms by (intro card_mono) (auto simp: bounded_book_def)
  finally show ?thesis .
qed

lemma bounded_book_shallow:
  assumes "bounded_book I Q os" and "finite I" and "card I * Q < 2 ^ 31"
  shows "shallow os"
  unfolding shallow_def
proof (intro allI)
  fix s p
  have "depth s p os \<le> length os * Q"
    by (rule depth_le) (use assms(1) in \<open>auto simp: bounded_book_def\<close>)
  also have "\<dots> \<le> card I * Q" using bounded_book_length [OF assms(1,2)] by simp
  finally show "depth s p os < 2 ^ 31" using assms(3) by simp
qed

lemma bounded_stream:
  assumes "\<forall>msg \<in> set msgs. bounded_message I Q msg" and "bounded_book I Q os"
    and "\<And>os msg. bounded_book I Q os \<Longrightarrow> bounded_message I Q msg \<Longrightarrow> ok os msg"
  shows "stream_ok ok msgs os"
  using assms(1,2) by (induction msgs arbitrary: os) (auto simp: assms(3) bounded_book_step)

lemma bounded_fresh:
  assumes "bounded_book I Q os" and "finite I" and "i \<in> I" and "spec_find i os = None"
  shows "length os < card I"
proof -
  have "length os = card (ord_order_id ` set os)"
    using assms(1) distinct_card [of "map ord_order_id os"]
    by (simp add: bounded_book_def ids_distinct_def)
  also have "\<dots> < card I"
    using assms by (intro psubset_card_mono) (auto simp: bounded_book_def spec_find_None_iff)
  finally show ?thesis .
qed

end
