(* ===== verification/Containers.thy ===== *)
theory Containers
  imports Prelude
begin

text \<open>
  The standard containers the order books use, as association lists with the operations the
  sources call. \<open>std::unordered_map\<close> is a list of entries with distinct keys, whose order
  nothing observes (the sources never iterate over it). \<open>std::map\<close> is a list of entries
  sorted by its \<open>Compare\<close>; the locale \<open>comparator\<close> is the requirement the standard puts
  on \<open>Compare\<close>, and it is interpreted on the two comparators the books use, \<open>std::less\<close>
  and \<open>std::greater\<close> on \<open>std::int64_t\<close>.
\<close>

section \<open>Entries, lookup and writes through an iterator\<close>

type_synonym ('k, 'v) entries = "('k \<times> 'v) list"

definition keys_distinct :: "('k, 'v) entries \<Rightarrow> bool" where
  "keys_distinct m \<longleftrightarrow> distinct (map fst m)"

text \<open>\<open>m.find(k)\<close>: \<open>None\<close> is \<open>m.end()\<close>.\<close>

definition entry_find :: "('k, 'v) entries \<Rightarrow> 'k \<Rightarrow> 'v option" where
  "entry_find m k = map_of m k"

text \<open>A write to \<open>it->second\<close> for the iterator \<open>it\<close> at key \<open>k\<close>.\<close>

definition entry_write :: "'k \<Rightarrow> 'v \<Rightarrow> ('k, 'v) entries \<Rightarrow> ('k, 'v) entries" where
  "entry_write k v m = map (\<lambda>e. if fst e = k then (k, v) else e) m"

text \<open>\<open>m.erase(it)\<close> for the iterator \<open>it\<close> at key \<open>k\<close>.\<close>

definition entry_erase :: "'k \<Rightarrow> ('k, 'v) entries \<Rightarrow> ('k, 'v) entries" where
  "entry_erase k m = filter (\<lambda>e. fst e \<noteq> k) m"

text \<open>\<open>emplace\<close> of an unordered map: it does nothing when the key is present.\<close>

definition umap_emplace :: "'k \<Rightarrow> 'v \<Rightarrow> ('k, 'v) entries \<Rightarrow> ('k, 'v) entries" where
  "umap_emplace k v m = (case entry_find m k of None \<Rightarrow> (k, v) # m | Some _ \<Rightarrow> m)"

text \<open>\<open>emplace\<close> of an ordered map with comparator \<open>lt\<close>.\<close>

fun omap_emplace :: "('k \<Rightarrow> 'k \<Rightarrow> bool) \<Rightarrow> 'k \<Rightarrow> 'v \<Rightarrow> ('k, 'v) entries \<Rightarrow> ('k, 'v) entries" where
  "omap_emplace lt k v [] = [(k, v)]"
| "omap_emplace lt k v (e # m) =
     (if lt k (fst e) then (k, v) # e # m
      else if k = fst e then e # m
      else e # omap_emplace lt k v m)"

text \<open>\<open>m.begin()\<close>: the entry of the first key, absent when \<open>m.empty()\<close>.\<close>

definition omap_begin :: "('k, 'v) entries \<Rightarrow> ('k \<times> 'v) option" where
  "omap_begin m = (case m of [] \<Rightarrow> None | e # _ \<Rightarrow> Some e)"

definition omap_sorted :: "('k \<Rightarrow> 'k \<Rightarrow> bool) \<Rightarrow> ('k, 'v) entries \<Rightarrow> bool" where
  "omap_sorted lt m \<longleftrightarrow> sorted_wrt lt (map fst m)"

section \<open>Laws of the writes\<close>

lemma fst_entry_write [simp]: "map fst (entry_write k v m) = map fst m"
  by (induction m) (auto simp: entry_write_def)

lemma length_entry_write [simp]: "length (entry_write k v m) = length m"
  by (simp add: entry_write_def)

lemma fst_entry_erase: "map fst (entry_erase k m) = filter (\<lambda>x. x \<noteq> k) (map fst m)"
  by (induction m) (auto simp: entry_erase_def)

lemma entry_find_write_at:
  "entry_find (entry_write k v m) x =
     (if x = k \<and> entry_find m k \<noteq> None then Some v else entry_find m x)"
  by (induction m) (auto simp: entry_find_def entry_write_def)

lemma entry_find_write:
  "entry_find m k \<noteq> None \<Longrightarrow> entry_find (entry_write k v m) = (entry_find m)(k \<mapsto> v)"
  by (auto simp: entry_find_write_at)

lemma entry_find_erase: "entry_find (entry_erase k m) = (entry_find m)(k := None)"
  by (induction m) (auto simp: entry_find_def entry_erase_def fun_eq_iff)

lemma entry_find_emplace:
  "entry_find m k = None \<Longrightarrow> entry_find (umap_emplace k v m) = (entry_find m)(k \<mapsto> v)"
  by (auto simp: entry_find_def umap_emplace_def fun_eq_iff)

lemma entry_find_Nil [simp]: "entry_find [] = Map.empty"
  by (simp add: entry_find_def fun_eq_iff)

lemma keys_distinct_Nil [simp]: "keys_distinct []"
  by (simp add: keys_distinct_def)

lemma keys_distinct_write [simp]: "keys_distinct (entry_write k v m) = keys_distinct m"
  by (simp add: keys_distinct_def)

lemma keys_distinct_erase: "keys_distinct m \<Longrightarrow> keys_distinct (entry_erase k m)"
  by (simp add: keys_distinct_def fst_entry_erase)

lemma keys_distinct_emplace: "keys_distinct m \<Longrightarrow> keys_distinct (umap_emplace k v m)"
  by (auto simp: keys_distinct_def umap_emplace_def entry_find_def map_of_eq_None_iff
      split: option.splits)

lemma dom_entry_find: "dom (entry_find m) = fst ` set m"
  unfolding entry_find_def by (rule dom_map_of_conv_image_fst)

lemma size_entries: "keys_distinct m \<Longrightarrow> length m = card (dom (entry_find m))"
  by (metis dom_entry_find distinct_card keys_distinct_def length_map list.set_map)

section \<open>Ordered maps\<close>

text \<open>
  What \<open>std::map\<close> requires of its comparator (here with equivalence being equality, as it is
  for integers) and what its operations promise under that requirement.
\<close>

locale comparator =
  fixes lt :: "'k \<Rightarrow> 'k \<Rightarrow> bool"
  assumes irrefl: "\<not> lt a a"
    and trans: "lt a b \<Longrightarrow> lt b c \<Longrightarrow> lt a c"
    and total: "lt a b \<or> a = b \<or> lt b a"
begin

lemma asym: "lt a b \<Longrightarrow> \<not> lt b a"
  using irrefl trans by blast

lemma set_emplace: "fst ` set (omap_emplace lt k v m) = insert k (fst ` set m)"
  by (induction m) auto

lemma find_omap_emplace:
  "entry_find m k = None \<Longrightarrow> entry_find (omap_emplace lt k v m) = (entry_find m)(k \<mapsto> v)"
  by (induction m) (auto simp: entry_find_def fun_eq_iff split: if_splits)

lemma sorted_Cons:
  "omap_sorted lt (e # m) \<longleftrightarrow> (\<forall>k \<in> fst ` set m. lt (fst e) k) \<and> omap_sorted lt m"
  by (auto simp: omap_sorted_def)

lemma sorted_Nil: "omap_sorted lt []"
  by (simp add: omap_sorted_def)

lemma sorted_write: "omap_sorted lt (entry_write k v m) = omap_sorted lt m"
  by (simp add: omap_sorted_def)

lemma sorted_erase: "omap_sorted lt m \<Longrightarrow> omap_sorted lt (entry_erase k m)"
  by (simp add: omap_sorted_def fst_entry_erase sorted_wrt_filter)

lemma sorted_omap_emplace: "omap_sorted lt m \<Longrightarrow> omap_sorted lt (omap_emplace lt k v m)"
proof (induction m)
  case Nil
  then show ?case by (simp add: omap_sorted_def)
next
  case (Cons e m)
  have "lt (fst e) k" if "\<not> lt k (fst e)" and "k \<noteq> fst e"
    using total that by blast
  with Cons show ?case by (auto simp: sorted_Cons set_emplace intro: trans)
qed

lemma sorted_keys_distinct: "omap_sorted lt m \<Longrightarrow> keys_distinct m"
  by (induction m) (auto simp: sorted_Cons keys_distinct_def irrefl dest: asym)

lemma begin_first:
  assumes "omap_sorted lt m" and "omap_begin m = Some (k, v)"
  shows "entry_find m k = Some v" and "entry_find m k' \<noteq> None \<Longrightarrow> k' = k \<or> lt k k'"
proof -
  from assms(2) obtain m' where m: "m = (k, v) # m'"
    by (auto simp: omap_begin_def split: list.splits)
  then show "entry_find m k = Some v" by (simp add: entry_find_def)
  assume "entry_find m k' \<noteq> None"
  then have "k' \<in> fst ` set m" by (simp add: entry_find_def map_of_eq_None_iff)
  then show "k' = k \<or> lt k k'" using assms(1) by (auto simp: m sorted_Cons)
qed

lemma begin_None_iff: "omap_begin m = None \<longleftrightarrow> entry_find m = Map.empty"
  by (cases m) (auto simp: omap_begin_def entry_find_def fun_eq_iff)

text \<open>A sorted map is determined by its lookups.\<close>

lemma sorted_find_ext:
  "omap_sorted lt m \<Longrightarrow> omap_sorted lt m' \<Longrightarrow> entry_find m = entry_find m' \<Longrightarrow> m = m'"
proof (induction m arbitrary: m')
  case Nil
  then show ?case by (cases m') (auto simp: entry_find_def fun_eq_iff split: if_splits)
next
  case (Cons e m)
  have "omap_begin m' \<noteq> None"
    using Cons.prems(3) begin_None_iff [of m'] begin_None_iff [of "e # m"]
    by (simp add: omap_begin_def)
  then obtain e' m'' where m': "m' = e' # m''"
    by (auto simp: omap_begin_def split: list.splits)
  have b: "omap_begin (e # m) = Some (fst e, snd e)" "omap_begin m' = Some (fst e', snd e')"
    by (simp_all add: omap_begin_def m')
  note f = begin_first [OF Cons.prems(1) b(1)] begin_first [OF Cons.prems(2) b(2)]
  have k: "fst e = fst e'"
    using f(1,3) f(2) [of "fst e'"] f(4) [of "fst e"] Cons.prems(3) asym by auto
  then have e: "e = e'" using f(1,3) Cons.prems(3) by (simp add: prod_eq_iff)
  have "entry_find m = entry_find m''"
  proof
    fix x
    show "entry_find m x = entry_find m'' x"
    proof (cases "x = fst e")
      case True
      have "fst e \<notin> fst ` set m" "fst e \<notin> fst ` set m''"
        using Cons.prems(1,2) irrefl by (auto simp: m' sorted_Cons e)
      then show ?thesis
        using True by (simp add: entry_find_def map_of_eq_None_iff [THEN iffD2])
    next
      case False
      have "entry_find (e # m) x = entry_find (e # m'') x"
        using Cons.prems(3) by (simp only: m' e)
      with False show ?thesis by (simp add: entry_find_def)
    qed
  qed
  with Cons.IH [of m''] Cons.prems(1,2) show ?case by (simp add: m' sorted_Cons e)
qed

end

text \<open>
  \<open>std::less<std::int64_t>\<close> orders the asks, \<open>std::greater<std::int64_t>\<close> the bids.
\<close>

definition cmp_less :: "int64 \<Rightarrow> int64 \<Rightarrow> bool" where
  "cmp_less a b \<longleftrightarrow> a < b"

definition cmp_greater :: "int64 \<Rightarrow> int64 \<Rightarrow> bool" where
  "cmp_greater a b \<longleftrightarrow> b < a"

interpretation asc: comparator cmp_less
  by unfold_locales (auto simp: cmp_less_def)

interpretation desc: comparator cmp_greater
  by unfold_locales (auto simp: cmp_greater_def)

end
