(* ===== verification/Order_Book.thy ===== *)
theory Order_Book
  imports Book_Client Containers
begin

text \<open>
  The baseline book of \<open>include/latency_lab/order_book.hpp\<close> and \<open>src/order_book.cpp\<close>: two
  \<open>std::map\<close>s of price levels, one per side, and an \<open>std::unordered_map\<close> of orders. Each
  handler is a definition; the generic lambda inside a handler is a definition over the side map
  it is applied to. \<open>handle_modify\<close> computes in \<open>std::int32_t\<close>, so it may be undefined
  behaviour; the other handlers cannot be. The locale \<open>side_book\<close> proves once, for either side
  map, that each lambda keeps the map in step with the specification.
\<close>

section \<open>State and operations\<close>

type_synonym side_map = "(int64, price_level) entries"

type_synonym order_entries = "(u64, order) entries"

record order_book =
  bids :: side_map
  asks :: side_map
  order_map :: order_entries

definition empty_book :: order_book where
  "empty_book = \<lparr>bids = [], asks = [], order_map = []\<rparr>"

definition aggregate_quantity :: "price_level \<Rightarrow> u32" where
  "aggregate_quantity lvl = lvl_total_quantity lvl"

subsection \<open>Add\<close>

definition add_to_level ::
  "(int64 \<Rightarrow> int64 \<Rightarrow> bool) \<Rightarrow> market_message \<Rightarrow> side_map \<Rightarrow> side_map" where
  "add_to_level lt msg side_map =
     (case entry_find side_map (msg_price msg) of
        Some lvl \<Rightarrow>
          entry_write (msg_price msg)
            (lvl\<lparr>lvl_order_ids := lvl_order_ids lvl @ [msg_order_id msg],
                 lvl_total_quantity := lvl_total_quantity lvl + msg_quantity msg\<rparr>) side_map
      | None \<Rightarrow>
          omap_emplace lt (msg_price msg)
            \<lparr>lvl_price = msg_price msg, lvl_order_ids = [msg_order_id msg],
             lvl_total_quantity = msg_quantity msg\<rparr> side_map)"

definition handle_add :: "order_book \<Rightarrow> market_message \<Rightarrow> order_book" where
  "handle_add b msg =
     (case entry_find (order_map b) (msg_order_id msg) of
        Some _ \<Rightarrow> b
      | None \<Rightarrow>
          (let b1 = b\<lparr>order_map := umap_emplace (msg_order_id msg)
                         \<lparr>ord_order_id = msg_order_id msg, ord_price = msg_price msg,
                          ord_quantity = msg_quantity msg, ord_side = msg_side msg\<rparr>
                         (order_map b)\<rparr>
           in if msg_side msg = Buy
              then b1\<lparr>bids := add_to_level cmp_greater msg (bids b1)\<rparr>
              else b1\<lparr>asks := add_to_level cmp_less msg (asks b1)\<rparr>))"

subsection \<open>Modify\<close>

text \<open>
  \<open>order\<close> is a reference into the order map: the write to \<open>order.quantity\<close> is a write at
  \<open>order_it\<close>. The casts to \<open>std::int32_t\<close> keep the bits; the subtraction and the
  addition are signed.
\<close>

definition modify_level ::
  "market_message \<Rightarrow> order \<Rightarrow> order_entries \<Rightarrow> side_map \<Rightarrow> (side_map \<times> order_entries) cpp" where
  "modify_level msg order om side_map =
     (case entry_find side_map (ord_price order) of
        None \<Rightarrow> Inr (side_map, om)
      | Some lvl \<Rightarrow>
          cpp_bind (i32_sub (msg_quantity msg) (ord_quantity order)) (\<lambda>qty_delta.
          cpp_bind (i32_add (lvl_total_quantity lvl) qty_delta) (\<lambda>total.
          Inr (entry_write (ord_price order) (lvl\<lparr>lvl_total_quantity := total\<rparr>) side_map,
               entry_write (msg_order_id msg) (order\<lparr>ord_quantity := msg_quantity msg\<rparr>) om))))"

definition handle_modify :: "order_book \<Rightarrow> market_message \<Rightarrow> order_book cpp" where
  "handle_modify b msg =
     (case entry_find (order_map b) (msg_order_id msg) of
        None \<Rightarrow> Inr b
      | Some order \<Rightarrow>
          if ord_side order = Buy
          then cpp_map (\<lambda>(m, om). b\<lparr>bids := m, order_map := om\<rparr>)
                 (modify_level msg order (order_map b) (bids b))
          else cpp_map (\<lambda>(m, om). b\<lparr>asks := m, order_map := om\<rparr>)
                 (modify_level msg order (order_map b) (asks b)))"

subsection \<open>Cancel\<close>

definition cancel_level ::
  "market_message \<Rightarrow> order \<Rightarrow> order_entries \<Rightarrow> side_map \<Rightarrow> side_map \<times> order_entries" where
  "cancel_level msg order om side_map =
     (let side_map' =
        (case entry_find side_map (ord_price order) of
           None \<Rightarrow> side_map
         | Some lvl \<Rightarrow>
             (let order_ids = remove1 (msg_order_id msg) (lvl_order_ids lvl);
                  m = entry_write (ord_price order)
                        (lvl\<lparr>lvl_order_ids := order_ids,
                             lvl_total_quantity := lvl_total_quantity lvl - ord_quantity order\<rparr>)
                        side_map
              in if order_ids = [] then entry_erase (ord_price order) m else m))
      in (side_map', entry_erase (msg_order_id msg) om))"

definition handle_cancel :: "order_book \<Rightarrow> market_message \<Rightarrow> order_book" where
  "handle_cancel b msg =
     (case entry_find (order_map b) (msg_order_id msg) of
        None \<Rightarrow> b
      | Some order \<Rightarrow>
          if ord_side order = Buy
          then (let (m, om) = cancel_level msg order (order_map b) (bids b)
                in b\<lparr>bids := m, order_map := om\<rparr>)
          else (let (m, om) = cancel_level msg order (order_map b) (asks b)
                in b\<lparr>asks := m, order_map := om\<rparr>))"

subsection \<open>Trade\<close>

definition trade_level ::
  "market_message \<Rightarrow> order \<Rightarrow> order_entries \<Rightarrow> side_map \<Rightarrow> side_map \<times> order_entries" where
  "trade_level msg order om side_map =
     (case entry_find side_map (ord_price order) of
        None \<Rightarrow> (side_map, om)
      | Some lvl \<Rightarrow>
          (let trade_qty = min (msg_quantity msg) (ord_quantity order);
               lvl1 = lvl\<lparr>lvl_total_quantity := lvl_total_quantity lvl - trade_qty\<rparr>;
               order1 = order\<lparr>ord_quantity := ord_quantity order - trade_qty\<rparr>;
               om1 = entry_write (msg_order_id msg) order1 om
           in if ord_quantity order1 = 0
              then (let order_ids = remove1 (msg_order_id msg) (lvl_order_ids lvl1);
                        m = entry_write (ord_price order) (lvl1\<lparr>lvl_order_ids := order_ids\<rparr>) side_map
                    in (if order_ids = [] then entry_erase (ord_price order) m else m,
                        entry_erase (msg_order_id msg) om1))
              else (entry_write (ord_price order) lvl1 side_map, om1)))"

definition handle_trade :: "order_book \<Rightarrow> market_message \<Rightarrow> order_book" where
  "handle_trade b msg =
     (case entry_find (order_map b) (msg_order_id msg) of
        None \<Rightarrow> b
      | Some order \<Rightarrow>
          if ord_side order = Buy
          then (let (m, om) = trade_level msg order (order_map b) (bids b)
                in b\<lparr>bids := m, order_map := om\<rparr>)
          else (let (m, om) = trade_level msg order (order_map b) (asks b)
                in b\<lparr>asks := m, order_map := om\<rparr>))"

subsection \<open>Dispatch and queries\<close>

definition on_message :: "order_book \<Rightarrow> market_message \<Rightarrow> order_book cpp" where
  "on_message b msg =
     (case msg_type msg of
        Add \<Rightarrow> Inr (handle_add b msg)
      | Modify \<Rightarrow> handle_modify b msg
      | Cancel \<Rightarrow> Inr (handle_cancel b msg)
      | Trade \<Rightarrow> Inr (handle_trade b msg))"

definition best_bid :: "order_book \<Rightarrow> price_level option" where
  "best_bid b = map_option snd (omap_begin (bids b))"

definition best_ask :: "order_book \<Rightarrow> price_level option" where
  "best_ask b = map_option snd (omap_begin (asks b))"

definition total_orders :: "order_book \<Rightarrow> u64" where
  "total_orders b = of_nat (length (order_map b))"

definition buy_side_levels :: "order_book \<Rightarrow> u32" where
  "buy_side_levels b = of_nat (length (bids b))"

definition sell_side_levels :: "order_book \<Rightarrow> u32" where
  "sell_side_levels b = of_nat (length (asks b))"

section \<open>A side map and the orders of its side\<close>

definition side_rel ::
  "(int64 \<Rightarrow> int64 \<Rightarrow> bool) \<Rightarrow> side \<Rightarrow> side_map \<Rightarrow> order list \<Rightarrow> bool" where
  "side_rel lt s m os \<longleftrightarrow> omap_sorted lt m \<and> entry_find m = (\<lambda>p. level_of s p os)"

locale side_book = comparator lt for lt :: "int64 \<Rightarrow> int64 \<Rightarrow> bool" +
  fixes s :: side
  assumes best_of_side:
    "finite P \<Longrightarrow> k \<in> P \<Longrightarrow> (\<And>p. p \<in> P \<Longrightarrow> p = k \<or> lt k p) \<Longrightarrow>
     k = (case s of Buy \<Rightarrow> Max P | Sell \<Rightarrow> Min P)"
begin

lemma rel_Nil: "side_rel lt s [] []"
  by (simp add: side_rel_def sorted_Nil fun_eq_iff)

lemma rel_sorted: "side_rel lt s m os \<Longrightarrow> omap_sorted lt m"
  by (simp add: side_rel_def)

lemma rel_find: "side_rel lt s m os \<Longrightarrow> entry_find m p = level_of s p os"
  by (simp add: side_rel_def)

lemma rel_add:
  "side_rel lt s m os \<Longrightarrow> msg_side msg = s \<Longrightarrow>
   side_rel lt s (add_to_level lt msg m) (os @ [new_order msg])"
  by (auto simp: side_rel_def add_to_level_def level_of_add fun_eq_iff entry_find_write
      find_omap_emplace sorted_write sorted_omap_emplace split: option.split)

lemma rel_add_other:
  "side_rel lt s m os \<Longrightarrow> ord_side r \<noteq> s \<Longrightarrow> side_rel lt s m (os @ [r])"
  by (simp add: side_rel_def level_of_add)

lemma rel_upd:
  assumes "side_rel lt s m os" and "ids_distinct os" and "spec_find i os = Some r"
    and "ord_side r = s" and "entry_find m (ord_price r) = Some lvl"
  shows "side_rel lt s
     (entry_write (ord_price r)
        (lvl\<lparr>lvl_total_quantity := lvl_total_quantity lvl + (q - ord_quantity r)\<rparr>) m)
     (upd_order i q os)"
  using assms by (auto simp: side_rel_def sorted_write fun_eq_iff entry_find_write level_of_upd)

lemma rel_upd_other:
  "side_rel lt s m os \<Longrightarrow> ids_distinct os \<Longrightarrow> spec_find i os = Some r \<Longrightarrow> ord_side r \<noteq> s \<Longrightarrow>
   side_rel lt s m (upd_order i q os)"
  by (simp add: side_rel_def level_of_upd)

lemma rel_del:
  fixes r :: order
  assumes "side_rel lt s m os" and "ids_distinct os" and "spec_find i os = Some r"
    and "ord_side r = s" and "entry_find m (ord_price r) = Some lvl"
  defines "m' \<equiv> entry_write (ord_price r)
      (lvl\<lparr>lvl_order_ids := remove1 i (lvl_order_ids lvl),
           lvl_total_quantity := lvl_total_quantity lvl - ord_quantity r\<rparr>) m"
  shows "side_rel lt s
     (if remove1 i (lvl_order_ids lvl) = [] then entry_erase (ord_price r) m' else m')
     (del_order i os)"
  using assms
  by (auto simp: side_rel_def sorted_write sorted_erase fun_eq_iff entry_find_write
      entry_find_erase level_of_del)

lemma rel_del_other:
  "side_rel lt s m os \<Longrightarrow> ids_distinct os \<Longrightarrow> spec_find i os = Some r \<Longrightarrow> ord_side r \<noteq> s \<Longrightarrow>
   side_rel lt s m (del_order i os)"
  by (simp add: side_rel_def level_of_del)

lemma rel_level:
  assumes "side_rel lt s m os" and "spec_find i os = Some r" and "ord_side r = s"
  obtains lvl where "entry_find m (ord_price r) = Some lvl"
    and "level_of s (ord_price r) os = Some lvl"
  using assms level_of_present spec_find_SomeD by (metis rel_find)

lemma rel_begin:
  assumes "side_rel lt s m os"
  shows "map_option snd (omap_begin m) = spec_best s os"
proof (cases "omap_begin m")
  case None
  then have "entry_find m = Map.empty" by (simp add: begin_None_iff)
  then have "prices_of s os = {}"
    using assms level_of_None_iff [of s _ os] by (auto simp: side_rel_def fun_eq_iff)
  with None show ?thesis by (simp add: spec_best_def)
next
  case (Some e)
  obtain k v where e: "e = (k, v)" by force
  note f = begin_first [OF rel_sorted [OF assms] Some [unfolded e]]
  have k: "k \<in> prices_of s os"
    using f(1) assms level_of_None_iff [of s k os] by (auto simp: side_rel_def)
  have "p = k \<or> lt k p" if "p \<in> prices_of s os" for p
    using f(2) [of p] that level_of_None_iff [of s p os] by (simp add: rel_find [OF assms])
  then have "k = (case s of Buy \<Rightarrow> Max (prices_of s os) | Sell \<Rightarrow> Min (prices_of s os))"
    using k by (intro best_of_side) (auto simp: prices_of_def)
  then show ?thesis
    using f(1) k Some by (auto simp: spec_best_def e rel_find [OF assms])
qed

lemma rel_length:
  assumes "side_rel lt s m os"
  shows "length m = card (prices_of s os)"
proof -
  have "dom (entry_find m) = prices_of s os"
    using level_of_None_iff [of s _ os] by (auto simp: rel_find [OF assms] dom_def)
  with size_entries [OF sorted_keys_distinct [OF rel_sorted [OF assms]]] show ?thesis by simp
qed

lemma rel_unique: "side_rel lt s m os \<Longrightarrow> side_rel lt s m' os \<Longrightarrow> m = m'"
  by (auto simp: side_rel_def intro: sorted_find_ext)

end

interpretation bid_side: side_book cmp_greater Buy
  by unfold_locales (force simp: cmp_greater_def intro!: Max_eqI [symmetric])

interpretation ask_side: side_book cmp_less Sell
  by unfold_locales (force simp: cmp_less_def intro!: Min_eqI [symmetric])

section \<open>The handlers refine the specification\<close>

definition orders_rel :: "order_entries \<Rightarrow> order list \<Rightarrow> bool" where
  "orders_rel om os \<longleftrightarrow> ids_distinct os \<and> keys_distinct om \<and> entry_find om = (\<lambda>i. spec_find i os)"

definition book_rel :: "order_book \<Rightarrow> order list \<Rightarrow> bool" where
  "book_rel b os \<longleftrightarrow> orders_rel (order_map b) os \<and>
     side_rel cmp_greater Buy (bids b) os \<and> side_rel cmp_less Sell (asks b) os"

lemma orders_rel_find: "orders_rel om os \<Longrightarrow> entry_find om i = spec_find i os"
  by (simp add: orders_rel_def)

lemma orders_rel_distinct: "orders_rel om os \<Longrightarrow> ids_distinct os"
  by (simp add: orders_rel_def)

lemma orders_rel_add:
  "orders_rel om os \<Longrightarrow> spec_find (ord_order_id r) os = None \<Longrightarrow>
   orders_rel (umap_emplace (ord_order_id r) r om) (os @ [r])"
  by (auto simp: orders_rel_def keys_distinct_emplace entry_find_emplace fun_eq_iff
      spec_find_append split: option.split)

lemma orders_rel_upd:
  "orders_rel om os \<Longrightarrow> spec_find i os = Some r \<Longrightarrow>
   orders_rel (entry_write i (r\<lparr>ord_quantity := q\<rparr>) om) (upd_order i q os)"
  by (auto simp: orders_rel_def entry_find_write fun_eq_iff spec_find_upd)

lemma orders_rel_del: "orders_rel om os \<Longrightarrow> orders_rel (entry_erase i om) (del_order i os)"
  by (auto simp: orders_rel_def keys_distinct_erase entry_find_erase fun_eq_iff spec_find_del)

lemma orders_rel_length: "orders_rel om os \<Longrightarrow> length om = length os"
proof -
  assume r: "orders_rel om os"
  then have "length om = card (ord_order_id ` set os)"
    by (simp add: orders_rel_def size_entries dom_spec_find)
  also have "\<dots> = length os"
    using orders_rel_distinct [OF r] distinct_card [of "map ord_order_id os"]
    by (simp add: ids_distinct_def)
  finally show ?thesis .
qed

lemma entry_erase_write: "entry_erase k (entry_write k v m) = entry_erase k m"
  by (induction m) (auto simp: entry_erase_def entry_write_def)

lemma lvl_update_commute:
  "lvl\<lparr>lvl_total_quantity := t, lvl_order_ids := ids\<rparr> =
   (lvl\<lparr>lvl_order_ids := ids, lvl_total_quantity := t\<rparr> :: price_level)"
  by (cases lvl) simp

lemma min_fill: "(q :: u32) - min t q = (if q \<le> t then 0 else q - t)"
  by (auto simp: min_def)

context side_book
begin

lemma modify_level_rel:
  assumes rel: "side_rel lt s m os" "orders_rel om os"
    and r: "spec_find (msg_order_id msg) os = Some r" "ord_side r = s"
    and step: "modify_level msg r om m = Inr (m', om')"
  shows "side_rel lt s m' (upd_order (msg_order_id msg) (msg_quantity msg) os)"
    and "orders_rel om' (upd_order (msg_order_id msg) (msg_quantity msg) os)"
proof -
  obtain lvl where lvl: "entry_find m (ord_price r) = Some lvl"
    using rel(1) r by (rule rel_level)
  from step have m': "m' = entry_write (ord_price r) (lvl\<lparr>lvl_total_quantity :=
        lvl_total_quantity lvl + (msg_quantity msg - ord_quantity r)\<rparr>) m"
    and om': "om' = entry_write (msg_order_id msg) (r\<lparr>ord_quantity := msg_quantity msg\<rparr>) om"
    by (auto simp: modify_level_def lvl cpp_bind_Inr_iff dest!: i32_sub_Inr i32_add_Inr)
  show "side_rel lt s m' (upd_order (msg_order_id msg) (msg_quantity msg) os)"
    unfolding m' by (rule rel_upd [OF rel(1) orders_rel_distinct [OF rel(2)] r lvl])
  show "orders_rel om' (upd_order (msg_order_id msg) (msg_quantity msg) os)"
    unfolding om' by (rule orders_rel_upd [OF rel(2) r(1)])
qed

lemma modify_level_defined:
  assumes rel: "side_rel lt s m os" "ids_distinct os"
    and r: "spec_find (msg_order_id msg) os = Some r" "ord_side r = s"
    and shallow: "shallow os" "shallow (upd_order (msg_order_id msg) (msg_quantity msg) os)"
  shows "\<exists>m' om'. modify_level msg r om m = Inr (m', om')"
proof -
  obtain lvl where lvl: "entry_find m (ord_price r) = Some lvl"
      "level_of s (ord_price r) os = Some lvl"
    using rel(1) r by (rule rel_level)
  let ?d = "depth s (ord_price r) os" and ?o = "unat (ord_quantity r)"
  have "?d < 2 ^ 31" using shallow(1) by (simp add: shallow_def)
  moreover from this have "?d < 2 ^ 32" by simp
  ultimately have d: "?d < 2 ^ 31" "unat (lvl_total_quantity lvl) = ?d"
    using level_total_unat [OF lvl(2)] by simp_all
  have o: "?o \<le> ?d" using quantity_le_depth spec_find_SomeD [OF r(1)] r(2) by blast
  have eq: "depth s (ord_price r) (upd_order (msg_order_id msg) (msg_quantity msg) os) + ?o =
      ?d + unat (msg_quantity msg)"
    using depth_upd [OF rel(2) r(1)] r(2) by simp
  have n: "?d + unat (msg_quantity msg) < 2 ^ 31 + ?o"
    using shallow(2) eq unfolding shallow_def by (metis add_less_cancel_right)
  with o d have q: "unat (msg_quantity msg) < 2 ^ 31" "?o < 2 ^ 31" by linarith+
  have "i32_fits (int (unat (msg_quantity msg)) - int ?o)"
    and "i32_fits (int ?d + (int (unat (msg_quantity msg)) - int ?o))"
    using n o d(1) q by (simp_all add: i32_fits_def del: of_nat_unat)
  then show ?thesis
    using d q lvl(1)
    by (simp add: modify_level_def i32_sub_def i32_add_def sint_small_u32 sint_diff_small_u32
        del: of_nat_unat)
qed

lemma cancel_level_rel:
  assumes rel: "side_rel lt s m os" "orders_rel om os"
    and r: "spec_find (msg_order_id msg) os = Some r" "ord_side r = s"
    and step: "cancel_level msg r om m = (m', om')"
  shows "side_rel lt s m' (del_order (msg_order_id msg) os)"
    and "orders_rel om' (del_order (msg_order_id msg) os)"
proof -
  obtain lvl where lvl: "entry_find m (ord_price r) = Some lvl"
    using rel(1) r by (rule rel_level)
  show "side_rel lt s m' (del_order (msg_order_id msg) os)"
    using step rel_del [OF rel(1) orders_rel_distinct [OF rel(2)] r lvl]
    by (simp add: cancel_level_def lvl Let_def)
  show "orders_rel om' (del_order (msg_order_id msg) os)"
    using step orders_rel_del [OF rel(2)] by (auto simp: cancel_level_def Let_def)
qed

lemma trade_level_rel:
  assumes rel: "side_rel lt s m os" "orders_rel om os"
    and r: "spec_find (msg_order_id msg) os = Some r" "ord_side r = s"
    and step: "trade_level msg r om m = (m', om')"
  defines "os' \<equiv> (if ord_quantity r \<le> msg_quantity msg then del_order (msg_order_id msg) os
      else upd_order (msg_order_id msg) (ord_quantity r - msg_quantity msg) os)"
  shows "side_rel lt s m' os'" and "orders_rel om' os'"
proof -
  obtain lvl where lvl: "entry_find m (ord_price r) = Some lvl"
    using rel(1) r by (rule rel_level)
  note d = orders_rel_distinct [OF rel(2)]
  show "side_rel lt s m' os'"
    using step rel_del [OF rel(1) d r lvl]
      rel_upd [OF rel(1) d r lvl, of "ord_quantity r - msg_quantity msg"]
    by (auto simp: trade_level_def lvl Let_def min_fill min_def os'_def not_le lvl_update_commute
        split: if_splits)
  show "orders_rel om' os'"
    using step orders_rel_del [OF rel(2)] orders_rel_upd [OF rel(2) r(1)]
    by (auto simp: trade_level_def lvl Let_def min_fill os'_def entry_erase_write not_le
        split: if_splits)
qed

end

lemma book_rel_empty: "book_rel empty_book []"
  by (simp add: book_rel_def empty_book_def orders_rel_def bid_side.rel_Nil ask_side.rel_Nil
      fun_eq_iff)

lemma book_relD:
  assumes "book_rel b os"
  shows "orders_rel (order_map b) os" and "side_rel cmp_greater Buy (bids b) os"
    and "side_rel cmp_less Sell (asks b) os" and "ids_distinct os"
    and "entry_find (order_map b) i = spec_find i os"
  using assms by (auto simp: book_rel_def orders_rel_def)

lemma handle_add_fresh:
  "entry_find (order_map b) (msg_order_id msg) = None \<Longrightarrow>
   handle_add b msg =
     (let b1 = b\<lparr>order_map := umap_emplace (msg_order_id msg) (new_order msg) (order_map b)\<rparr>
      in if msg_side msg = Buy then b1\<lparr>bids := add_to_level cmp_greater msg (bids b1)\<rparr>
         else b1\<lparr>asks := add_to_level cmp_less msg (asks b1)\<rparr>)"
  by (simp add: handle_add_def new_order_def)

lemma handle_add_rel:
  assumes "book_rel b os" and "msg_type msg = Add"
  shows "book_rel (handle_add b msg) (spec_message msg os)"
proof (cases "spec_find (msg_order_id msg) os")
  case (Some r)
  with assms show ?thesis
    by (simp add: handle_add_def book_relD(5) spec_message_def)
next
  case None
  note rel = book_relD(1,2,3) [OF assms(1)]
  have "book_rel (handle_add b msg) (os @ [new_order msg])"
    using rel orders_rel_add [OF rel(1), of "new_order msg"] None
    by (cases "msg_side msg")
       (auto simp: handle_add_fresh book_relD(5) [OF assms(1)] book_rel_def Let_def intro: bid_side.rel_add ask_side.rel_add
         bid_side.rel_add_other ask_side.rel_add_other)
  with None assms(2) show ?thesis by (simp add: spec_message_def)
qed

lemma handle_modify_rel:
  assumes "book_rel b os" and "msg_type msg = Modify" and "handle_modify b msg = Inr b'"
  shows "book_rel b' (spec_message msg os)"
proof (cases "spec_find (msg_order_id msg) os")
  case None
  with assms show ?thesis
    by (simp add: handle_modify_def book_relD(5) spec_message_def upd_absent)
next
  case (Some r)
  note rel = book_relD(1,2,3,4) [OF assms(1)]
  have "book_rel b' (upd_order (msg_order_id msg) (msg_quantity msg) os)"
    using assms(3) Some rel
    by (cases "ord_side r")
       (auto simp: handle_modify_def book_relD(5) [OF assms(1)] book_rel_def cpp_map_Inr_iff
         dest: bid_side.modify_level_rel ask_side.modify_level_rel
         intro: bid_side.rel_upd_other ask_side.rel_upd_other)
  with assms(2) show ?thesis by (simp add: spec_message_def)
qed

lemma handle_modify_defined:
  assumes "book_rel b os" and "msg_type msg = Modify"
    and "shallow os" and "shallow (spec_message msg os)"
  shows "\<exists>b'. handle_modify b msg = Inr b'"
proof (cases "spec_find (msg_order_id msg) os")
  case None
  with assms show ?thesis by (simp add: handle_modify_def book_relD(5))
next
  case (Some r)
  note rel = book_relD(2,3,4) [OF assms(1)]
  have "shallow (upd_order (msg_order_id msg) (msg_quantity msg) os)"
    using assms(2,4) by (simp add: spec_message_def)
  then have "ord_side r = Buy \<Longrightarrow> \<exists>m om. modify_level msg r (order_map b) (bids b) = Inr (m, om)"
    and "ord_side r = Sell \<Longrightarrow> \<exists>m om. modify_level msg r (order_map b) (asks b) = Inr (m, om)"
    using bid_side.modify_level_defined [OF rel(1,3) Some _ assms(3)]
      ask_side.modify_level_defined [OF rel(2,3) Some _ assms(3)] by blast+
  with Some show ?thesis
    by (cases "ord_side r") (auto simp: handle_modify_def book_relD(5) [OF assms(1)])
qed

lemma handle_cancel_rel:
  assumes "book_rel b os" and "msg_type msg = Cancel"
  shows "book_rel (handle_cancel b msg) (spec_message msg os)"
proof (cases "spec_find (msg_order_id msg) os")
  case None
  with assms show ?thesis
    by (simp add: handle_cancel_def book_relD(5) spec_message_def del_absent)
next
  case (Some r)
  note rel = book_relD(1,2,3,4) [OF assms(1)]
  have "book_rel (handle_cancel b msg) (del_order (msg_order_id msg) os)"
    using Some rel
    by (cases "ord_side r")
       (auto simp: handle_cancel_def book_relD(5) [OF assms(1)] book_rel_def
         split: prod.split dest: bid_side.cancel_level_rel ask_side.cancel_level_rel
         intro: bid_side.rel_del_other ask_side.rel_del_other)
  with assms(2) show ?thesis by (simp add: spec_message_def)
qed

lemma handle_trade_rel:
  assumes "book_rel b os" and "msg_type msg = Trade"
  shows "book_rel (handle_trade b msg) (spec_message msg os)"
proof (cases "spec_find (msg_order_id msg) os")
  case None
  with assms show ?thesis by (simp add: handle_trade_def book_relD(5) spec_message_def)
next
  case (Some r)
  note rel = book_relD(1,2,3,4) [OF assms(1)]
  show ?thesis
    using Some rel assms(2)
      bid_side.trade_level_rel [OF rel(2,1) Some] ask_side.trade_level_rel [OF rel(3,1) Some]
    by (cases "ord_side r")
       (auto simp: handle_trade_def book_relD(5) [OF assms(1)] book_rel_def spec_message_def
         split: prod.split intro: bid_side.rel_del_other ask_side.rel_del_other
           bid_side.rel_upd_other ask_side.rel_upd_other)
qed

lemma on_message_rel:
  "book_rel b os \<Longrightarrow> on_message b msg = Inr b' \<Longrightarrow> book_rel b' (spec_message msg os)"
  by (cases "msg_type msg")
     (auto simp: on_message_def intro: handle_add_rel handle_modify_rel handle_cancel_rel
       handle_trade_rel)

lemma on_message_total:
  "book_rel b os \<Longrightarrow> shallow os \<Longrightarrow> shallow (spec_message msg os) \<Longrightarrow>
   \<exists>b'. on_message b msg = Inr b'"
  by (cases "msg_type msg") (auto simp: on_message_def handle_modify_defined)

definition shallow_step :: "order list \<Rightarrow> market_message \<Rightarrow> bool" where
  "shallow_step os msg \<longleftrightarrow> shallow os \<and> shallow (spec_message msg os)"

interpretation base: book on_message best_bid best_ask total_orders buy_side_levels
  sell_side_levels book_rel shallow_step
proof
  fix b os msg
  show "book_rel b os \<Longrightarrow> shallow_step os msg \<Longrightarrow>
      \<exists>b'. on_message b msg = Inr b' \<and> book_rel b' (spec_message msg os)"
    unfolding shallow_step_def using on_message_total on_message_rel by blast
  show "book_rel b os \<Longrightarrow> best_bid b = spec_best Buy os"
    by (simp add: best_bid_def book_relD bid_side.rel_begin)
  show "book_rel b os \<Longrightarrow> best_ask b = spec_best Sell os"
    by (simp add: best_ask_def book_relD ask_side.rel_begin)
  show "book_rel b os \<Longrightarrow> total_orders b = of_nat (length os)"
    by (simp add: total_orders_def orders_rel_length [OF book_relD(1)])
  show "book_rel b os \<Longrightarrow> buy_side_levels b = of_nat (card (prices_of Buy os))"
    by (simp add: buy_side_levels_def bid_side.rel_length [OF book_relD(2)])
  show "book_rel b os \<Longrightarrow> sell_side_levels b = of_nat (card (prices_of Sell os))"
    by (simp add: sell_side_levels_def ask_side.rel_length [OF book_relD(3)])
qed

section \<open>Properties\<close>

lemma feed_on_message_rel:
  "book_rel b os \<Longrightarrow> feed on_message msgs b = Inr b' \<Longrightarrow> book_rel b' (spec_run msgs os)"
proof (induction msgs arbitrary: b os)
  case (Cons msg msgs)
  then obtain b1 where "on_message b msg = Inr b1" "feed on_message msgs b1 = Inr b'"
    by (auto simp: cpp_bind_Inr_iff)
  with Cons show ?case using on_message_rel by fastforce
qed simp

lemma book_rel_level:
  assumes "book_rel b os"
  shows "entry_find (bids b) p = level_of Buy p os" and "entry_find (asks b) p = level_of Sell p os"
  using bid_side.rel_find [OF book_relD(2) [OF assms]] ask_side.rel_find [OF book_relD(3) [OF assms]]
  by simp_all

lemma del_order_append_fresh:
  "spec_find i os = None \<Longrightarrow> ord_order_id r = i \<Longrightarrow> del_order i (os @ [r]) = os"
  using del_absent [of i os] by (simp add: del_order_def)

lemma entry_erase_emplace:
  "entry_find m k = None \<Longrightarrow> entry_erase k (umap_emplace k v m) = m"
  by (auto simp: umap_emplace_def entry_erase_def entry_find_def filter_id_conv
      dest: weak_map_of_SomeI)

text \<open>A small book that the witnesses start from: one bid of 100 at price 10000.\<close>

definition sample_orders :: "order list" where
  "sample_orders = [\<lparr>ord_order_id = 1, ord_price = Int64 10000, ord_quantity = 100, ord_side = Buy\<rparr>]"

definition sample_book :: order_book where
  "sample_book = \<lparr>bids = [(Int64 10000, \<lparr>lvl_price = Int64 10000, lvl_order_ids = [1],
       lvl_total_quantity = 100\<rparr>)], asks = [], order_map = [(1, hd sample_orders)]\<rparr>"

lemma sample_book_rel: "book_rel sample_book sample_orders"
  by (auto simp: book_rel_def orders_rel_def side_rel_def sample_book_def sample_orders_def
      ids_distinct_def keys_distinct_def entry_find_def spec_find_def omap_sorted_def level_of_def
      resting_def fun_eq_iff)

lemma sample_depth: "depth s p sample_orders \<le> 100"
  by (simp add: depth_def resting_def sample_orders_def)

lemma sample_shallow: "shallow sample_orders"
  unfolding shallow_def by (intro allI le_less_trans [OF sample_depth]) simp

text \<open>
  Property C1. One message on the baseline book: from a state that represents the resting orders
  \<open>os\<close>, if every level's depth fits a signed 32-bit integer before and after the message,
  \<open>OrderBook::on_message\<close> has defined behaviour and ends in a state that represents the orders
  the specification prescribes.
\<close>

theorem order_book_step_refines:
  assumes "book_rel b os" and "shallow os" and "shallow (spec_message msg os)"
  shows "\<exists>b'. on_message b msg = Inr b' \<and> book_rel b' (spec_message msg os)"
  using base.step_ok [of b os msg] assms by (simp add: shallow_step_def)

theorem order_book_step_refines_witness:
  "\<exists>b'. on_message sample_book (make_message Modify 1 Buy (Int64 0) 150) = Inr b' \<and>
     book_rel b' [\<lparr>ord_order_id = 1, ord_price = Int64 10000, ord_quantity = 150, ord_side = Buy\<rparr>]"
proof -
  let ?msg = "make_message Modify 1 Buy (Int64 0) 150"
  have spec: "spec_message ?msg sample_orders =
      [\<lparr>ord_order_id = 1, ord_price = Int64 10000, ord_quantity = 150, ord_side = Buy\<rparr>]"
    by (simp add: spec_message_def upd_order_def sample_orders_def)
  have "shallow (spec_message ?msg sample_orders)"
    by (auto simp: spec shallow_def depth_def resting_def)
  then show ?thesis
    using order_book_step_refines [OF sample_book_rel sample_shallow, of ?msg] by (simp add: spec)
qed

text \<open>
  Property C11. Exactly when \<open>OrderBook::on_message\<close> is undefined: only for a \<open>Modify\<close> of a
  resting order, and only when the change of quantity, or the new level total, leaves the range of
  \<open>std::int32_t\<close>.
\<close>

theorem order_book_undefined_iff:
  assumes "book_rel b os"
  shows "on_message b msg = Inl e \<longleftrightarrow>
     e = Signed_Overflow \<and> msg_type msg = Modify \<and>
     (\<exists>r lvl. spec_find (msg_order_id msg) os = Some r \<and>
        level_of (ord_side r) (ord_price r) os = Some lvl \<and>
        \<not> (i32_fits (sint (msg_quantity msg) - sint (ord_quantity r)) \<and>
           i32_fits (sint (lvl_total_quantity lvl) + sint (msg_quantity msg - ord_quantity r))))"
    (is "?lhs \<longleftrightarrow> ?rhs")
proof (cases "msg_type msg = Modify")
  case False
  then show ?thesis by (cases "msg_type msg") (simp_all add: on_message_def)
next
  case True
  show ?thesis
  proof (cases "spec_find (msg_order_id msg) os")
    case None
    with True assms show ?thesis by (simp add: on_message_def handle_modify_def book_relD(5))
  next
    case (Some r)
    obtain lvl where lvl: "level_of (ord_side r) (ord_price r) os = Some lvl"
      using level_of_present spec_find_SomeD [OF Some] by blast
    then have m: "ord_side r = Buy \<Longrightarrow> entry_find (bids b) (ord_price r) = Some lvl"
        "ord_side r = Sell \<Longrightarrow> entry_find (asks b) (ord_price r) = Some lvl"
      by (simp_all add: book_rel_level [OF assms])
    show ?thesis
      using True Some lvl m
      by (cases "ord_side r")
         (auto simp: on_message_def handle_modify_def book_relD(5) [OF assms] modify_level_def
           i32_sub_def i32_add_def cpp_map_def)
  qed
qed

theorem order_book_undefined_iff_witness:
  "on_message sample_book (make_message Modify 1 Buy (Int64 0) 2147483748) \<noteq> Inl Signed_Overflow \<longleftrightarrow>
   i32_fits (sint (2147483748 :: u32) - 100) \<and> i32_fits (100 + sint (2147483648 :: u32))"
  using order_book_undefined_iff [OF sample_book_rel,
      of "make_message Modify 1 Buy (Int64 0) 2147483748" Signed_Overflow]
  by (simp add: sample_orders_def spec_find_def level_of_def resting_def)

text \<open>
  Property C15. What a client sees after any stream of messages on a new book, as long as no level
  grows past a signed 32-bit integer: no undefined behaviour, the best bid is the level of the
  highest bid price, the best ask the level of the lowest ask price, and the counters are the number
  of resting orders and of distinct prices.
\<close>

theorem order_book_run:
  assumes "stream_ok shallow_step msgs []"
  shows "\<exists>b. feed on_message msgs empty_book = Inr b \<and>
     best_bid b = spec_best Buy (spec_run msgs []) \<and>
     best_ask b = spec_best Sell (spec_run msgs []) \<and>
     total_orders b = of_nat (length (spec_run msgs [])) \<and>
     buy_side_levels b = of_nat (card (prices_of Buy (spec_run msgs []))) \<and>
     sell_side_levels b = of_nat (card (prices_of Sell (spec_run msgs [])))"
proof -
  obtain b where b: "feed on_message msgs empty_book = Inr b" "book_rel b (spec_run msgs [])"
    using base.feed_ok [OF book_rel_empty assms] by blast
  note q = base.bid_best base.ask_best base.orders_count base.buy_count base.sell_count
  show ?thesis using b(1) q [OF b(2)] by (intro exI [of _ b] conjI)
qed

theorem order_book_run_witness:
  "\<exists>b. feed on_message [make_message Add 1 Buy (Int64 10000) 100,
        make_message Add 2 Buy (Int64 10100) 50] empty_book = Inr b \<and>
     best_bid b = Some \<lparr>lvl_price = Int64 10100, lvl_order_ids = [2], lvl_total_quantity = 50\<rparr>"
proof -
  let ?msgs = "[make_message Add 1 Buy (Int64 10000) 100, make_message Add 2 Buy (Int64 10100) 50]"
  have "stream_ok shallow_step ?msgs []"
    by (rule bounded_stream [where I = "{1, 2}" and Q = 100])
       (auto simp: bounded_message_def shallow_step_def
         intro!: bounded_book_shallow [where I = "{1, 2}" and Q = 100]
           bounded_book_step [where I = "{1, 2}" and Q = 100])
  moreover have "spec_best Buy (spec_run ?msgs []) =
      Some \<lparr>lvl_price = Int64 10100, lvl_order_ids = [2], lvl_total_quantity = 50\<rparr>"
    by (simp add: spec_message_def spec_best_def prices_of_set level_of_def resting_def spec_find_def
        new_order_def max_def)
  ultimately show ?thesis using order_book_run [of ?msgs] by auto
qed

text \<open>
  Property C16. Price-time priority and aggregation, on every run with defined behaviour: a price
  level exists exactly for the prices at which orders rest, it lists their ids in order of arrival
  (a \<open>Modify\<close> keeps an order's place), it is never empty, and its total is the sum of their
  quantities modulo \<open>2 ^ 32\<close>, however often that sum has wrapped.
\<close>

theorem order_book_levels:
  assumes "feed on_message msgs empty_book = Inr b"
  shows "(entry_find (bids b) p = Some lvl \<longleftrightarrow>
       resting Buy p (spec_run msgs []) \<noteq> [] \<and>
       lvl = \<lparr>lvl_price = p, lvl_order_ids = map ord_order_id (resting Buy p (spec_run msgs [])),
              lvl_total_quantity = of_nat (depth Buy p (spec_run msgs []))\<rparr>) \<and>
     (entry_find (asks b) p = Some lvl \<longleftrightarrow>
       resting Sell p (spec_run msgs []) \<noteq> [] \<and>
       lvl = \<lparr>lvl_price = p, lvl_order_ids = map ord_order_id (resting Sell p (spec_run msgs [])),
              lvl_total_quantity = of_nat (depth Sell p (spec_run msgs []))\<rparr>)"
  using book_rel_level [OF feed_on_message_rel [OF book_rel_empty assms]]
  by (simp add: level_of_Some_iff depth_def of_nat_sum_list_unat)

theorem order_book_levels_witness:
  "\<exists>b. feed on_message [make_message Add 1 Buy (Int64 5) 10, make_message Add 2 Buy (Int64 5) 20,
        make_message Modify 1 Buy (Int64 0) 30] empty_book = Inr b \<and>
     entry_find (bids b) (Int64 5) =
       Some \<lparr>lvl_price = Int64 5, lvl_order_ids = [1, 2], lvl_total_quantity = 50\<rparr>"
proof -
  let ?msgs = "[make_message Add 1 Buy (Int64 5) 10, make_message Add 2 Buy (Int64 5) 20,
      make_message Modify 1 Buy (Int64 0) 30]"
  obtain b where b: "feed on_message ?msgs empty_book = Inr b"
    by (simp add: on_message_def handle_add_def handle_modify_def add_to_level_def
        modify_level_def empty_book_def Let_def umap_emplace_def entry_find_def entry_write_def
        i32_sub_def i32_add_def i32_fits_def)
  have "spec_run ?msgs [] =
      [\<lparr>ord_order_id = 1, ord_price = Int64 5, ord_quantity = 30, ord_side = Buy\<rparr>,
       \<lparr>ord_order_id = 2, ord_price = Int64 5, ord_quantity = 20, ord_side = Buy\<rparr>]"
    by (simp add: spec_message_def spec_find_def upd_order_def new_order_def)
  then show ?thesis
    using b order_book_levels [OF b, of "Int64 5"
        "\<lparr>lvl_price = Int64 5, lvl_order_ids = [1, 2], lvl_total_quantity = 50\<rparr>"]
    by (simp add: resting_def depth_def)
qed

text \<open>
  Property C31. On a book that represents some resting orders, adding an order with a new id and
  cancelling it restores the book exactly: no empty level, no stale id and no residue in a level's total
  is left behind.
\<close>

theorem add_cancel_roundtrip:
  assumes "book_rel b os" and "spec_find (msg_order_id add_msg) os = None"
    and "msg_type add_msg = Add" and "msg_type cancel_msg = Cancel"
    and "msg_order_id cancel_msg = msg_order_id add_msg"
  shows "cpp_bind (on_message b add_msg) (\<lambda>b1. on_message b1 cancel_msg) = Inr b"
proof -
  let ?b1 = "handle_add b add_msg" and ?i = "msg_order_id add_msg"
  let ?b2 = "handle_cancel ?b1 cancel_msg"
  have rel1: "book_rel ?b1 (os @ [new_order add_msg])"
    using handle_add_rel [OF assms(1,3)] assms(2,3) by (simp add: spec_message_def)
  have rel2: "book_rel ?b2 os"
    using handle_cancel_rel [OF rel1 assms(4)] assms(2,4,5)
    by (simp add: spec_message_def del_order_append_fresh)
  have fresh: "entry_find (order_map b) ?i = None" using assms(1,2) by (simp add: book_relD(5))
  have "order_map ?b1 = umap_emplace ?i (new_order add_msg) (order_map b)"
    by (simp add: handle_add_fresh [OF fresh] Let_def)
  moreover from this have "order_map ?b2 = entry_erase ?i (order_map ?b1)"
    using assms(5) fresh
    by (auto simp: handle_cancel_def entry_find_emplace cancel_level_def Let_def)
  ultimately have "order_map ?b2 = order_map b" by (simp add: entry_erase_emplace fresh)
  moreover have "bids ?b2 = bids b" "asks ?b2 = asks b"
    using bid_side.rel_unique [OF book_relD(2) [OF rel2] book_relD(2) [OF assms(1)]]
      ask_side.rel_unique [OF book_relD(3) [OF rel2] book_relD(3) [OF assms(1)]] by simp_all
  ultimately have "?b2 = b" by simp
  then show ?thesis using assms(3,4) by (simp add: on_message_def)
qed

text \<open>A second order at the price of a resting one, and one that opens the other side.\<close>

theorem add_cancel_roundtrip_witness:
  "cpp_bind (on_message sample_book (make_message Add 2 Buy (Int64 10000) 50))
     (\<lambda>b1. on_message b1 (make_message Cancel 2 Buy (Int64 0) 0)) = Inr sample_book \<and>
   cpp_bind (on_message sample_book (make_message Add 3 Sell (Int64 10200) 70))
     (\<lambda>b1. on_message b1 (make_message Cancel 3 Sell (Int64 0) 0)) = Inr sample_book"
  using add_cancel_roundtrip [OF sample_book_rel]
  by (simp add: sample_orders_def spec_find_def)

text \<open>
  A \<open>Trade\<close> fills: an order traded for at least its quantity leaves the order map,
  a partial trade takes exactly the traded quantity off without wrap-around, and no other order
  changes.
\<close>

lemma trade_fills:
  assumes "book_rel b os" and "spec_find (msg_order_id msg) os = Some r" and "msg_type msg = Trade"
  shows "\<exists>b'. on_message b msg = Inr b' \<and>
     (\<forall>i. entry_find (order_map b') i =
        (if i \<noteq> msg_order_id msg then entry_find (order_map b) i
         else if ord_quantity r \<le> msg_quantity msg then None
         else Some (r\<lparr>ord_quantity := of_nat (unat (ord_quantity r) - unat (msg_quantity msg))\<rparr>)))"
proof -
  have "book_rel (handle_trade b msg) (spec_message msg os)"
    by (rule handle_trade_rel [OF assms(1,3)])
  then have find: "entry_find (order_map (handle_trade b msg)) i = spec_find i (spec_message msg os)"
    for i by (rule book_relD(5))
  have diff: "ord_quantity r - msg_quantity msg =
      of_nat (unat (ord_quantity r) - unat (msg_quantity msg))"
    if "\<not> ord_quantity r \<le> msg_quantity msg"
    using that by (simp add: word_le_nat_alt of_nat_diff)
  have "entry_find (order_map b) i = spec_find i os" for i
    using assms(1) by (rule book_relD(5))
  with find diff assms(2,3) show ?thesis
    by (auto simp: on_message_def spec_message_def spec_find_del spec_find_upd simp del: of_nat_diff)
qed

end
