(* ===== verification/Object_Pool.thy ===== *)
theory Object_Pool
  imports Prelude
begin

text \<open>
  \<open>ObjectPool<T>\<close> of \<open>include/latency_lab/object_pool.hpp\<close>. A slot of \<open>storage_\<close> is raw
  memory (\<open>None\<close>) or holds a live object; \<open>free_list_\<close> is the vector used as a stack, its
  back last; pointers are addresses, \<open>None\<close> is \<open>nullptr\<close>. Destroying or reaching through a
  pointer that is not the address of a live object is undefined behaviour. The locale
  \<open>allocator\<close> is what a client of the pool relies on, and it is interpreted on the pool.
\<close>

section \<open>State\<close>

record 'a pool =
  storage_base :: u64
  slot_bytes :: u64
  storage :: "'a option list"
  free_list :: "nat list"
  in_use_flags :: "bool list"
  alloc_count :: u64
  dealloc_count :: u64

text \<open>\<open>&storage_[index]\<close> and the index computed back from an address.\<close>

definition slot_ptr :: "'a pool \<Rightarrow> nat \<Rightarrow> u64" where
  "slot_ptr P i = storage_base P + of_nat i * slot_bytes P"

definition slot_index :: "'a pool \<Rightarrow> u64 \<Rightarrow> nat" where
  "slot_index P p = unat ((p - storage_base P) div slot_bytes P)"

section \<open>Operations\<close>

text \<open>
  The constructor's loop \<open>for (index = capacity; index > 0; --index) push_back(index - 1)\<close>.
\<close>

primrec fill_free_list :: "nat \<Rightarrow> nat list \<Rightarrow> nat list" where
  "fill_free_list 0 fl = fl"
| "fill_free_list (Suc i) fl = fill_free_list i (fl @ [i])"

definition pool_new :: "u64 \<Rightarrow> u64 \<Rightarrow> nat \<Rightarrow> 'a pool" where
  "pool_new base bytes capacity =
     \<lparr>storage_base = base, slot_bytes = bytes, storage = replicate capacity None,
      free_list = fill_free_list capacity [], in_use_flags = replicate capacity False,
      alloc_count = 0, dealloc_count = 0\<rparr>"

definition pool_allocate :: "'a \<Rightarrow> 'a pool \<Rightarrow> (u64 option \<times> 'a pool) cpp" where
  "pool_allocate v P =
     (if free_list P = [] then Inr (None, P)
      else
        (let index = last (free_list P)
         in if index < length (in_use_flags P) \<and> index < length (storage P)
            then Inr (Some (slot_ptr P index),
                      P\<lparr>free_list := butlast (free_list P),
                        in_use_flags := (in_use_flags P)[index := True],
                        alloc_count := alloc_count P + 1,
                        storage := (storage P)[index := Some v]\<rparr>)
            else Inl Out_Of_Bounds))"

text \<open>The object at an address: reading, writing through and destroying it.\<close>

definition pool_heap :: "'a pool \<Rightarrow> u64 \<Rightarrow> 'a option" where
  "pool_heap P p =
     (let index = slot_index P p
      in if index < length (storage P) \<and> p = slot_ptr P index then storage P ! index else None)"

definition pool_deref :: "'a pool \<Rightarrow> u64 \<Rightarrow> 'a cpp" where
  "pool_deref P p = (case pool_heap P p of None \<Rightarrow> Inl Dead_Object | Some v \<Rightarrow> Inr v)"

definition pool_write :: "u64 \<Rightarrow> 'a \<Rightarrow> 'a pool \<Rightarrow> 'a pool cpp" where
  "pool_write p v P =
     (case pool_heap P p of
        None \<Rightarrow> Inl Dead_Object
      | Some _ \<Rightarrow> Inr (P\<lparr>storage := (storage P)[slot_index P p := Some v]\<rparr>))"

definition pool_deallocate :: "u64 option \<Rightarrow> 'a pool \<Rightarrow> 'a pool cpp" where
  "pool_deallocate object P =
     (case object of
        None \<Rightarrow> Inr P
      | Some p \<Rightarrow>
          (let index = slot_index P p
           in case pool_heap P p of
                None \<Rightarrow> Inl Dead_Object
              | Some _ \<Rightarrow>
                  (if index < length (in_use_flags P)
                   then Inr (P\<lparr>storage := (storage P)[index := None],
                               in_use_flags := (in_use_flags P)[index := False],
                               free_list := free_list P @ [index],
                               dealloc_count := dealloc_count P + 1\<rparr>)
                   else Inl Out_Of_Bounds)))"

text \<open>
  The destructor: a loop over the flags that destroys the object of every slot in use.
\<close>

fun destroy_from :: "nat \<Rightarrow> bool list \<Rightarrow> 'a option list \<Rightarrow> 'a option list cpp" where
  "destroy_from i [] slots = Inr slots"
| "destroy_from i (used # flags) slots =
     (if used
      then (if i < length slots \<and> slots ! i \<noteq> None
            then destroy_from (Suc i) flags (slots[i := None])
            else Inl Dead_Object)
      else destroy_from (Suc i) flags slots)"

definition pool_destroy :: "'a pool \<Rightarrow> 'a option list cpp" where
  "pool_destroy P = destroy_from 0 (in_use_flags P) (storage P)"

definition pool_capacity :: "'a pool \<Rightarrow> nat" where
  "pool_capacity P = length (storage P)"

definition pool_available :: "'a pool \<Rightarrow> nat" where
  "pool_available P = length (free_list P)"

definition pool_in_use :: "'a pool \<Rightarrow> nat" where
  "pool_in_use P = pool_capacity P - pool_available P"

section \<open>Invariant\<close>

definition free_slots :: "'a pool \<Rightarrow> nat set" where
  "free_slots P = {i. i < length (storage P) \<and> storage P ! i = None}"

definition pool_inv :: "'a pool \<Rightarrow> bool" where
  "pool_inv P \<longleftrightarrow>
     0 < unat (slot_bytes P) \<and> length (storage P) * unat (slot_bytes P) < 2 ^ 64 \<and>
     in_use_flags P = map (\<lambda>x. x \<noteq> None) (storage P) \<and>
     distinct (free_list P) \<and> set (free_list P) = free_slots P \<and>
     alloc_count P = dealloc_count P + of_nat (length (storage P) - length (free_list P))"

lemma fill_free_list_eq: "fill_free_list n fl = fl @ rev [0..<n]"
  by (induction n arbitrary: fl) simp_all

lemma slot_index_ptr:
  assumes "pool_inv P" and "i < length (storage P)"
  shows "slot_index P (slot_ptr P i) = i"
proof -
  have pos: "0 < unat (slot_bytes P)" and len: "length (storage P) * unat (slot_bytes P) < 2 ^ 64"
    using assms(1) by (simp_all add: pool_inv_def)
  have "i * unat (slot_bytes P) < 2 ^ 64"
    using assms(2) len by (metis less_imp_le_nat mult_le_mono1 le_less_trans)
  then have "unat (of_nat i * slot_bytes P) = i * unat (slot_bytes P)"
    by (simp add: unat_word_ariths unat_of_nat mod_mult_left_eq)
  then show ?thesis using pos by (simp add: slot_index_def slot_ptr_def unat_div)
qed

lemma slot_index_simps [pool_simps]:
  "slot_index (P\<lparr>storage := s\<rparr>) = slot_index P"
  "slot_index (P\<lparr>in_use_flags := f\<rparr>) = slot_index P"
  "slot_index (P\<lparr>free_list := l\<rparr>) = slot_index P"
  "slot_index (P\<lparr>alloc_count := a\<rparr>) = slot_index P"
  "slot_index (P\<lparr>dealloc_count := a\<rparr>) = slot_index P"
  "slot_ptr (P\<lparr>storage := s\<rparr>) = slot_ptr P"
  "slot_ptr (P\<lparr>in_use_flags := f\<rparr>) = slot_ptr P"
  "slot_ptr (P\<lparr>free_list := l\<rparr>) = slot_ptr P"
  "slot_ptr (P\<lparr>alloc_count := a\<rparr>) = slot_ptr P"
  "slot_ptr (P\<lparr>dealloc_count := a\<rparr>) = slot_ptr P"
  by (simp_all add: slot_index_def slot_ptr_def fun_eq_iff)

lemma pool_heap_Some_iff:
  "pool_heap P p = Some v \<longleftrightarrow>
     slot_index P p < length (storage P) \<and> p = slot_ptr P (slot_index P p) \<and>
     storage P ! slot_index P p = Some v"
  by (auto simp: pool_heap_def Let_def)

lemma pool_heap_ptr:
  "pool_inv P \<Longrightarrow> i < length (storage P) \<Longrightarrow> pool_heap P (slot_ptr P i) = storage P ! i"
  by (simp add: pool_heap_def slot_index_ptr)

text \<open>A write to one slot, seen through the addresses.\<close>

lemma pool_heap_update:
  assumes "pool_inv P" and "i < length (storage P)"
    and "slot_index P' = slot_index P" and "slot_ptr P' = slot_ptr P"
    and "storage P' = (storage P)[i := x]"
  shows "pool_heap P' = (pool_heap P)(slot_ptr P i := x)"
proof
  fix p
  show "pool_heap P' p = ((pool_heap P)(slot_ptr P i := x)) p"
    using assms slot_index_ptr [OF assms(1,2)]
    by (auto simp: pool_heap_def Let_def nth_list_update)
qed

lemma pool_inv_new:
  assumes "0 < unat bytes" and "n * unat bytes < 2 ^ 64"
  shows "pool_inv (pool_new base bytes n :: 'a pool)"
proof -
  have "set (free_list (pool_new base bytes n :: 'a pool)) = free_slots (pool_new base bytes n :: 'a pool)"
    by (auto simp: pool_new_def fill_free_list_eq free_slots_def)
  moreover have "distinct (free_list (pool_new base bytes n :: 'a pool))"
    by (simp add: pool_new_def fill_free_list_eq)
  moreover have "alloc_count (pool_new base bytes n :: 'a pool) = dealloc_count (pool_new base bytes n :: 'a pool)
      + of_nat (length (storage (pool_new base bytes n :: 'a pool)) - length (free_list (pool_new base bytes n :: 'a pool)))"
    by (simp add: pool_new_def fill_free_list_eq)
  ultimately show ?thesis using assms by (simp add: pool_inv_def pool_new_def)
qed

lemma finite_free_slots [simp]: "finite (free_slots P)"
  by (simp add: free_slots_def)

lemma free_list_length: "pool_inv P \<Longrightarrow> length (free_list P) = card (free_slots P)"
  by (metis distinct_card pool_inv_def)

lemma free_list_le: "pool_inv P \<Longrightarrow> length (free_list P) \<le> length (storage P)"
  using card_mono [of "{..<length (storage P)}" "free_slots P"]
  by (auto simp: free_list_length free_slots_def)

section \<open>What a client relies on\<close>

text \<open>
  A client keeps pointers under keys of its own. It owns the heap when its pointers are pairwise
  different and are exactly the live objects; then \<open>through\<close> is the map it means to keep.
\<close>

definition owns :: "('k \<Rightarrow> u64 option) \<Rightarrow> (u64 \<Rightarrow> 'v option) \<Rightarrow> bool" where
  "owns hm h \<longleftrightarrow> inj_on hm (dom hm) \<and> ran hm = dom h"

definition through :: "('k \<Rightarrow> u64 option) \<Rightarrow> (u64 \<Rightarrow> 'v option) \<Rightarrow> 'k \<Rightarrow> 'v option" where
  "through hm h k = Option.bind (hm k) h"

lemma owns_live: "owns hm h \<Longrightarrow> hm k = Some p \<Longrightarrow> \<exists>v. h p = Some v"
  by (metis domD owns_def ranI)

lemma owns_other: "owns hm h \<Longrightarrow> hm k = Some p \<Longrightarrow> hm k' = Some p \<Longrightarrow> k' = k"
  by (metis domI inj_onD owns_def)

lemma owns_dom: "owns hm h \<Longrightarrow> dom (through hm h) = dom hm"
  by (auto simp: through_def dom_def bind_eq_Some_conv dest: owns_live)

lemma owns_alloc:
  assumes "owns hm h" and "hm k = None" and "h p = None"
  shows "owns (hm(k \<mapsto> p)) (h(p \<mapsto> v))"
    and "through (hm(k \<mapsto> p)) (h(p \<mapsto> v)) = (through hm h)(k \<mapsto> v)"
proof -
  have new: "hm k' \<noteq> Some p" for k' using owns_live [OF assms(1)] assms(3) by fastforce
  have "inj_on (hm(k \<mapsto> p)) (dom (hm(k \<mapsto> p)))"
    using assms(1) new by (force simp: owns_def inj_on_def)
  moreover have "ran (hm(k \<mapsto> p)) = insert p (ran hm)" using assms(2) by simp
  ultimately show "owns (hm(k \<mapsto> p)) (h(p \<mapsto> v))"
    using assms(1) by (auto simp: owns_def)
  show "through (hm(k \<mapsto> p)) (h(p \<mapsto> v)) = (through hm h)(k \<mapsto> v)"
  proof
    fix j
    show "through (hm(k \<mapsto> p)) (h(p \<mapsto> v)) j = ((through hm h)(k \<mapsto> v)) j"
      using new [of j] by (cases "j = k"; cases "hm j") (auto simp: through_def)
  qed
qed

lemma owns_write:
  assumes "owns hm h" and "hm k = Some p"
  shows "owns hm (h(p \<mapsto> v))" and "through hm (h(p \<mapsto> v)) = (through hm h)(k \<mapsto> v)"
proof -
  have "dom (h(p \<mapsto> v)) = dom h" using owns_live [OF assms] by auto
  then show "owns hm (h(p \<mapsto> v))" using assms(1) by (simp add: owns_def)
  show "through hm (h(p \<mapsto> v)) = (through hm h)(k \<mapsto> v)"
  proof
    fix j
    show "through hm (h(p \<mapsto> v)) j = ((through hm h)(k \<mapsto> v)) j"
    proof (cases "j = k")
      case True
      then show ?thesis using assms(2) by (simp add: through_def)
    next
      case False
      then have "hm j \<noteq> Some p" using owns_other [OF assms] by blast
      with False show ?thesis by (cases "hm j") (simp_all add: through_def)
    qed
  qed
qed

lemma owns_dealloc:
  assumes "owns hm h" and "hm k = Some p"
  shows "owns (hm(k := None)) (h(p := None))"
    and "through (hm(k := None)) (h(p := None)) = (through hm h)(k := None)"
proof -
  have "inj_on (hm(k := None)) (dom (hm(k := None)))"
    using assms(1) by (force simp: owns_def inj_on_def)
  moreover have "ran (hm(k := None)) = ran hm - {p}"
  proof -
    have eq: "hm j = Some p \<longleftrightarrow> j = k" for j using assms(2) owns_other [OF assms] by blast
    have "x \<in> ran (hm(k := None)) \<longleftrightarrow> x \<in> ran hm - {p}" for x
      using eq by (simp add: ran_def) (metis assms(2) option.inject)
    then show ?thesis by blast
  qed
  moreover have "ran hm = dom h" using assms(1) by (simp add: owns_def)
  ultimately show "owns (hm(k := None)) (h(p := None))"
    by (simp only: owns_def dom_fun_upd simp_thms if_True)
  show "through (hm(k := None)) (h(p := None)) = (through hm h)(k := None)"
  proof
    fix j
    show "through (hm(k := None)) (h(p := None)) j = ((through hm h)(k := None)) j"
      using owns_other [OF assms, of j] by (cases "hm j") (auto simp: through_def)
  qed
qed

lemma owns_card: "owns hm h \<Longrightarrow> card (dom hm) = card (dom h)"
proof -
  assume o: "owns hm h"
  have "inj_on (\<lambda>k. the (hm k)) (dom hm)"
  proof (rule inj_onI)
    fix j k
    assume "j \<in> dom hm" "k \<in> dom hm" "the (hm j) = the (hm k)"
    then have "hm j = hm k" by auto
    with \<open>j \<in> dom hm\<close> \<open>k \<in> dom hm\<close> show "j = k" using o by (auto simp: owns_def dest: inj_onD)
  qed
  moreover have "(\<lambda>k. the (hm k)) ` dom hm = ran hm" by (force simp: ran_def image_iff)
  ultimately show ?thesis using o card_image unfolding owns_def by metis
qed

locale allocator =
  fixes alloc :: "'v \<Rightarrow> 'p \<Rightarrow> (u64 option \<times> 'p) cpp"
    and dealloc :: "u64 option \<Rightarrow> 'p \<Rightarrow> 'p cpp"
    and store :: "u64 \<Rightarrow> 'v \<Rightarrow> 'p \<Rightarrow> 'p cpp"
    and heap :: "'p \<Rightarrow> u64 \<Rightarrow> 'v option"
    and avail :: "'p \<Rightarrow> nat"
    and cap :: "'p \<Rightarrow> nat"
    and inv :: "'p \<Rightarrow> bool"
  assumes alloc_full: "inv P \<Longrightarrow> avail P = 0 \<Longrightarrow> alloc v P = Inr (None, P)"
    and alloc_ok: "inv P \<Longrightarrow> avail P \<noteq> 0 \<Longrightarrow> \<exists>p P'. alloc v P = Inr (Some p, P') \<and>
        heap P p = None \<and> heap P' = (heap P)(p \<mapsto> v) \<and> inv P' \<and> cap P' = cap P"
    and dealloc_ok: "inv P \<Longrightarrow> heap P p = Some v \<Longrightarrow> \<exists>P'. dealloc (Some p) P = Inr P' \<and>
        heap P' = (heap P)(p := None) \<and> inv P' \<and> cap P' = cap P"
    and write_ok: "inv P \<Longrightarrow> heap P p = Some v \<Longrightarrow> \<exists>P'. store p w P = Inr P' \<and>
        heap P' = (heap P)(p \<mapsto> w) \<and> inv P' \<and> cap P' = cap P"
    and avail_live: "inv P \<Longrightarrow> avail P + card (dom (heap P)) = cap P"
begin

lemma owned_full: "inv P \<Longrightarrow> owns hm (heap P) \<Longrightarrow> avail P = 0 \<longleftrightarrow> card (dom hm) = cap P"
  using avail_live [of P] by (auto simp: owns_card)

lemma owned_alloc:
  assumes "inv P" and "owns hm (heap P)" and "hm k = None" and "card (dom hm) < cap P"
  obtains p P' where "alloc v P = Inr (Some p, P')" and "inv P'" and "cap P' = cap P"
    and "owns (hm(k \<mapsto> p)) (heap P')"
    and "through (hm(k \<mapsto> p)) (heap P') = (through hm (heap P))(k \<mapsto> v)"
proof -
  have "avail P \<noteq> 0" using owned_full [OF assms(1,2)] assms(4) by simp
  then obtain p P' where "alloc v P = Inr (Some p, P')" "heap P p = None"
      "heap P' = (heap P)(p \<mapsto> v)" "inv P'" "cap P' = cap P"
    using alloc_ok [OF assms(1)] by blast
  then show thesis using owns_alloc [OF assms(2,3)] that by simp
qed

lemma owned_dealloc:
  assumes "inv P" and "owns hm (heap P)" and "hm k = Some p"
  obtains P' where "dealloc (Some p) P = Inr P'" and "inv P'" and "cap P' = cap P"
    and "owns (hm(k := None)) (heap P')"
    and "through (hm(k := None)) (heap P') = (through hm (heap P))(k := None)"
proof -
  obtain v where "heap P p = Some v" using owns_live [OF assms(2,3)] by blast
  then obtain P' where "dealloc (Some p) P = Inr P'" "heap P' = (heap P)(p := None)" "inv P'"
      "cap P' = cap P"
    using dealloc_ok [OF assms(1)] by blast
  then show thesis using owns_dealloc [OF assms(2,3)] that by simp
qed

lemma owned_write:
  assumes "inv P" and "owns hm (heap P)" and "hm k = Some p"
  obtains P' where "store p w P = Inr P'" and "inv P'" and "cap P' = cap P"
    and "owns hm (heap P')" and "through hm (heap P') = (through hm (heap P))(k \<mapsto> w)"
proof -
  obtain v where "heap P p = Some v" using owns_live [OF assms(2,3)] by blast
  then obtain P' where "store p w P = Inr P'" "heap P' = (heap P)(p \<mapsto> w)" "inv P'" "cap P' = cap P"
    using write_ok [OF assms(1)] by blast
  then show thesis using owns_write [OF assms(2,3)] that by simp
qed

end

section \<open>The pool keeps that contract\<close>

lemma pool_live_dom:
  "dom (pool_heap P) = slot_ptr P ` {i. i < length (storage P) \<and> storage P ! i \<noteq> None}"
  if "pool_inv P"
proof -
  have "p \<in> dom (pool_heap P) \<Longrightarrow>
      p \<in> slot_ptr P ` {i. i < length (storage P) \<and> storage P ! i \<noteq> None}" for p
    by (auto simp: pool_heap_Some_iff image_iff)
  moreover have "slot_ptr P i \<in> dom (pool_heap P)"
    if "i < length (storage P)" "storage P ! i \<noteq> None" for i
    using that pool_heap_ptr [OF \<open>pool_inv P\<close> that(1)] by auto
  ultimately show ?thesis by blast
qed

lemma pool_avail_live:
  assumes "pool_inv P"
  shows "pool_available P + card (dom (pool_heap P)) = pool_capacity P"
proof -
  let ?live = "{i. i < length (storage P) \<and> storage P ! i \<noteq> None}"
  have "inj_on (slot_ptr P) ?live"
    by (rule inj_on_inverseI [where g = "slot_index P"]) (simp add: slot_index_ptr [OF assms])
  then have "card (dom (pool_heap P)) = card ?live"
    by (simp add: pool_live_dom [OF assms] card_image)
  moreover have "card (free_slots P) + card ?live = card (free_slots P \<union> ?live)"
    by (rule card_Un_disjoint [symmetric]) (auto simp: free_slots_def)
  moreover have "free_slots P \<union> ?live = {..<length (storage P)}" by (auto simp: free_slots_def)
  ultimately show ?thesis
    by (simp add: pool_available_def pool_capacity_def free_list_length [OF assms])
qed

lemma pool_allocate_ok:
  assumes inv: "pool_inv P" and avail: "pool_available P \<noteq> 0"
  obtains i P' where "i = last (free_list P)" and "i < length (storage P)" and "storage P ! i = None"
    and "pool_allocate v P = Inr (Some (slot_ptr P i), P')"
    and "pool_heap P' = (pool_heap P)(slot_ptr P i \<mapsto> v)" and "pool_inv P'"
    and "free_list P' = butlast (free_list P)" and "length (storage P') = length (storage P)"
proof -
  let ?i = "last (free_list P)"
  have ne: "free_list P \<noteq> []" using avail by (simp add: pool_available_def)
  then have split: "free_list P = butlast (free_list P) @ [?i]" by simp
  have i: "?i < length (storage P)" "storage P ! ?i = None"
    using last_in_set [OF ne] inv by (auto simp: pool_inv_def free_slots_def)
  define P' where "P' = P\<lparr>free_list := butlast (free_list P),
      in_use_flags := (in_use_flags P)[?i := True], alloc_count := alloc_count P + 1,
      storage := (storage P)[?i := Some v]\<rparr>"
  have run: "pool_allocate v P = Inr (Some (slot_ptr P ?i), P')"
    using ne i inv by (simp add: pool_allocate_def P'_def Let_def pool_inv_def)
  have heap: "pool_heap P' = (pool_heap P)(slot_ptr P ?i \<mapsto> v)"
    by (rule pool_heap_update [OF inv i(1)]) (simp_all add: P'_def pool_simps)
  have "length (storage P) - (length (free_list P) - 1) =
      Suc (length (storage P) - length (free_list P))"
    using ne free_list_le [OF inv] by (cases "free_list P") (simp_all add: Suc_diff_le)
  then have one_less: "of_nat (length (storage P) - (length (free_list P) - Suc 0)) =
      (of_nat (length (storage P) - length (free_list P)) + 1 :: u64)"
    by simp
  have d: "distinct (butlast (free_list P))" "?i \<notin> set (butlast (free_list P))"
    using inv split by (simp_all add: pool_inv_def distinct_butlast) (metis distinct_append not_distinct_conv_prefix distinct.simps(2) disjoint_iff list.set_intros(1))
  have s: "set (butlast (free_list P)) = free_slots P - {?i}"
    using inv d(2) arg_cong [OF split, of set] by (auto simp: pool_inv_def)
  have "free_slots P' = free_slots P - {?i}"
    using i by (auto simp: free_slots_def P'_def nth_list_update split: if_splits)
  moreover have "in_use_flags P' = map (\<lambda>x. x \<noteq> None) (storage P')"
    using inv by (simp add: P'_def pool_inv_def map_update)
  moreover have "alloc_count P' = dealloc_count P' +
      of_nat (length (storage P') - length (free_list P'))"
    using inv
    by (simp add: pool_inv_def P'_def one_less)
  ultimately have "pool_inv P'"
    using inv d s by (simp add: pool_inv_def) (simp add: P'_def)
  then show thesis by (rule that [OF refl i run heap]) (simp_all add: P'_def)
qed

lemma pool_deallocate_ok:
  assumes inv: "pool_inv P" and live: "pool_heap P p = Some v"
  obtains P' where "pool_deallocate (Some p) P = Inr P'"
    and "pool_heap P' = (pool_heap P)(p := None)" and "pool_inv P'"
    and "free_list P' = free_list P @ [slot_index P p]"
    and "length (storage P') = length (storage P)"
proof -
  let ?i = "slot_index P p"
  have i: "?i < length (storage P)" "slot_ptr P ?i = p" "storage P ! ?i = Some v"
    using live by (simp_all add: pool_heap_Some_iff)
  define P' where "P' = P\<lparr>storage := (storage P)[?i := None],
      in_use_flags := (in_use_flags P)[?i := False], free_list := free_list P @ [?i],
      dealloc_count := dealloc_count P + 1\<rparr>"
  have run: "pool_deallocate (Some p) P = Inr P'"
    using live i inv by (simp add: pool_deallocate_def P'_def Let_def pool_inv_def)
  have heap: "pool_heap P' = (pool_heap P)(p := None)"
    using pool_heap_update [OF inv i(1), of P' None] i(2) by (simp add: P'_def pool_simps)
  have new: "?i \<notin> set (free_list P)" using i inv by (simp add: pool_inv_def free_slots_def)
  have "card (insert ?i (free_slots P)) \<le> card {..<length (storage P)}"
    by (rule card_mono) (use i in \<open>auto simp: free_slots_def\<close>)
  then have lt: "length (free_list P) < length (storage P)"
    using new inv by (simp add: pool_inv_def free_list_length [OF inv])
  have "free_slots P' = insert ?i (free_slots P)"
    using i by (auto simp: free_slots_def P'_def nth_list_update split: if_splits)
  moreover have "in_use_flags P' = map (\<lambda>x. x \<noteq> None) (storage P')"
    using inv by (simp add: P'_def pool_inv_def map_update)
  moreover have "alloc_count P' = dealloc_count P' +
      of_nat (length (storage P') - length (free_list P'))"
    using inv lt by (simp add: pool_inv_def P'_def Suc_diff_Suc [symmetric])
  ultimately have "pool_inv P'"
    using inv new by (simp add: pool_inv_def) (simp add: P'_def)
  then show thesis by (rule that [OF run heap]) (simp_all add: P'_def)
qed

lemma pool_write_ok:
  assumes inv: "pool_inv P" and live: "pool_heap P p = Some v"
  obtains P' where "pool_write p w P = Inr P'" and "pool_heap P' = (pool_heap P)(p \<mapsto> w)"
    and "pool_inv P'" and "free_list P' = free_list P"
    and "length (storage P') = length (storage P)"
proof -
  let ?i = "slot_index P p"
  have i: "?i < length (storage P)" "slot_ptr P ?i = p" "storage P ! ?i = Some v"
    using live by (simp_all add: pool_heap_Some_iff)
  define P' where "P' = P\<lparr>storage := (storage P)[?i := Some w]\<rparr>"
  have run: "pool_write p w P = Inr P'" using live by (simp add: pool_write_def P'_def)
  have heap: "pool_heap P' = (pool_heap P)(p \<mapsto> w)"
    using pool_heap_update [OF inv i(1), of P' "Some w"] i(2) by (simp add: P'_def pool_simps)
  have "free_slots P' = free_slots P"
    using i by (auto simp: free_slots_def P'_def nth_list_update split: if_splits)
  moreover have "map (\<lambda>x. x \<noteq> None) (storage P') = map (\<lambda>x. x \<noteq> None) (storage P)"
    using i by (auto simp: P'_def nth_list_update intro!: nth_equalityI split: if_splits)
  ultimately have "pool_inv P'"
    using inv by (simp add: pool_inv_def) (simp add: P'_def)
  then show thesis by (rule that [OF run heap]) (simp_all add: P'_def)
qed

interpretation pool: allocator pool_allocate pool_deallocate pool_write pool_heap pool_available
  pool_capacity pool_inv
proof
  fix P :: "'a pool" and v w p
  show "pool_available P = 0 \<Longrightarrow> pool_allocate v P = Inr (None, P)"
    by (simp add: pool_available_def pool_allocate_def)
  assume inv: "pool_inv P"
  show "\<exists>p P'. pool_allocate v P = Inr (Some p, P') \<and>
      pool_heap P p = None \<and> pool_heap P' = (pool_heap P)(p \<mapsto> v) \<and> pool_inv P' \<and>
      pool_capacity P' = pool_capacity P" if "pool_available P \<noteq> 0"
    by (rule pool_allocate_ok [OF inv that, where v = v])
       (use pool_heap_ptr [OF inv] in \<open>force simp: pool_capacity_def\<close>)
  show "\<exists>P'. pool_deallocate (Some p) P = Inr P' \<and> pool_heap P' = (pool_heap P)(p := None) \<and>
      pool_inv P' \<and> pool_capacity P' = pool_capacity P" if "pool_heap P p = Some v"
    by (rule pool_deallocate_ok [OF inv that]) (auto simp: pool_capacity_def)
  show "\<exists>P'. pool_write p w P = Inr P' \<and> pool_heap P' = (pool_heap P)(p \<mapsto> w) \<and>
      pool_inv P' \<and> pool_capacity P' = pool_capacity P" if "pool_heap P p = Some v"
    by (rule pool_write_ok [OF inv that, where w = w]) (auto simp: pool_capacity_def)
  show "pool_available P + card (dom (pool_heap P)) = pool_capacity P"
    by (rule pool_avail_live [OF inv])
qed

section \<open>Properties\<close>

lemma destroy_from_ok:
  "flags = map (\<lambda>x. x \<noteq> None) (drop i slots) \<Longrightarrow> i \<le> length slots \<Longrightarrow>
   destroy_from i flags slots = Inr (take i slots @ replicate (length slots - i) None)"
proof (induction flags arbitrary: i slots)
  case Nil
  then show ?case by simp
next
  case (Cons used flags)
  from Cons.prems have i: "i < length slots" by (metis drop_all list.simps(8) neq_Nil_conv not_le)
  then have d: "drop i slots = slots ! i # drop (Suc i) slots" by (simp add: Cons_nth_drop_Suc)
  with Cons.prems have u: "used = (slots ! i \<noteq> None)"
    and f: "flags = map (\<lambda>x. x \<noteq> None) (drop (Suc i) slots)" by simp_all
  have rest: "length slots - i = Suc (length slots - Suc i)" using i by simp
  have tk: "take (Suc i) (slots[i := None]) = take i slots @ [None]"
    using i by (simp add: take_Suc_conv_app_nth)
  have same: "slots[i := None] = slots" if "slots ! i = None"
    using that by (metis list_update_id)
  have "destroy_from i (used # flags) slots = destroy_from (Suc i) flags (slots[i := None])"
    using i u same by auto
  also have "\<dots> = Inr (take (Suc i) (slots[i := None]) @
      replicate (length (slots[i := None]) - Suc i) None)"
    by (rule Cons.IH) (use i f in simp_all)
  finally show ?case by (simp add: tk rest)
qed

text \<open>The sample pool of the witnesses: two slots of 24 bytes.\<close>

lemma sample_pool_inv: "pool_inv (pool_new 4096 24 2 :: nat pool)"
  by (rule pool_inv_new) simp_all

text \<open>
  Property C36. Allocation from a pool with a free slot: it is defined, the address returned held no
  object before, afterwards it holds exactly the object constructed, every other address is as it
  was, one slot fewer is available and the allocation counter is one higher.
\<close>

theorem pool_allocate_spec:
  assumes "pool_inv P" and "pool_available P \<noteq> 0"
  shows "\<exists>p P'. pool_allocate v P = Inr (Some p, P') \<and> pool_heap P p = None \<and>
     pool_heap P' = (pool_heap P)(p \<mapsto> v) \<and> pool_inv P' \<and>
     pool_available P' = pool_available P - 1 \<and> pool_in_use P' = pool_in_use P + 1 \<and>
     alloc_count P' = alloc_count P + 1"
proof (rule pool_allocate_ok [OF assms, where v = v])
  fix i P'
  assume i: "i = last (free_list P)" "i < length (storage P)" "storage P ! i = None"
    and run: "pool_allocate v P = Inr (Some (slot_ptr P i), P')"
    and heap: "pool_heap P' = (pool_heap P)(slot_ptr P i \<mapsto> v)" and inv: "pool_inv P'"
    and fl: "free_list P' = butlast (free_list P)" and len: "length (storage P') = length (storage P)"
  have "alloc_count P' = alloc_count P + 1"
    using run by (auto simp: pool_allocate_def Let_def split: if_splits)
  moreover have "pool_heap P (slot_ptr P i) = None" using i pool_heap_ptr [OF assms(1)] by simp
  moreover have "length (storage P) - (length (free_list P) - Suc 0) =
      Suc (length (storage P) - length (free_list P))"
    using free_list_le [OF assms(1)] assms(2)
    by (cases "free_list P") (simp_all add: Suc_diff_le pool_available_def)
  ultimately show ?thesis
    using run heap inv fl len assms(2)
    by (intro exI [of _ "slot_ptr P i"] exI [of _ P'])
       (simp add: pool_available_def pool_in_use_def pool_capacity_def)
qed

theorem pool_allocate_spec_witness:
  "\<exists>p P'. pool_allocate 5 (pool_new 4096 24 2 :: nat pool) = Inr (Some p, P') \<and>
     pool_heap P' p = Some 5 \<and> pool_available P' = 1"
  using pool_allocate_spec [OF sample_pool_inv, of 5]
  by (auto simp: pool_available_def pool_new_def fill_free_list_eq)

text \<open>
  Recycling: giving a live object back is defined, its slot is the next one handed out,
  at the same address, and no other object moves.
\<close>

lemma pool_recycles:
  assumes "pool_inv P" and "pool_heap P p = Some v"
  shows "\<exists>P1 P2. pool_deallocate (Some p) P = Inr P1 \<and> pool_heap P1 = (pool_heap P)(p := None) \<and>
     pool_allocate w P1 = Inr (Some p, P2) \<and> pool_heap P2 = (pool_heap P)(p \<mapsto> w) \<and>
     pool_inv P2 \<and> pool_available P2 = pool_available P"
proof (rule pool_deallocate_ok [OF assms])
  fix P1
  assume P1: "pool_deallocate (Some p) P = Inr P1" "pool_heap P1 = (pool_heap P)(p := None)"
      "pool_inv P1" "free_list P1 = free_list P @ [slot_index P p]"
      "length (storage P1) = length (storage P)"
  have "slot_ptr P1 = slot_ptr P"
    using P1(1) by (auto simp: pool_deallocate_def Let_def pool_simps split: option.splits if_splits)
  moreover have "slot_ptr P (slot_index P p) = p" using assms(2) by (simp add: pool_heap_Some_iff)
  ultimately have last: "slot_ptr P1 (last (free_list P1)) = p" by (simp add: P1(4))
  show ?thesis
    by (rule pool_allocate_ok [OF P1(3), where v = w])
       (use P1 last in \<open>auto simp: pool_available_def intro!: exI [of _ P1]\<close>)
qed

text \<open>
  Property C37. The destructor destroys every live object exactly once: in a pool that keeps the
  invariant it never destroys a slot without an object, and no object is left.
\<close>

theorem pool_destroy_complete:
  assumes "pool_inv P"
  shows "pool_destroy P = Inr (replicate (pool_capacity P) None)"
  using assms destroy_from_ok [of "in_use_flags P" 0 "storage P"]
  by (simp add: pool_destroy_def pool_inv_def pool_capacity_def)

theorem pool_destroy_complete_witness:
  "pool_destroy (pool_new 4096 24 2 :: nat pool) = Inr [None, None]"
  using pool_destroy_complete [OF sample_pool_inv] by (simp add: pool_capacity_def pool_new_def
      numeral_2_eq_2)

end
