(* ===== verification/Pooled_Order_Book.thy ===== *)
theory Pooled_Order_Book
  imports Order_Book Object_Pool
begin

text \<open>
  The book of \<open>include/latency_lab/pooled_order_book.hpp\<close> and \<open>src/pooled_order_book.cpp\<close>:
  the orders live in an \<open>ObjectPool<Order>\<close> and the order map holds pointers to them, so every
  access to an order goes through the pool's heap, and an \<open>Add\<close> is dropped and counted when
  the pool is exhausted. \<open>handle_modify\<close> computes in \<open>std::int64_t\<close> and clamps at zero, so,
  unlike the baseline, it has no overflow; it agrees with the specification as long as the level's
  32-bit total has not wrapped.
\<close>

section \<open>State and operations\<close>

record pooled_book =
  pbids :: side_map
  pasks :: side_map
  porder_map :: "(u64, u64) entries"
  order_pool :: "order pool"
  pool_exhaustions :: u64

text \<open>\<open>sizeof(Order)\<close>: 8 + 8 + 4 + 1 bytes, padded to the alignment of 8.\<close>

definition order_bytes :: u64 where
  "order_bytes = 24"

definition pooled_new :: "u64 \<Rightarrow> nat \<Rightarrow> pooled_book" where
  "pooled_new base max_orders =
     \<lparr>pbids = [], pasks = [], porder_map = [], order_pool = pool_new base order_bytes max_orders,
      pool_exhaustions = 0\<rparr>"

subsection \<open>Add\<close>

definition pooled_add_to_level ::
  "(int64 \<Rightarrow> int64 \<Rightarrow> bool) \<Rightarrow> market_message \<Rightarrow> side_map \<Rightarrow> side_map" where
  "pooled_add_to_level lt msg side_map =
     (case entry_find side_map (msg_price msg) of
        Some lvl \<Rightarrow>
          entry_write (msg_price msg)
            (lvl\<lparr>lvl_order_ids := lvl_order_ids lvl @ [msg_order_id msg],
                 lvl_total_quantity := lvl_total_quantity lvl + msg_quantity msg\<rparr>) side_map
      | None \<Rightarrow>
          omap_emplace lt (msg_price msg)
            \<lparr>lvl_price = msg_price msg, lvl_order_ids = [msg_order_id msg],
             lvl_total_quantity = msg_quantity msg\<rparr> side_map)"

definition pooled_handle_add :: "pooled_book \<Rightarrow> market_message \<Rightarrow> pooled_book cpp" where
  "pooled_handle_add b msg =
     (case entry_find (porder_map b) (msg_order_id msg) of
        Some _ \<Rightarrow> Inr b
      | None \<Rightarrow>
          cpp_bind
            (pool_allocate \<lparr>ord_order_id = msg_order_id msg, ord_price = msg_price msg,
               ord_quantity = msg_quantity msg, ord_side = msg_side msg\<rparr> (order_pool b))
            (\<lambda>(order, pool).
              case order of
                None \<Rightarrow> Inr (b\<lparr>order_pool := pool, pool_exhaustions := pool_exhaustions b + 1\<rparr>)
              | Some p \<Rightarrow>
                  (let b1 = b\<lparr>order_pool := pool,
                              porder_map := umap_emplace (msg_order_id msg) p (porder_map b)\<rparr>
                   in Inr (if msg_side msg = Buy
                           then b1\<lparr>pbids := pooled_add_to_level cmp_greater msg (pbids b1)\<rparr>
                           else b1\<lparr>pasks := pooled_add_to_level cmp_less msg (pasks b1)\<rparr>))))"

subsection \<open>Modify\<close>

text \<open>The new total: 64-bit signed arithmetic on 32-bit values cannot overflow.\<close>

definition clamped_total :: "u32 \<Rightarrow> u32 \<Rightarrow> u32 \<Rightarrow> u32" where
  "clamped_total level_total new old =
     (let qty_delta = uint new - uint old;
          updated_quantity = uint level_total + qty_delta
      in if updated_quantity > 0 then word_of_int updated_quantity else 0)"

definition pooled_modify_level ::
  "market_message \<Rightarrow> u64 \<Rightarrow> order \<Rightarrow> order pool \<Rightarrow> side_map \<Rightarrow> (side_map \<times> order pool) cpp" where
  "pooled_modify_level msg p order pool side_map =
     (case entry_find side_map (ord_price order) of
        None \<Rightarrow> Inr (side_map, pool)
      | Some lvl \<Rightarrow>
          cpp_map
            (\<lambda>pool'. (entry_write (ord_price order)
                        (lvl\<lparr>lvl_total_quantity := clamped_total (lvl_total_quantity lvl)
                               (msg_quantity msg) (ord_quantity order)\<rparr>) side_map, pool'))
            (pool_write p (order\<lparr>ord_quantity := msg_quantity msg\<rparr>) pool))"

definition pooled_handle_modify :: "pooled_book \<Rightarrow> market_message \<Rightarrow> pooled_book cpp" where
  "pooled_handle_modify b msg =
     (case entry_find (porder_map b) (msg_order_id msg) of
        None \<Rightarrow> Inr b
      | Some p \<Rightarrow>
          cpp_bind (pool_deref (order_pool b) p) (\<lambda>order.
            if ord_side order = Buy
            then cpp_map (\<lambda>(m, pool). b\<lparr>pbids := m, order_pool := pool\<rparr>)
                   (pooled_modify_level msg p order (order_pool b) (pbids b))
            else cpp_map (\<lambda>(m, pool). b\<lparr>pasks := m, order_pool := pool\<rparr>)
                   (pooled_modify_level msg p order (order_pool b) (pasks b))))"

subsection \<open>Cancel\<close>

definition pooled_cancel_level :: "market_message \<Rightarrow> order \<Rightarrow> side_map \<Rightarrow> side_map" where
  "pooled_cancel_level msg order side_map =
     (case entry_find side_map (ord_price order) of
        None \<Rightarrow> side_map
      | Some lvl \<Rightarrow>
          (let order_ids = remove1 (msg_order_id msg) (lvl_order_ids lvl);
               m = entry_write (ord_price order)
                     (lvl\<lparr>lvl_order_ids := order_ids,
                          lvl_total_quantity := lvl_total_quantity lvl - ord_quantity order\<rparr>)
                     side_map
           in if order_ids = [] then entry_erase (ord_price order) m else m))"

definition pooled_handle_cancel :: "pooled_book \<Rightarrow> market_message \<Rightarrow> pooled_book cpp" where
  "pooled_handle_cancel b msg =
     (case entry_find (porder_map b) (msg_order_id msg) of
        None \<Rightarrow> Inr b
      | Some p \<Rightarrow>
          cpp_bind (pool_deref (order_pool b) p) (\<lambda>order.
            let b1 = (if ord_side order = Buy
                      then b\<lparr>pbids := pooled_cancel_level msg order (pbids b)\<rparr>
                      else b\<lparr>pasks := pooled_cancel_level msg order (pasks b)\<rparr>);
                b2 = b1\<lparr>porder_map := entry_erase (msg_order_id msg) (porder_map b1)\<rparr>
            in cpp_map (\<lambda>pool. b2\<lparr>order_pool := pool\<rparr>)
                 (pool_deallocate (Some p) (order_pool b2))))"

subsection \<open>Trade\<close>

text \<open>
  The lambda writes \<open>order->quantity\<close> through the pointer, then, for a filled order, takes the
  order out of its level and of the order map and gives the slot back.
\<close>

definition pooled_trade_level ::
  "market_message \<Rightarrow> u64 \<Rightarrow> order \<Rightarrow> (u64, u64) entries \<Rightarrow> order pool \<Rightarrow> side_map \<Rightarrow>
   (side_map \<times> (u64, u64) entries \<times> order pool) cpp" where
  "pooled_trade_level msg p order om pool side_map =
     (case entry_find side_map (ord_price order) of
        None \<Rightarrow> Inr (side_map, om, pool)
      | Some lvl \<Rightarrow>
          (let trade_qty = min (msg_quantity msg) (ord_quantity order);
               lvl1 = lvl\<lparr>lvl_total_quantity := lvl_total_quantity lvl - trade_qty\<rparr>;
               order1 = order\<lparr>ord_quantity := ord_quantity order - trade_qty\<rparr>
           in cpp_bind (pool_write p order1 pool) (\<lambda>pool1.
                if ord_quantity order1 \<noteq> 0
                then Inr (entry_write (ord_price order) lvl1 side_map, om, pool1)
                else
                  (let order_ids = remove1 (msg_order_id msg) (lvl_order_ids lvl1);
                       m = entry_write (ord_price order) (lvl1\<lparr>lvl_order_ids := order_ids\<rparr>) side_map
                   in cpp_map
                        (\<lambda>pool2. (if order_ids = [] then entry_erase (ord_price order) m else m,
                                  entry_erase (msg_order_id msg) om, pool2))
                        (pool_deallocate (Some p) pool1)))))"

definition pooled_handle_trade :: "pooled_book \<Rightarrow> market_message \<Rightarrow> pooled_book cpp" where
  "pooled_handle_trade b msg =
     (case entry_find (porder_map b) (msg_order_id msg) of
        None \<Rightarrow> Inr b
      | Some p \<Rightarrow>
          cpp_bind (pool_deref (order_pool b) p) (\<lambda>order.
            if ord_side order = Buy
            then cpp_map (\<lambda>(m, om, pool). b\<lparr>pbids := m, porder_map := om, order_pool := pool\<rparr>)
                   (pooled_trade_level msg p order (porder_map b) (order_pool b) (pbids b))
            else cpp_map (\<lambda>(m, om, pool). b\<lparr>pasks := m, porder_map := om, order_pool := pool\<rparr>)
                   (pooled_trade_level msg p order (porder_map b) (order_pool b) (pasks b))))"

subsection \<open>Dispatch and queries\<close>

definition pooled_on_message :: "pooled_book \<Rightarrow> market_message \<Rightarrow> pooled_book cpp" where
  "pooled_on_message b msg =
     (case msg_type msg of
        Add \<Rightarrow> pooled_handle_add b msg
      | Modify \<Rightarrow> pooled_handle_modify b msg
      | Cancel \<Rightarrow> pooled_handle_cancel b msg
      | Trade \<Rightarrow> pooled_handle_trade b msg)"

definition pooled_best_bid :: "pooled_book \<Rightarrow> price_level option" where
  "pooled_best_bid b = map_option snd (omap_begin (pbids b))"

definition pooled_best_ask :: "pooled_book \<Rightarrow> price_level option" where
  "pooled_best_ask b = map_option snd (omap_begin (pasks b))"

definition pooled_total_orders :: "pooled_book \<Rightarrow> u64" where
  "pooled_total_orders b = of_nat (length (porder_map b))"

definition pooled_buy_side_levels :: "pooled_book \<Rightarrow> u32" where
  "pooled_buy_side_levels b = of_nat (length (pbids b))"

definition pooled_sell_side_levels :: "pooled_book \<Rightarrow> u32" where
  "pooled_sell_side_levels b = of_nat (length (pasks b))"

definition pool_allocations :: "pooled_book \<Rightarrow> u64" where
  "pool_allocations b = alloc_count (order_pool b)"

definition pool_deallocations :: "pooled_book \<Rightarrow> u64" where
  "pool_deallocations b = dealloc_count (order_pool b)"

definition pooled_available :: "pooled_book \<Rightarrow> nat" where
  "pooled_available b = pool_available (order_pool b)"

section \<open>Refinement\<close>

text \<open>
  The order map and the pool together hold the resting orders: the pointers are pairwise different
  and are exactly the live slots, and following them gives the order of each id.
\<close>

definition pool_rel :: "(u64, u64) entries \<Rightarrow> order pool \<Rightarrow> order list \<Rightarrow> bool" where
  "pool_rel om P os \<longleftrightarrow> ids_distinct os \<and> keys_distinct om \<and> pool_inv P \<and>
     owns (entry_find om) (pool_heap P) \<and>
     through (entry_find om) (pool_heap P) = (\<lambda>i. spec_find i os)"

definition pooled_rel :: "nat \<Rightarrow> pooled_book \<Rightarrow> order list \<Rightarrow> bool" where
  "pooled_rel cap b os \<longleftrightarrow> pool_rel (porder_map b) (order_pool b) os \<and>
     pool_capacity (order_pool b) = cap \<and>
     side_rel cmp_greater Buy (pbids b) os \<and> side_rel cmp_less Sell (pasks b) os"

lemma pool_relD:
  assumes "pool_rel om P os"
  shows "ids_distinct os" and "keys_distinct om" and "pool_inv P"
    and "owns (entry_find om) (pool_heap P)"
    and "through (entry_find om) (pool_heap P) i = spec_find i os"
  using assms by (simp_all add: pool_rel_def)

lemma pool_rel_dom: "pool_rel om P os \<Longrightarrow> dom (entry_find om) = ord_order_id ` set os"
  using owns_dom [of "entry_find om" "pool_heap P"] dom_spec_find [of os]
  by (simp add: pool_rel_def)

lemma pool_rel_None:
  "pool_rel om P os \<Longrightarrow> entry_find om i = None \<longleftrightarrow> spec_find i os = None"
  using pool_rel_dom [of om P os] by (metis domIff spec_find_None_iff)

lemma pool_rel_Some:
  assumes "pool_rel om P os" and "spec_find i os = Some r"
  obtains p where "entry_find om i = Some p" and "pool_heap P p = Some r"
proof -
  have "Option.bind (entry_find om i) (pool_heap P) = Some r"
    using pool_relD(5) [OF assms(1), of i] assms(2) by (simp add: through_def)
  then show thesis using that by (auto simp: bind_eq_Some_conv)
qed

lemma pool_rel_length:
  assumes "pool_rel om P os"
  shows "length om = length os" and "card (dom (entry_find om)) = length os"
proof -
  have "card (ord_order_id ` set os) = length os"
    using pool_relD(1) [OF assms] distinct_card [of "map ord_order_id os"]
    by (simp add: ids_distinct_def)
  then show "card (dom (entry_find om)) = length os" by (simp add: pool_rel_dom [OF assms])
  then show "length om = length os" by (simp add: size_entries [OF pool_relD(2) [OF assms]])
qed

lemma pool_rel_le:
  assumes "pool_rel om P os"
  shows "length os + pool_available P = pool_capacity P"
  using pool_rel_length(2) [OF assms] pool.avail_live [OF pool_relD(3) [OF assms]]
    owns_card [OF pool_relD(4) [OF assms]] by simp

lemma pool_rel_alloc:
  assumes "pool_rel om P os" and "spec_find (ord_order_id r) os = None"
    and "length os < pool_capacity P"
  obtains p P' where "pool_allocate r P = Inr (Some p, P')" and "pool_capacity P' = pool_capacity P"
    and "pool_rel (umap_emplace (ord_order_id r) p om) P' (os @ [r])"
proof -
  have none: "entry_find om (ord_order_id r) = None"
    using pool_rel_None [OF assms(1)] assms(2) by simp
  obtain p P' where a: "pool_allocate r P = Inr (Some p, P')" "pool_inv P'"
      "pool_capacity P' = pool_capacity P"
      "owns ((entry_find om)(ord_order_id r \<mapsto> p)) (pool_heap P')"
      "through ((entry_find om)(ord_order_id r \<mapsto> p)) (pool_heap P') =
       (through (entry_find om) (pool_heap P))(ord_order_id r \<mapsto> r)"
    by (rule pool.owned_alloc [of P "entry_find om" "ord_order_id r" r])
       (use assms none pool_rel_length(2) [OF assms(1)] in \<open>auto simp: pool_rel_def\<close>)
  have "pool_rel (umap_emplace (ord_order_id r) p om) P' (os @ [r])"
    using assms(1,2) a none
    by (auto simp: pool_rel_def entry_find_emplace keys_distinct_emplace fun_eq_iff
        spec_find_append split: option.split)
  with a show thesis by (intro that)
qed

lemma pool_rel_full:
  "pool_rel om P os \<Longrightarrow> length os = pool_capacity P \<Longrightarrow> pool_allocate r P = Inr (None, P)"
  using pool.alloc_full [of P r] pool_rel_le [of om P os] by (simp add: pool_relD(3))

lemma pool_rel_write:
  assumes "pool_rel om P os" and "entry_find om i = Some p" and "spec_find i os = Some r"
  obtains P' where "pool_write p (r\<lparr>ord_quantity := q\<rparr>) P = Inr P'"
    and "pool_capacity P' = pool_capacity P" and "pool_rel om P' (upd_order i q os)"
proof -
  obtain P' where a: "pool_write p (r\<lparr>ord_quantity := q\<rparr>) P = Inr P'" "pool_inv P'"
      "pool_capacity P' = pool_capacity P" "owns (entry_find om) (pool_heap P')"
      "through (entry_find om) (pool_heap P') =
       (through (entry_find om) (pool_heap P))(i \<mapsto> r\<lparr>ord_quantity := q\<rparr>)"
    by (rule pool.owned_write [of P "entry_find om" i p])
       (use assms in \<open>auto simp: pool_rel_def\<close>)
  have "pool_rel om P' (upd_order i q os)"
    using assms a by (auto simp: pool_rel_def fun_eq_iff spec_find_upd)
  with a show thesis by (intro that)
qed

lemma pool_rel_dealloc:
  assumes "pool_rel om P os" and "entry_find om i = Some p"
  obtains P' where "pool_deallocate (Some p) P = Inr P'"
    and "pool_capacity P' = pool_capacity P" and "pool_rel (entry_erase i om) P' (del_order i os)"
proof -
  obtain P' where a: "pool_deallocate (Some p) P = Inr P'" "pool_inv P'"
      "pool_capacity P' = pool_capacity P" "owns ((entry_find om)(i := None)) (pool_heap P')"
      "through ((entry_find om)(i := None)) (pool_heap P') =
       (through (entry_find om) (pool_heap P))(i := None)"
    by (rule pool.owned_dealloc [of P "entry_find om" i p])
       (use assms in \<open>auto simp: pool_rel_def\<close>)
  have "pool_rel (entry_erase i om) P' (del_order i os)"
    using assms a by (auto simp: pool_rel_def fun_eq_iff spec_find_del entry_find_erase
        keys_distinct_erase)
  with a show thesis by (intro that)
qed

text \<open>
  The clamp of \<open>handle_modify\<close> does nothing as long as the order's quantity is part of a total
  that has not wrapped.
\<close>

lemma clamped_total_eq:
  assumes "unat old \<le> unat level_total"
  shows "clamped_total level_total new old = level_total + (new - old)"
proof -
  let ?x = "uint level_total + (uint new - uint old)"
  have "uint old \<le> uint level_total" using assms by (simp add: word_le_nat_alt [symmetric] word_le_def)
  then have "0 \<le> ?x" using uint_ge_0 [of new] by linarith
  moreover have "word_of_int ?x = level_total + (new - old)" by simp
  ultimately show ?thesis
    by (cases "?x = 0") (simp_all add: clamped_total_def Let_def)
qed

definition unwrapped :: "order list \<Rightarrow> bool" where
  "unwrapped os \<longleftrightarrow> (\<forall>s p. depth s p os < 2 ^ 32)"

lemma shallow_unwrapped: "shallow os \<Longrightarrow> unwrapped os"
  unfolding shallow_def unwrapped_def
proof (intro allI)
  fix s p
  assume "\<forall>s p. depth s p os < 2 ^ 31"
  then have "depth s p os < 2 ^ 31" by blast
  also have "(2 ^ 31 :: nat) < 2 ^ 32" by simp
  finally show "depth s p os < 2 ^ 32" .
qed

lemma pooled_add_to_level_eq: "pooled_add_to_level = add_to_level"
  by (simp add: fun_eq_iff pooled_add_to_level_def add_to_level_def)

lemma pooled_cancel_level_eq: "pooled_cancel_level msg r m = fst (cancel_level msg r om m)"
  by (simp add: pooled_cancel_level_def cancel_level_def Let_def)

text \<open>
  The specification with a capacity: an \<open>Add\<close> of a new id to a full book is dropped.
\<close>

definition add_dropped :: "nat \<Rightarrow> order list \<Rightarrow> market_message \<Rightarrow> bool" where
  "add_dropped cap os msg \<longleftrightarrow> msg_type msg = Add \<and> spec_find (msg_order_id msg) os = None \<and> length os = cap"

definition spec_capped :: "nat \<Rightarrow> market_message \<Rightarrow> order list \<Rightarrow> order list" where
  "spec_capped cap msg os = (if add_dropped cap os msg then os else spec_message msg os)"

context side_book
begin

lemma pooled_modify_level_rel:
  assumes rel: "side_rel lt s m os" "pool_rel om P os" and unwrapped: "unwrapped os"
    and p: "entry_find om (msg_order_id msg) = Some p"
    and r: "spec_find (msg_order_id msg) os = Some r" "ord_side r = s"
  obtains m' P' where "pooled_modify_level msg p r P m = Inr (m', P')"
    and "side_rel lt s m' (upd_order (msg_order_id msg) (msg_quantity msg) os)"
    and "pool_rel om P' (upd_order (msg_order_id msg) (msg_quantity msg) os)"
    and "pool_capacity P' = pool_capacity P"
proof -
  obtain lvl where lvl: "entry_find m (ord_price r) = Some lvl"
      "level_of s (ord_price r) os = Some lvl"
    using rel(1) r by (rule rel_level)
  have "unat (lvl_total_quantity lvl) = depth s (ord_price r) os"
    by (rule level_total_unat [OF lvl(2)]) (use unwrapped in \<open>simp add: unwrapped_def\<close>)
  then have "unat (ord_quantity r) \<le> unat (lvl_total_quantity lvl)"
    using quantity_le_depth [of r os] spec_find_SomeD [OF r(1)] r(2) by simp
  note tot = clamped_total_eq [OF this, of "msg_quantity msg"]
  obtain P' where P': "pool_write p (r\<lparr>ord_quantity := msg_quantity msg\<rparr>) P = Inr P'"
      "pool_capacity P' = pool_capacity P"
      "pool_rel om P' (upd_order (msg_order_id msg) (msg_quantity msg) os)"
    using rel(2) p r(1) by (rule pool_rel_write)
  show thesis
    by (rule that [OF _ rel_upd [OF rel(1) pool_relD(1) [OF rel(2)] r lvl(1)] P'(3,2)])
       (simp add: pooled_modify_level_def lvl P'(1) tot)
qed

lemma pooled_cancel_level_rel:
  assumes "side_rel lt s m os" and "ids_distinct os"
    and r: "spec_find (msg_order_id msg) os = Some r" "ord_side r = s"
  shows "side_rel lt s (pooled_cancel_level msg r m) (del_order (msg_order_id msg) os)"
proof -
  obtain lvl where lvl: "entry_find m (ord_price r) = Some lvl"
    using assms(1) r by (rule rel_level)
  show ?thesis
    using rel_del [OF assms(1,2) r lvl] by (simp add: pooled_cancel_level_def lvl Let_def)
qed

lemma pooled_trade_level_rel:
  assumes rel: "side_rel lt s m os" "pool_rel om P os"
    and p: "entry_find om (msg_order_id msg) = Some p"
    and r: "spec_find (msg_order_id msg) os = Some r" "ord_side r = s"
  defines "os' \<equiv> (if ord_quantity r \<le> msg_quantity msg then del_order (msg_order_id msg) os
      else upd_order (msg_order_id msg) (ord_quantity r - msg_quantity msg) os)"
  obtains m' om' P' where "pooled_trade_level msg p r om P m = Inr (m', om', P')"
    and "side_rel lt s m' os'" and "pool_rel om' P' os'" and "pool_capacity P' = pool_capacity P"
proof -
  obtain lvl where lvl: "entry_find m (ord_price r) = Some lvl"
    using rel(1) r by (rule rel_level)
  note d = pool_relD(1) [OF rel(2)]
  let ?i = "msg_order_id msg" and ?q = "ord_quantity r - min (msg_quantity msg) (ord_quantity r)"
  obtain P1 where P1: "pool_write p (r\<lparr>ord_quantity := ?q\<rparr>) P = Inr P1"
      "pool_capacity P1 = pool_capacity P" "pool_rel om P1 (upd_order ?i ?q os)"
    using rel(2) p r(1) by (rule pool_rel_write)
  show thesis
  proof (cases "ord_quantity r \<le> msg_quantity msg")
    case False
    then have q: "?q = ord_quantity r - msg_quantity msg" "?q \<noteq> 0" by (auto simp: min_def not_le)
    show thesis
      by (rule that [OF _ _ _ P1(2), where om' = om and m' = "entry_write (ord_price r)
            (lvl\<lparr>lvl_total_quantity := lvl_total_quantity lvl - msg_quantity msg\<rparr>) m"])
         (use False P1 q rel_upd [OF rel(1) d r lvl, of ?q] in
           \<open>auto simp: pooled_trade_level_def lvl os'_def min_def not_le\<close>)
  next
    case True
    then have q: "?q = 0" "min (msg_quantity msg) (ord_quantity r) = ord_quantity r"
      by (simp_all add: min_def)
    obtain P2 where P2: "pool_deallocate (Some p) P1 = Inr P2"
        "pool_capacity P2 = pool_capacity P1"
        "pool_rel (entry_erase ?i om) P2 (del_order ?i (upd_order ?i ?q os))"
      using P1(3) p by (rule pool_rel_dealloc)
    have del: "del_order ?i (upd_order ?i ?q os) = del_order ?i os"
      by (induction os) (auto simp: upd_order_def del_order_def)
    have os': "os' = del_order ?i os" using True by (simp add: os'_def)
    show thesis
      by (rule that [OF _ rel_del [OF rel(1) d r lvl, folded os'], where P' = P2
            and om' = "entry_erase ?i om"])
         (use P1 P2 q del os' in
           \<open>simp_all add: pooled_trade_level_def lvl lvl_update_commute Let_def\<close>)
  qed
qed

end

section \<open>The handlers refine the specification with a capacity\<close>

lemma pooled_relD:
  assumes "pooled_rel cap b os"
  shows "pool_rel (porder_map b) (order_pool b) os" and "pool_capacity (order_pool b) = cap"
    and "side_rel cmp_greater Buy (pbids b) os" and "side_rel cmp_less Sell (pasks b) os"
    and "ids_distinct os"
    and "entry_find (porder_map b) i = None \<longleftrightarrow> spec_find i os = None"
  using assms pool_rel_None by (auto simp: pooled_rel_def pool_rel_def)

lemma pooled_handle_add_fresh:
  "entry_find (porder_map b) (msg_order_id msg) = None \<Longrightarrow>
   pool_allocate (new_order msg) (order_pool b) = Inr (Some p, pool) \<Longrightarrow>
   pooled_handle_add b msg =
     (let b1 = b\<lparr>order_pool := pool, porder_map := umap_emplace (msg_order_id msg) p (porder_map b)\<rparr>
      in Inr (if msg_side msg = Buy then b1\<lparr>pbids := add_to_level cmp_greater msg (pbids b1)\<rparr>
              else b1\<lparr>pasks := add_to_level cmp_less msg (pasks b1)\<rparr>))"
  by (simp add: pooled_handle_add_def new_order_def pooled_add_to_level_eq Let_def)

lemma pooled_handle_add_full:
  "entry_find (porder_map b) (msg_order_id msg) = None \<Longrightarrow>
   pool_allocate (new_order msg) (order_pool b) = Inr (None, order_pool b) \<Longrightarrow>
   pooled_handle_add b msg = Inr (b\<lparr>pool_exhaustions := pool_exhaustions b + 1\<rparr>)"
  by (simp add: pooled_handle_add_def new_order_def)

definition pooled_result ::
  "nat \<Rightarrow> pooled_book \<Rightarrow> market_message \<Rightarrow> order list \<Rightarrow> pooled_book cpp \<Rightarrow> bool" where
  "pooled_result cap b msg os x \<longleftrightarrow>
     (\<exists>b'. x = Inr b' \<and> pooled_rel cap b' (spec_capped cap msg os) \<and>
        pool_exhaustions b' = pool_exhaustions b + (if add_dropped cap os msg then 1 else 0))"

lemma pooled_handle_add_rel:
  assumes "pooled_rel cap b os" and "msg_type msg = Add"
  shows "pooled_result cap b msg os (pooled_handle_add b msg)"
proof (cases "spec_find (msg_order_id msg) os")
  case (Some r)
  then obtain p where "entry_find (porder_map b) (msg_order_id msg) = Some p"
    using pool_rel_Some [OF pooled_relD(1) [OF assms(1)]] by blast
  with assms Some show ?thesis
    by (simp add: pooled_result_def pooled_handle_add_def spec_capped_def add_dropped_def spec_message_def)
next
  case None
  note rel = pooled_relD(1,3,4) [OF assms(1)] and cap = pooled_relD(2) [OF assms(1)]
  have fresh: "entry_find (porder_map b) (msg_order_id msg) = None"
    using None pooled_relD(6) [OF assms(1)] by simp
  show ?thesis
  proof (cases "length os = cap")
    case True
    have "pool_allocate (new_order msg) (order_pool b) = Inr (None, order_pool b)"
      using rel(1) by (rule pool_rel_full) (simp add: cap True)
    with True None fresh assms show ?thesis
      by (simp add: pooled_handle_add_full pooled_result_def spec_capped_def add_dropped_def pooled_rel_def)
  next
    case False
    then have "length os < pool_capacity (order_pool b)"
      using pool_rel_le [OF rel(1)] cap by linarith
    with None obtain p P where P: "pool_allocate (new_order msg) (order_pool b) = Inr (Some p, P)"
        "pool_capacity P = cap"
        "pool_rel (umap_emplace (msg_order_id msg) p (porder_map b)) P (os @ [new_order msg])"
      using pool_rel_alloc [OF rel(1), of "new_order msg"] cap by auto
    have spec: "spec_capped cap msg os = os @ [new_order msg]" "\<not> add_dropped cap os msg"
      using None False assms(2) by (simp_all add: spec_capped_def add_dropped_def spec_message_def)
    show ?thesis
      using rel P by (cases "msg_side msg")
        (auto simp: pooled_result_def spec pooled_handle_add_fresh [OF fresh P(1)] Let_def
          pooled_rel_def intro: bid_side.rel_add ask_side.rel_add bid_side.rel_add_other
          ask_side.rel_add_other)
  qed
qed

lemma pooled_other_spec:
  assumes "msg_type msg \<noteq> Add"
  shows "spec_capped cap msg os = spec_message msg os" and "\<not> add_dropped cap os msg"
  using assms by (simp_all add: spec_capped_def add_dropped_def)

lemma pooled_handle_modify_rel:
  assumes "pooled_rel cap b os" and "unwrapped os" and "msg_type msg = Modify"
  shows "pooled_result cap b msg os (pooled_handle_modify b msg)"
proof (cases "spec_find (msg_order_id msg) os")
  case None
  with assms pooled_relD(6) [OF assms(1), of "msg_order_id msg"] show ?thesis
    by (simp add: pooled_result_def pooled_handle_modify_def pooled_other_spec spec_message_def
        upd_absent)
next
  case (Some r)
  note rel = pooled_relD(1,3,4,5) [OF assms(1)] and cap = pooled_relD(2) [OF assms(1)]
  obtain p where p: "entry_find (porder_map b) (msg_order_id msg) = Some p"
      "pool_heap (order_pool b) p = Some r"
    using pool_rel_Some [OF rel(1) Some] .
  have other: "spec_capped cap msg os = upd_order (msg_order_id msg) (msg_quantity msg) os"
      "\<not> add_dropped cap os msg"
    using assms(3) by (simp_all add: pooled_other_spec spec_message_def)
  show ?thesis
  proof (cases "ord_side r")
    case Buy
    show ?thesis
      by (rule bid_side.pooled_modify_level_rel [OF rel(2,1) assms(2) p(1) Some Buy])
         (use p rel Buy cap bid_side.rel_upd_other ask_side.rel_upd_other Some in
           \<open>auto simp: pooled_result_def pooled_handle_modify_def pool_deref_def other
             pooled_rel_def\<close>)
  next
    case Sell
    show ?thesis
      by (rule ask_side.pooled_modify_level_rel [OF rel(3,1) assms(2) p(1) Some Sell])
         (use p rel Sell cap bid_side.rel_upd_other ask_side.rel_upd_other Some in
           \<open>auto simp: pooled_result_def pooled_handle_modify_def pool_deref_def other
             pooled_rel_def\<close>)
  qed
qed

lemma pooled_handle_cancel_rel:
  assumes "pooled_rel cap b os" and "msg_type msg = Cancel"
  shows "pooled_result cap b msg os (pooled_handle_cancel b msg)"
proof (cases "spec_find (msg_order_id msg) os")
  case None
  with assms pooled_relD(6) [OF assms(1), of "msg_order_id msg"] show ?thesis
    by (simp add: pooled_result_def pooled_handle_cancel_def pooled_other_spec spec_message_def
        del_absent)
next
  case (Some r)
  note rel = pooled_relD(1,3,4,5) [OF assms(1)] and cap = pooled_relD(2) [OF assms(1)]
  obtain p where p: "entry_find (porder_map b) (msg_order_id msg) = Some p"
      "pool_heap (order_pool b) p = Some r"
    using pool_rel_Some [OF rel(1) Some] .
  have other: "spec_capped cap msg os = del_order (msg_order_id msg) os" "\<not> add_dropped cap os msg"
    using assms(2) by (simp_all add: pooled_other_spec spec_message_def)
  show ?thesis
    by (rule pool_rel_dealloc [OF rel(1) p(1)], cases "ord_side r")
       (use p rel cap Some bid_side.rel_del_other ask_side.rel_del_other
          bid_side.pooled_cancel_level_rel [OF rel(2,4) Some]
          ask_side.pooled_cancel_level_rel [OF rel(3,4) Some] in
         \<open>auto simp: pooled_result_def pooled_handle_cancel_def pool_deref_def other
           pooled_rel_def Let_def\<close>)
qed

lemma pooled_handle_trade_rel:
  assumes "pooled_rel cap b os" and "msg_type msg = Trade"
  shows "pooled_result cap b msg os (pooled_handle_trade b msg)"
proof (cases "spec_find (msg_order_id msg) os")
  case None
  with assms pooled_relD(6) [OF assms(1), of "msg_order_id msg"] show ?thesis
    by (simp add: pooled_result_def pooled_handle_trade_def pooled_other_spec spec_message_def)
next
  case (Some r)
  note rel = pooled_relD(1,3,4,5) [OF assms(1)] and cap = pooled_relD(2) [OF assms(1)]
  obtain p where p: "entry_find (porder_map b) (msg_order_id msg) = Some p"
      "pool_heap (order_pool b) p = Some r"
    using pool_rel_Some [OF rel(1) Some] .
  have other: "spec_capped cap msg os =
        (if ord_quantity r \<le> msg_quantity msg then del_order (msg_order_id msg) os
         else upd_order (msg_order_id msg) (ord_quantity r - msg_quantity msg) os)"
      "\<not> add_dropped cap os msg"
    using assms(2) Some by (simp_all add: pooled_other_spec spec_message_def)
  note frame = bid_side.rel_upd_other ask_side.rel_upd_other
    bid_side.rel_del_other ask_side.rel_del_other
  show ?thesis
  proof (cases "ord_side r")
    case Buy
    show ?thesis
      by (rule bid_side.pooled_trade_level_rel [OF rel(2,1) p(1) Some Buy])
         (use p rel Buy cap frame Some in
           \<open>auto simp: pooled_result_def pooled_handle_trade_def pool_deref_def other
             pooled_rel_def split: if_splits\<close>)
  next
    case Sell
    show ?thesis
      by (rule ask_side.pooled_trade_level_rel [OF rel(3,1) p(1) Some Sell])
         (use p rel Sell cap frame Some in
           \<open>auto simp: pooled_result_def pooled_handle_trade_def pool_deref_def other
             pooled_rel_def split: if_splits\<close>)
  qed
qed

lemma pooled_on_message_rel:
  "pooled_rel cap b os \<Longrightarrow> unwrapped os \<Longrightarrow> pooled_result cap b msg os (pooled_on_message b msg)"
  by (cases "msg_type msg")
     (auto simp: pooled_on_message_def intro: pooled_handle_add_rel pooled_handle_modify_rel
       pooled_handle_cancel_rel pooled_handle_trade_rel)

lemma pooled_rel_new:
  assumes "n * 24 < 2 ^ 64"
  shows "pooled_rel n (pooled_new base n) []"
proof -
  have inv: "pool_inv (pool_new base order_bytes n :: order pool)"
    using assms by (intro pool_inv_new) (simp_all add: order_bytes_def)
  have "pool_available (pool_new base order_bytes n :: order pool) = n"
    and c: "pool_capacity (pool_new base order_bytes n :: order pool) = n"
    by (simp_all add: pool_available_def pool_capacity_def pool_new_def fill_free_list_eq)
  have h: "pool_heap (pool_new base order_bytes n :: order pool) = Map.empty"
    by (simp add: fun_eq_iff pool_heap_def pool_new_def Let_def)
  have "through Map.empty Map.empty = (\<lambda>i :: u64. None :: order option)"
    by (simp add: fun_eq_iff through_def)
  then show ?thesis
    using inv c h bid_side.rel_Nil ask_side.rel_Nil
    by (simp add: pooled_rel_def pooled_new_def pool_rel_def owns_def)
qed

definition pooled_ok :: "nat \<Rightarrow> order list \<Rightarrow> market_message \<Rightarrow> bool" where
  "pooled_ok cap os msg \<longleftrightarrow> unwrapped os \<and> \<not> add_dropped cap os msg"

interpretation pooled: book pooled_on_message pooled_best_bid pooled_best_ask
  pooled_total_orders pooled_buy_side_levels pooled_sell_side_levels "pooled_rel cap" "pooled_ok cap"
  for cap
proof
  fix b os msg
  show "pooled_rel cap b os \<Longrightarrow> pooled_ok cap os msg \<Longrightarrow>
      \<exists>b'. pooled_on_message b msg = Inr b' \<and> pooled_rel cap b' (spec_message msg os)"
    using pooled_on_message_rel [of cap b os msg]
    by (auto simp: pooled_ok_def pooled_result_def spec_capped_def)
  assume rel: "pooled_rel cap b os"
  note d = pooled_relD(1,3,4) [OF rel]
  show "pooled_best_bid b = spec_best Buy os"
    using d by (simp add: pooled_best_bid_def bid_side.rel_begin)
  show "pooled_best_ask b = spec_best Sell os"
    using d by (simp add: pooled_best_ask_def ask_side.rel_begin)
  show "pooled_total_orders b = of_nat (length os)"
    using d by (simp add: pooled_total_orders_def pool_rel_length)
  show "pooled_buy_side_levels b = of_nat (card (prices_of Buy os))"
    using d by (simp add: pooled_buy_side_levels_def bid_side.rel_length)
  show "pooled_sell_side_levels b = of_nat (card (prices_of Sell os))"
    using d by (simp add: pooled_sell_side_levels_def ask_side.rel_length)
qed

interpretation two_books: book_pair on_message best_bid best_ask total_orders buy_side_levels
  sell_side_levels book_rel shallow_step pooled_on_message pooled_best_bid pooled_best_ask
  pooled_total_orders pooled_buy_side_levels pooled_sell_side_levels "pooled_rel cap" "pooled_ok cap"
  for cap
  by unfold_locales

lemma pooled_feed_exhaustions:
  "pooled_rel cap b os \<Longrightarrow> stream_ok (pooled_ok cap) msgs os \<Longrightarrow>
   \<exists>b'. feed pooled_on_message msgs b = Inr b' \<and> pool_exhaustions b' = pool_exhaustions b"
proof (induction msgs arbitrary: b os)
  case (Cons msg msgs)
  then have ok: "unwrapped os" "\<not> add_dropped cap os msg" by (simp_all add: pooled_ok_def)
  then obtain b1 where "pooled_on_message b msg = Inr b1" "pooled_rel cap b1 (spec_message msg os)"
      "pool_exhaustions b1 = pool_exhaustions b"
    using pooled_on_message_rel [OF Cons.prems(1) ok(1), of msg]
    by (auto simp: pooled_result_def spec_capped_def)
  with Cons.IH Cons.prems(2) show ?case by fastforce
qed simp

section \<open>Memory safety without assumptions on the stream\<close>

text \<open>
  What holds of the pool and the order map alone, whatever the messages and however the level totals
  have wrapped.
\<close>

definition memory_ok :: "nat \<Rightarrow> pooled_book \<Rightarrow> bool" where
  "memory_ok cap b \<longleftrightarrow>
     (\<exists>os. pool_rel (porder_map b) (order_pool b) os) \<and> pool_capacity (order_pool b) = cap"

lemma memory_okE:
  assumes "memory_ok cap b" and "entry_find (porder_map b) i = Some p"
  obtains os r where "pool_rel (porder_map b) (order_pool b) os" and "spec_find i os = Some r"
    and "pool_deref (order_pool b) p = Inr r" and "pool_capacity (order_pool b) = cap"
proof -
  from assms(1) obtain os where rel: "pool_rel (porder_map b) (order_pool b) os"
      and cap: "pool_capacity (order_pool b) = cap"
    by (auto simp: memory_ok_def)
  then obtain r where r: "spec_find i os = Some r"
    using assms(2) pool_rel_None [OF rel, of i] by (cases "spec_find i os") auto
  obtain p' where "entry_find (porder_map b) i = Some p'" "pool_heap (order_pool b) p' = Some r"
    using pool_rel_Some [OF rel r] .
  with assms(2) have "pool_deref (order_pool b) p = Inr r" by (simp add: pool_deref_def)
  with rel r cap show thesis by (intro that)
qed

lemma pooled_modify_level_memory:
  assumes "pool_rel om P os" and "entry_find om (msg_order_id msg) = Some p"
    and "spec_find (msg_order_id msg) os = Some r"
  obtains m' P' os' where "pooled_modify_level msg p r P m = Inr (m', P')" and "pool_rel om P' os'"
    and "pool_capacity P' = pool_capacity P"
proof (cases "entry_find m (ord_price r)")
  case None
  then show thesis using assms(1) by (intro that) (simp_all add: pooled_modify_level_def)
next
  case (Some lvl)
  obtain P' where "pool_write p (r\<lparr>ord_quantity := msg_quantity msg\<rparr>) P = Inr P'"
      "pool_capacity P' = pool_capacity P"
      "pool_rel om P' (upd_order (msg_order_id msg) (msg_quantity msg) os)"
    using assms by (rule pool_rel_write)
  note P' = this
  show thesis by (rule that [OF _ P'(3,2)]) (simp add: pooled_modify_level_def Some P'(1))
qed

lemma pooled_trade_level_memory:
  assumes "pool_rel om P os" and "entry_find om (msg_order_id msg) = Some p"
    and "spec_find (msg_order_id msg) os = Some r"
  obtains m' om' P' os' where "pooled_trade_level msg p r om P m = Inr (m', om', P')"
    and "pool_rel om' P' os'" and "pool_capacity P' = pool_capacity P"
proof (cases "entry_find m (ord_price r)")
  case None
  then show thesis using assms(1) by (intro that) (simp_all add: pooled_trade_level_def)
next
  case (Some lvl)
  let ?q = "ord_quantity r - min (msg_quantity msg) (ord_quantity r)"
  obtain P1 where P1: "pool_write p (r\<lparr>ord_quantity := ?q\<rparr>) P = Inr P1"
      "pool_capacity P1 = pool_capacity P"
      "pool_rel om P1 (upd_order (msg_order_id msg) ?q os)"
    using assms by (rule pool_rel_write)
  obtain P2 os2 where P2: "pool_deallocate (Some p) P1 = Inr P2"
      "pool_capacity P2 = pool_capacity P1" "pool_rel (entry_erase (msg_order_id msg) om) P2 os2"
    using P1(3) assms(2) by (rule pool_rel_dealloc)
  show thesis
  proof (cases "?q = 0")
    case True
    with P1 P2 show thesis
      by (intro that [OF _ P2(3)]) (simp_all add: pooled_trade_level_def Let_def Some)
  next
    case False
    with P1 show thesis
      by (intro that [OF _ P1(3,2)]) (simp add: pooled_trade_level_def Let_def Some)
  qed
qed

lemma pooled_handle_add_memory:
  assumes "memory_ok cap b"
  shows "\<exists>b'. pooled_handle_add b msg = Inr b' \<and> memory_ok cap b'"
proof (cases "entry_find (porder_map b) (msg_order_id msg)")
  case (Some p)
  with assms show ?thesis by (simp add: pooled_handle_add_def)
next
  case None
  from assms obtain os where rel: "pool_rel (porder_map b) (order_pool b) os"
      and cap: "pool_capacity (order_pool b) = cap"
    by (auto simp: memory_ok_def)
  have fresh: "spec_find (ord_order_id (new_order msg)) os = None"
    using None pool_rel_None [OF rel] by simp
  show ?thesis
  proof (cases "length os = cap")
    case True
    then have "pool_allocate (new_order msg) (order_pool b) = Inr (None, order_pool b)"
      using rel cap by (intro pool_rel_full) simp_all
    with None assms show ?thesis by (simp add: pooled_handle_add_full memory_ok_def)
  next
    case False
    then have "length os < pool_capacity (order_pool b)"
      using pool_rel_le [OF rel] cap by linarith
    with rel fresh obtain p P where "pool_allocate (new_order msg) (order_pool b) = Inr (Some p, P)"
        "pool_capacity P = cap"
        "pool_rel (umap_emplace (msg_order_id msg) p (porder_map b)) P (os @ [new_order msg])"
      using pool_rel_alloc [of "porder_map b" "order_pool b" os "new_order msg"] cap by auto
    then show ?thesis using None
      by (auto simp: pooled_handle_add_fresh Let_def memory_ok_def)
  qed
qed

lemma pooled_on_message_memory:
  assumes "memory_ok cap b"
  shows "\<exists>b'. pooled_on_message b msg = Inr b' \<and> memory_ok cap b'"
proof (cases "entry_find (porder_map b) (msg_order_id msg)")
  case None
  with assms pooled_handle_add_memory [OF assms, of msg] show ?thesis
    by (cases "msg_type msg")
       (simp_all add: pooled_on_message_def pooled_handle_modify_def pooled_handle_cancel_def
         pooled_handle_trade_def)
next
  case (Some p)
  obtain os r where rel: "pool_rel (porder_map b) (order_pool b) os"
      and r: "spec_find (msg_order_id msg) os = Some r"
      and deref: "pool_deref (order_pool b) p = Inr r" and cap: "pool_capacity (order_pool b) = cap"
    using assms Some by (rule memory_okE)
  note simps = pooled_on_message_def Some deref memory_ok_def cap
  show ?thesis
  proof (cases "msg_type msg")
    case Add
    with pooled_handle_add_memory [OF assms, of msg] show ?thesis
      by (simp add: pooled_on_message_def)
  next
    case Modify
    have "\<exists>m' P' os'. pooled_modify_level msg p r (order_pool b) m = Inr (m', P') \<and>
        pool_rel (porder_map b) P' os' \<and> pool_capacity P' = pool_capacity (order_pool b)" for m
      using pooled_modify_level_memory [OF rel Some r, of m] by blast
    from this [of "pbids b"] this [of "pasks b"] Modify show ?thesis
      by (auto simp: simps pooled_handle_modify_def)
  next
    case Cancel
    show ?thesis
      by (rule pool_rel_dealloc [OF rel Some])
         (use Cancel in \<open>auto simp: simps pooled_handle_cancel_def Let_def\<close>)
  next
    case Trade
    define m where "m = (if ord_side r = Buy then pbids b else pasks b)"
    obtain m' om' P' os' where t: "pooled_trade_level msg p r (porder_map b) (order_pool b) m =
          Inr (m', om', P')" "pool_rel om' P' os'" "pool_capacity P' = pool_capacity (order_pool b)"
      using rel Some r by (rule pooled_trade_level_memory)
    then have "\<exists>b'. pooled_on_message b msg = Inr b' \<and> porder_map b' = om' \<and> order_pool b' = P'"
      using Trade deref Some
      by (cases "ord_side r")
         (simp_all add: pooled_on_message_def pooled_handle_trade_def m_def)
    with t(2,3) cap show ?thesis unfolding memory_ok_def by auto
  qed
qed

lemma memory_ok_new: "n * 24 < 2 ^ 64 \<Longrightarrow> memory_ok n (pooled_new base n)"
  using pooled_rel_new [of n base] by (auto simp: memory_ok_def pooled_rel_def)

lemma feed_pooled_memory:
  "memory_ok cap b \<Longrightarrow> \<exists>b'. feed pooled_on_message msgs b = Inr b' \<and> memory_ok cap b'"
proof (induction msgs arbitrary: b)
  case (Cons msg msgs)
  obtain b1 where "pooled_on_message b msg = Inr b1" "memory_ok cap b1"
    using pooled_on_message_memory [OF Cons.prems] by blast
  with Cons.IH show ?case by simp
qed simp

lemma memory_ok_counts:
  assumes "memory_ok cap b"
  shows "pool_allocations b = pool_deallocations b + pooled_total_orders b"
    and "pooled_available b + length (porder_map b) = cap"
proof -
  obtain os where rel: "pool_rel (porder_map b) (order_pool b) os"
      and cap: "pool_capacity (order_pool b) = cap"
    using assms by (auto simp: memory_ok_def)
  note len = pool_rel_length(1) [OF rel] pool_rel_le [OF rel]
  show "pooled_available b + length (porder_map b) = cap"
    using len cap by (simp add: pooled_available_def)
  have "length (storage (order_pool b)) - length (free_list (order_pool b)) = length os"
    using len cap by (simp add: pool_available_def pool_capacity_def)
  then show "pool_allocations b = pool_deallocations b + pooled_total_orders b"
    using pool_relD(3) [OF rel] len
    by (simp add: pool_allocations_def pool_deallocations_def pooled_total_orders_def pool_inv_def)
qed

section \<open>Properties\<close>

definition sample_pooled :: pooled_book where
  "sample_pooled = pooled_new 4096 1"

lemma sample_pooled_rel: "pooled_rel 1 sample_pooled []"
  unfolding sample_pooled_def by (rule pooled_rel_new) simp

text \<open>
  Property C5. One message on the pooled book: from a state that represents the resting orders
  \<open>os\<close> in a pool of \<open>cap\<close> slots (\<open>pooled_rel\<close>), with the exact depth of every level below 2^32, so that
  no level total has wrapped,
  \<open>PooledOrderBook::on_message\<close> has defined behaviour, represents the orders the specification
  prescribes, except that a new order that finds the pool full is dropped, and counts exactly
  those drops.
\<close>

theorem pooled_step_refines:
  assumes "pooled_rel cap b os" and "\<forall>s p. depth s p os < 2 ^ 32"
  shows "\<exists>b'. pooled_on_message b msg = Inr b' \<and>
     (if msg_type msg = Add \<and> spec_find (msg_order_id msg) os = None \<and> length os = cap
      then pooled_rel cap b' os \<and> pool_exhaustions b' = pool_exhaustions b + 1
      else pooled_rel cap b' (spec_message msg os) \<and> pool_exhaustions b' = pool_exhaustions b)"
  using pooled_on_message_rel [OF assms(1), of msg] assms(2)
  by (auto simp: pooled_result_def unwrapped_def spec_capped_def add_dropped_def split: if_splits)

theorem pooled_step_refines_witness:
  "\<exists>b1 b2. pooled_on_message sample_pooled (make_message Add 1 Buy (Int64 10000) 100) = Inr b1 \<and>
     pooled_on_message b1 (make_message Add 2 Buy (Int64 10000) 100) = Inr b2 \<and>
     pool_exhaustions b2 = pool_exhaustions sample_pooled + 1"
proof -
  let ?m1 = "make_message Add 1 Buy (Int64 10000) 100"
  let ?m2 = "make_message Add 2 Buy (Int64 10000) 100"
  have os: "spec_message ?m1 [] = sample_orders"
    by (simp add: spec_message_def spec_find_def sample_orders_def new_order_def)
  obtain b1 where b1: "pooled_on_message sample_pooled ?m1 = Inr b1" "pooled_rel 1 b1 sample_orders"
      "pool_exhaustions b1 = pool_exhaustions sample_pooled"
    using pooled_step_refines [OF sample_pooled_rel, of ?m1] os by (auto simp: depth_def resting_def)
  have "\<forall>s p. depth s p sample_orders < 2 ^ 32"
    by (intro allI le_less_trans [OF sample_depth]) simp
  then obtain b2 where "pooled_on_message b1 ?m2 = Inr b2"
      "pool_exhaustions b2 = pool_exhaustions b1 + 1"
    using pooled_step_refines [OF b1(2), of ?m2] by (auto simp: sample_orders_def spec_find_def)
  with b1 show ?thesis by auto
qed

text \<open>
  Property C3. Memory safety on every stream: whatever the messages and however the level totals
  wrap, the pooled book never follows a dangling pointer and never frees a slot twice, the
  allocations exceed the deallocations by the number of resting orders, and free and used slots
  add up to the capacity.
\<close>

theorem pooled_memory_safe:
  assumes "n * 24 < 2 ^ 64"
  shows "\<exists>b. feed pooled_on_message msgs (pooled_new base n) = Inr b \<and>
     pool_allocations b = pool_deallocations b + pooled_total_orders b \<and>
     pooled_available b + length (porder_map b) = n"
  using feed_pooled_memory [OF memory_ok_new [OF assms], of msgs base] memory_ok_counts by blast

theorem pooled_memory_safe_witness:
  "\<exists>b. feed pooled_on_message [make_message Trade 5 Sell (Int64 0) 0] (pooled_new 4096 3) = Inr b \<and>
     pooled_available b + length (porder_map b) = 3"
  using pooled_memory_safe [of 3 "[make_message Trade 5 Sell (Int64 0) 0]" 4096] by auto

text \<open>
  The two books are interchangeable: on a stream that keeps every depth below 2^31
  and never meets a full pool, both are defined and report the same best levels and counters.
\<close>

lemma books_agree:
  assumes "n * 24 < 2 ^ 64" and "stream_ok shallow_step msgs []" and "stream_ok (pooled_ok n) msgs []"
  shows "\<exists>a b. feed on_message msgs empty_book = Inr a \<and>
     feed pooled_on_message msgs (pooled_new base n) = Inr b \<and>
     best_bid a = pooled_best_bid b \<and> best_ask a = pooled_best_ask b \<and>
     total_orders a = pooled_total_orders b \<and>
     buy_side_levels a = pooled_buy_side_levels b \<and> sell_side_levels a = pooled_sell_side_levels b"
  by (rule two_books.same_view [OF book_rel_empty pooled_rel_new [OF assms(1)] assms(2,3)]) blast

text \<open>
  Where the books part: a resting order of 2^31 modified to 1 is undefined behaviour
  in \<open>OrderBook\<close>, while \<open>PooledOrderBook\<close> computes the new total 1.
\<close>

lemma modify_overflow_divergence:
  "let msgs = [make_message Add 1 Buy (Int64 10000) (2 ^ 31), make_message Modify 1 Buy (Int64 10000) 1]
   in feed on_message msgs empty_book = Inl Signed_Overflow \<and>
      map_sum id pooled_best_bid (feed pooled_on_message msgs (pooled_new 4096 2)) =
        Inr (Some \<lparr>lvl_price = Int64 10000, lvl_order_ids = [1], lvl_total_quantity = 1\<rparr>)"
  by code_simp

text \<open>
  Where the clamp shows: two orders of 2^32 - 1 and 2 at one price make the 32-bit
  total wrap to 1; modifying the first to 3 leaves quantities 3 and 2, for which \<open>OrderBook\<close>
  reports the total 5 and \<open>PooledOrderBook\<close> the total 0.
\<close>

lemma modify_clamp_divergence:
  "let msgs = [make_message Add 1 Buy (Int64 10000) (2 ^ 32 - 1),
               make_message Add 2 Buy (Int64 10000) 2, make_message Modify 1 Buy (Int64 10000) 3]
   in map_sum id best_bid (feed on_message msgs empty_book) =
        Inr (Some \<lparr>lvl_price = Int64 10000, lvl_order_ids = [1, 2], lvl_total_quantity = 5\<rparr>) \<and>
      map_sum id pooled_best_bid (feed pooled_on_message msgs (pooled_new 4096 2)) =
        Inr (Some \<lparr>lvl_price = Int64 10000, lvl_order_ids = [1, 2], lvl_total_quantity = 0\<rparr>)"
  by code_simp

end
