(* ===== verification/Generator.thy ===== *)
theory Generator
  imports Pooled_Order_Book
begin

text \<open>
  The message generator of \<open>include/latency_lab/generator.hpp\<close> and \<open>src/generator.cpp\<close>: a
  64-bit linear congruential generator and the loop that draws four numbers per message. The
  clock is an argument: \<open>clock i\<close> is the value of \<open>get_timestamp_ns()\<close> in iteration \<open>i\<close>.
\<close>

section \<open>State and operations\<close>

record generator =
  gen_num_messages :: u64
  gen_seed :: u64
  gen_symbol :: "u8 list"
  gen_messages :: "market_message list"
  gen_next_order_id :: u64
  gen_sequence_number :: u64

text \<open>
  The constructor: \<open>symbol_\<close> is filled with blanks and the first 8 bytes of the C string (given
  here without its terminator) are copied over them.
\<close>

definition generator_new :: "u64 \<Rightarrow> u8 list \<Rightarrow> generator" where
  "generator_new num_messages symbol =
     (let symbol_length = min 8 (length symbol)
      in \<lparr>gen_num_messages = num_messages, gen_seed = 12345,
          gen_symbol = take symbol_length symbol @ drop symbol_length (replicate 8 32),
          gen_messages = [], gen_next_order_id = 1000, gen_sequence_number = 1\<rparr>)"

definition next_random :: "generator \<Rightarrow> u64 \<times> generator" where
  "next_random g = (let s = 1664525 * gen_seed g + 1013904223 in (s, g\<lparr>gen_seed := s\<rparr>))"

definition random_bounded :: "u64 \<Rightarrow> generator \<Rightarrow> u64 \<times> generator" where
  "random_bounded upper_bound g =
     (let (r, g') = next_random g in (drop_bit 16 r mod upper_bound, g'))"

definition message_type_of :: "u32 \<Rightarrow> message_type" where
  "message_type_of type_rand =
     (if type_rand < 70 then Add
      else if type_rand < 85 then Modify
      else if type_rand < 95 then Cancel
      else Trade)"

text \<open>One iteration of the loop of \<open>generate\<close>.\<close>

definition generate_step :: "(u64 \<Rightarrow> u64) \<Rightarrow> u64 \<Rightarrow> generator \<Rightarrow> generator" where
  "generate_step clock i g0 =
     (let g1 = g0\<lparr>gen_sequence_number := gen_sequence_number g0 + 1\<rparr>;
          (price_rand, g2) = random_bounded 19000 g1;
          (quantity_rand, g3) = random_bounded 10000 g2;
          (side_rand, g4) = random_bounded 2 g3;
          (type_rand, g5) = random_bounded 100 g4;
          msg = zero_message
            \<lparr>msg_sequence_number := gen_sequence_number g0,
             msg_exchange_timestamp_ns := clock i,
             msg_order_id := gen_next_order_id g0 + i mod 10000,
             msg_symbol := gen_symbol g0,
             msg_price := Int64 (10000 + price_rand),
             msg_quantity := 100 + ucast quantity_rand,
             msg_side := (if side_rand = 0 then Buy else Sell),
             msg_type := message_type_of (ucast type_rand)\<rparr>
      in g5\<lparr>gen_messages := gen_messages g5 @ [msg]\<rparr>)"

text \<open>\<open>for (i = 0; i < num_messages_; ++i)\<close>, with the iterations left as first argument.\<close>

fun generate_loop :: "nat \<Rightarrow> (u64 \<Rightarrow> u64) \<Rightarrow> u64 \<Rightarrow> generator \<Rightarrow> generator" where
  "generate_loop 0 clock i g = g"
| "generate_loop (Suc k) clock i g = generate_loop k clock (i + 1) (generate_step clock i g)"

definition generate :: "(u64 \<Rightarrow> u64) \<Rightarrow> generator \<Rightarrow> generator" where
  "generate clock g = generate_loop (unat (gen_num_messages g)) clock 0 g"

definition generated :: "(u64 \<Rightarrow> u64) \<Rightarrow> u64 \<Rightarrow> u8 list \<Rightarrow> market_message list" where
  "generated clock n symbol = gen_messages (generate clock (generator_new n symbol))"

section \<open>What every generated message satisfies\<close>

lemma random_bounded_less:
  "upper_bound \<noteq> 0 \<Longrightarrow> fst (random_bounded upper_bound g) < upper_bound"
  by (simp add: random_bounded_def next_random_def Let_def word_mod_less_divisor word_neq_0_conv)

lemma random_bounded_frame [simp]:
  "gen_num_messages (snd (random_bounded u g)) = gen_num_messages g"
  "gen_symbol (snd (random_bounded u g)) = gen_symbol g"
  "gen_messages (snd (random_bounded u g)) = gen_messages g"
  "gen_next_order_id (snd (random_bounded u g)) = gen_next_order_id g"
  "gen_sequence_number (snd (random_bounded u g)) = gen_sequence_number g"
  by (simp_all add: random_bounded_def next_random_def Let_def)

definition message_ok :: "u64 \<Rightarrow> u64 \<Rightarrow> u64 \<Rightarrow> u8 list \<Rightarrow> market_message \<Rightarrow> bool" where
  "message_ok i seq base symbol msg \<longleftrightarrow>
     msg_sequence_number msg = seq \<and> msg_order_id msg = base + i mod 10000 \<and>
     10000 \<le> int64_val (msg_price msg) \<and> int64_val (msg_price msg) < 29000 \<and>
     100 \<le> msg_quantity msg \<and> msg_quantity msg < 10100 \<and> msg_symbol msg = symbol"

lemma price_in_range:
  assumes "a < (19000 :: u64)"
  shows "10000 \<le> int64_val (Int64 (10000 + a))" and "int64_val (Int64 (10000 + a)) < 29000"
proof -
  have a: "uint a < 19000" using assms by (simp add: word_less_def)
  have u: "uint (10000 + a) = 10000 + uint a"
    using a by (simp add: uint_word_ariths)
  have "sint (10000 + a) = signed_take_bit 63 (uint (10000 + a))" by (subst sint_uint) simp
  also have "\<dots> = uint (10000 + a)"
  proof (rule signed_take_bit_int_eq_self)
    show "- (2 ^ 63) \<le> uint (10000 + a)" by (rule order_trans [OF _ uint_ge_0]) simp
    show "uint (10000 + a) < 2 ^ 63" unfolding u using a by simp
  qed
  finally show "10000 \<le> int64_val (Int64 (10000 + a))" "int64_val (Int64 (10000 + a)) < 29000"
    using a u by (simp_all add: int64_val_def)
qed

lemma quantity_in_range:
  assumes "b < (10000 :: u64)"
  shows "100 \<le> 100 + (ucast b :: u32)" and "100 + (ucast b :: u32) < 10100"
proof -
  have b: "unat b < 10000" using assms by (simp add: word_less_nat_alt)
  then have "unat (ucast b :: u32) = unat b" by (simp add: unsigned_ucast_eq take_bit_nat_eq_self)
  then have "unat (100 + (ucast b :: u32)) = 100 + unat b" using b by (simp add: unat_word_ariths)
  then show "100 \<le> 100 + (ucast b :: u32)" "100 + (ucast b :: u32) < 10100"
    using b by (simp_all add: word_le_nat_alt word_less_nat_alt)
qed

lemma generate_step_ok:
  "\<exists>msg. gen_messages (generate_step clock i g) = gen_messages g @ [msg] \<and>
     message_ok i (gen_sequence_number g) (gen_next_order_id g) (gen_symbol g) msg \<and>
     msg_exchange_timestamp_ns msg = clock i \<and>
     gen_sequence_number (generate_step clock i g) = gen_sequence_number g + 1 \<and>
     gen_next_order_id (generate_step clock i g) = gen_next_order_id g \<and>
     gen_symbol (generate_step clock i g) = gen_symbol g"
proof -
  define g1 where "g1 = g\<lparr>gen_sequence_number := gen_sequence_number g + 1\<rparr>"
  obtain a g2 where r1: "random_bounded 19000 g1 = (a, g2)" by fastforce
  obtain b g3 where r2: "random_bounded 10000 g2 = (b, g3)" by fastforce
  obtain c g4 where r3: "random_bounded 2 g3 = (c, g4)" by fastforce
  obtain d g5 where r4: "random_bounded 100 g4 = (d, g5)" by fastforce
  have frame: "gen_messages g5 = gen_messages g" "gen_next_order_id g5 = gen_next_order_id g"
      "gen_symbol g5 = gen_symbol g" "gen_sequence_number g5 = gen_sequence_number g + 1"
    using random_bounded_frame [of 19000 g1, unfolded r1 snd_conv]
      random_bounded_frame [of 10000 g2, unfolded r2 snd_conv]
      random_bounded_frame [of 2 g3, unfolded r3 snd_conv]
      random_bounded_frame [of 100 g4, unfolded r4 snd_conv]
    by (simp_all add: g1_def)
  have a: "a < 19000" and b: "b < 10000"
    using random_bounded_less [of 19000 g1] random_bounded_less [of 10000 g2] by (simp_all add: r1 r2)
  show ?thesis
    using price_in_range [OF a] quantity_in_range [OF b]
    by (simp add: generate_step_def r1 r2 r3 r4 frame message_ok_def flip: g1_def)
qed

lemma generate_loop_ok:
  "\<exists>msgs. gen_messages (generate_loop k clock i g) = gen_messages g @ msgs \<and> length msgs = k \<and>
     (\<forall>j < k. message_ok (i + of_nat j) (gen_sequence_number g + of_nat j) (gen_next_order_id g)
        (gen_symbol g) (msgs ! j) \<and> msg_exchange_timestamp_ns (msgs ! j) = clock (i + of_nat j))"
proof (induction k arbitrary: i g)
  case (Suc k)
  obtain msg where step: "gen_messages (generate_step clock i g) = gen_messages g @ [msg]"
      "message_ok i (gen_sequence_number g) (gen_next_order_id g) (gen_symbol g) msg"
      "msg_exchange_timestamp_ns msg = clock i"
      "gen_sequence_number (generate_step clock i g) = gen_sequence_number g + 1"
      "gen_next_order_id (generate_step clock i g) = gen_next_order_id g"
      "gen_symbol (generate_step clock i g) = gen_symbol g"
    using generate_step_ok by blast
  obtain msgs where rest: "gen_messages (generate_loop k clock (i + 1) (generate_step clock i g)) =
        gen_messages g @ [msg] @ msgs" "length msgs = k"
      "\<forall>j < k. message_ok (i + 1 + of_nat j) (gen_sequence_number g + 1 + of_nat j)
        (gen_next_order_id g) (gen_symbol g) (msgs ! j) \<and>
        msg_exchange_timestamp_ns (msgs ! j) = clock (i + 1 + of_nat j)"
    using Suc.IH [of "i + 1" "generate_step clock i g"] unfolding step by auto
  show ?case
  proof (intro exI conjI allI impI)
    show "gen_messages (generate_loop (Suc k) clock i g) = gen_messages g @ (msg # msgs)"
      using rest(1) by simp
    show "length (msg # msgs) = Suc k" using rest(2) by simp
    fix j assume "j < Suc k"
    then show "message_ok (i + of_nat j) (gen_sequence_number g + of_nat j) (gen_next_order_id g)
        (gen_symbol g) ((msg # msgs) ! j)"
      and "msg_exchange_timestamp_ns ((msg # msgs) ! j) = clock (i + of_nat j)"
      using step(2,3) rest(3) by (cases j; simp add: ac_simps)+
  qed
qed simp

lemma generated_ok:
  "length (generated clock n symbol) = unat n"
  "j < unat n \<Longrightarrow> message_ok (of_nat j) (1 + of_nat j) 1000
     (gen_symbol (generator_new n symbol)) (generated clock n symbol ! j)"
  "j < unat n \<Longrightarrow> msg_exchange_timestamp_ns (generated clock n symbol ! j) = clock (of_nat j)"
  using generate_loop_ok [of "unat n" clock 0 "generator_new n symbol"]
  by (auto simp: generated_def generate_def) (auto simp: generator_new_def Let_def)

section \<open>Generated streams are bounded\<close>

definition generated_ids :: "u64 \<Rightarrow> u64 set" where
  "generated_ids n = (\<lambda>j. 1000 + of_nat j) ` {..<min (unat n) 10000}"

lemma finite_generated_ids [simp]: "finite (generated_ids n)"
  by (simp add: generated_ids_def)

lemma card_generated_ids: "card (generated_ids n) \<le> min (unat n) 10000"
  unfolding generated_ids_def by (rule order_trans [OF card_image_le]) simp_all

lemma of_nat_mod_10000:
  assumes "j < unat (n :: u64)"
  shows "(of_nat j :: u64) mod 10000 = of_nat (j mod 10000)"
proof -
  have "j < 2 ^ 64" using assms unsigned_less [of n, where ?'a = nat] by simp
  then have "unat (of_nat j :: u64) = j" by (simp add: unat_of_nat)
  moreover have "j mod 10000 < 2 ^ 64" by (rule less_trans [of _ 10000]) simp_all
  then have "unat (of_nat (j mod 10000) :: u64) = j mod 10000" by (simp add: unat_of_nat)
  ultimately have "unat ((of_nat j :: u64) mod 10000) = unat (of_nat (j mod 10000) :: u64)"
    by (simp add: unat_mod)
  then show ?thesis by (rule word_unat_eq_iff [THEN iffD2])
qed

lemma message_ok_bounded:
  assumes "message_ok (of_nat j) seq 1000 symbol msg" and "j < unat n"
  shows "bounded_message (generated_ids n) 10099 msg"
proof -
  have "msg_order_id msg = 1000 + of_nat (j mod 10000)"
    using assms of_nat_mod_10000 [OF assms(2)] by (simp add: message_ok_def)
  moreover have "j mod 10000 < min (unat n) 10000"
    using assms(2) by (meson le_less_trans min_less_iff_conj mod_less_divisor mod_less_eq_dividend zero_less_numeral)
  moreover have "unat (msg_quantity msg) \<le> 10099"
    using assms(1) by (simp add: message_ok_def word_less_nat_alt)
  ultimately show ?thesis by (auto simp: bounded_message_def generated_ids_def)
qed

lemma generated_bounded:
  "\<forall>msg \<in> set (generated clock n symbol). bounded_message (generated_ids n) 10099 msg"
proof
  fix msg assume "msg \<in> set (generated clock n symbol)"
  then obtain j where "j < unat n" "msg = generated clock n symbol ! j"
    using generated_ok(1) by (metis in_set_conv_nth)
  then show "bounded_message (generated_ids n) 10099 msg"
    using generated_ok(2) message_ok_bounded by blast
qed

lemma generated_room: "card (generated_ids n) * 10099 < 2 ^ 31"
proof -
  have "card (generated_ids n) * 10099 \<le> 10000 * 10099"
    using card_generated_ids [of n] by (intro mult_le_mono1) simp
  then show ?thesis by simp
qed

text \<open>
  Any stream made of generated messages, in any order and with repetitions (the benchmarks replay
  a prefix as warm-up), is safe for both books.
\<close>

lemma replay_shallow:
  assumes "set msgs \<subseteq> set (generated clock n symbol)"
  shows "stream_ok shallow_step msgs []"
proof (rule bounded_stream [where I = "generated_ids n" and Q = 10099])
  show "\<forall>msg \<in> set msgs. bounded_message (generated_ids n) 10099 msg"
    using assms generated_bounded by blast
  fix os msg
  assume "bounded_book (generated_ids n) 10099 os" "bounded_message (generated_ids n) 10099 msg"
  then show "shallow_step os msg"
    unfolding shallow_step_def
    using bounded_book_shallow [OF _ finite_generated_ids generated_room] bounded_book_step
    by blast
qed simp

lemma replay_pooled_ok:
  assumes "set msgs \<subseteq> set (generated clock n symbol)" and "min (unat n) 10000 \<le> cap"
  shows "stream_ok (pooled_ok cap) msgs []"
proof (rule bounded_stream [where I = "generated_ids n" and Q = 10099])
  show "\<forall>msg \<in> set msgs. bounded_message (generated_ids n) 10099 msg"
    using assms generated_bounded by blast
  fix os msg
  assume b: "bounded_book (generated_ids n) 10099 os" "bounded_message (generated_ids n) 10099 msg"
  have "length os < cap" if "spec_find (msg_order_id msg) os = None"
    using bounded_fresh [OF b(1) finite_generated_ids _ that] b(2) assms(2)
      order_trans [OF card_generated_ids [of n] assms(2)]
    by (simp add: bounded_message_def)
  then have "\<not> add_dropped cap os msg" by (auto simp: add_dropped_def)
  moreover have "unwrapped os"
    using bounded_book_shallow [OF b(1) finite_generated_ids generated_room]
    by (rule shallow_unwrapped)
  ultimately show "pooled_ok cap os msg" by (simp add: pooled_ok_def)
qed simp

lemma replay_orders:
  assumes "set msgs \<subseteq> set (generated clock n symbol)" and "book_rel b (spec_run msgs [])"
  shows "unat (total_orders b) \<le> min (unat n) 10000"
proof -
  have "bounded_book (generated_ids n) 10099 (spec_run msgs [])"
    using generated_bounded assms(1) by (intro bounded_book_run) auto
  then have "length (spec_run msgs []) \<le> min (unat n) 10000"
    using bounded_book_length finite_generated_ids card_generated_ids order_trans by blast
  moreover have "total_orders b = of_nat (length (spec_run msgs []))"
    by (rule base.orders_count [OF assms(2)])
  ultimately show ?thesis
    by (simp add: unsigned_of_nat) (meson order_trans take_bit_nat_less_eq_self)
qed

text \<open>The two byte arrays of a generated message have the sizes the struct declares.\<close>

lemma generate_step_arrays:
  "gen_symbol (generate_step clock i g) = gen_symbol g"
  "length (gen_symbol g) = 8 \<Longrightarrow>
   \<forall>msg \<in> set (gen_messages g). length (msg_symbol msg) = 8 \<and> length (msg_padding msg) = 18 \<Longrightarrow>
   \<forall>msg \<in> set (gen_messages (generate_step clock i g)).
     length (msg_symbol msg) = 8 \<and> length (msg_padding msg) = 18"
  by (simp_all add: generate_step_def case_prod_beta Let_def zero_message_def)

lemma generate_loop_arrays:
  "length (gen_symbol g) = 8 \<Longrightarrow>
   \<forall>msg \<in> set (gen_messages g). length (msg_symbol msg) = 8 \<and> length (msg_padding msg) = 18 \<Longrightarrow>
   \<forall>msg \<in> set (gen_messages (generate_loop k clock i g)).
     length (msg_symbol msg) = 8 \<and> length (msg_padding msg) = 18"
proof (induction k arbitrary: i g)
  case (Suc k)
  show ?case
    unfolding generate_loop.simps
    by (rule Suc.IH [OF _ generate_step_arrays(2) [OF Suc.prems]])
       (simp only: generate_step_arrays(1) Suc.prems(1))
qed simp

lemma generated_arrays:
  "msg \<in> set (generated clock n symbol) \<Longrightarrow>
   length (msg_symbol msg) = 8 \<and> length (msg_padding msg) = 18"
  using generate_loop_arrays [of "generator_new n symbol" "unat n" clock 0]
  by (auto simp: generated_def generate_def generator_new_def Let_def)

section \<open>Properties\<close>

text \<open>
  Property C29. The generated stream: one message per requested count, the \<open>j\<close>th with sequence
  number \<open>1 + j\<close>, order id \<open>1000 + j mod 10000\<close>, the constructor's symbol, the clock
  reading of its iteration, a price in [10000, 29000) and a quantity in [100, 10100).
\<close>

theorem generated_messages:
  "length (generated clock n symbol) = unat n \<and>
   list_all2 (\<lambda>j msg.
       unat (msg_sequence_number msg) = (j + 1) mod 2 ^ 64 \<and>
       unat (msg_order_id msg) = 1000 + j mod 10000 \<and>
       msg_exchange_timestamp_ns msg = clock (of_nat j) \<and>
       msg_symbol msg = take 8 (symbol @ replicate 8 32) \<and>
       int64_val (msg_price msg) \<in> {10000..<29000} \<and>
       unat (msg_quantity msg) \<in> {100..<10100})
     [0..<unat n] (generated clock n symbol)"
proof (intro conjI list_all2_all_nthI)
  show len: "length (generated clock n symbol) = unat n" by (rule generated_ok(1))
  then show "length [0..<unat n] = length (generated clock n symbol)" by simp
  have symbol: "gen_symbol (generator_new n symbol) = take 8 (symbol @ replicate 8 32)"
    by (cases "length symbol \<le> 8") (simp_all add: generator_new_def Let_def min_def)
  fix j assume "j < length [0..<unat n]"
  then have j: "j < unat n" and nth: "[0..<unat n] ! j = j" by simp_all
  let ?m = "generated clock n symbol ! j"
  have ok: "message_ok (of_nat j) (1 + of_nat j) 1000 (gen_symbol (generator_new n symbol)) ?m"
    and ts: "msg_exchange_timestamp_ns ?m = clock (of_nat j)"
    using generated_ok(2,3) [OF j] by blast+
  have "j mod 10000 < 10000" by simp
  then have "1000 + j mod 10000 < 2 ^ 64" by (rule less_trans [OF add_strict_left_mono]) simp
  then have "unat (1000 + of_nat (j mod 10000) :: u64) = 1000 + j mod 10000"
    using unat_of_nat [of "1000 + j mod 10000", where ?'a = 64] by simp
  moreover have "unat (1 + of_nat j :: u64) = (j + 1) mod 2 ^ 64"
  proof -
    have "(1 + of_nat j :: u64) = of_nat (j + 1)" by simp
    then have "unat (1 + of_nat j :: u64) = (j + 1) mod 2 ^ LENGTH(64)" by (simp only: unat_of_nat)
    then show ?thesis by (simp only: len_num0 len_num1 len_bit0 len_bit1) simp
  qed
  ultimately show "unat (msg_sequence_number ?m) = ([0..<unat n] ! j + 1) mod 2 ^ 64"
    and "unat (msg_order_id ?m) = 1000 + [0..<unat n] ! j mod 10000"
    using ok of_nat_mod_10000 [OF j] nth by (simp_all add: message_ok_def)
  show "msg_exchange_timestamp_ns ?m = clock (of_nat ([0..<unat n] ! j))" using ts nth by simp
  show "msg_symbol ?m = take 8 (symbol @ replicate 8 32)"
    and "int64_val (msg_price ?m) \<in> {10000..<29000}" and "unat (msg_quantity ?m) \<in> {100..<10100}"
    using ok symbol by (simp_all add: message_ok_def word_le_nat_alt word_less_nat_alt)
qed

text \<open>
  The message mix: of the hundred values of \<open>type_rand\<close>, 70 give an \<open>Add\<close>,
  15 a \<open>Modify\<close>, 10 a \<open>Cancel\<close> and 5 a \<open>Trade\<close>.
\<close>

lemma message_mix:
  "map (\<lambda>t. count_list (map (message_type_of \<circ> of_nat) [0..<100]) t) [Add, Modify, Cancel, Trade] =
   [70, 15, 10, 5]"
  by code_simp

text \<open>
  The generated benchmark is safe: whatever the clock and the number of messages, any
  stream of generated messages, in any order and with repetitions, runs on the baseline book
  without undefined behaviour and leaves at most 10000 resting orders.
\<close>

lemma replay_safe:
  assumes "set msgs \<subseteq> set (generated clock n symbol)"
  shows "\<exists>b. feed on_message msgs empty_book = Inr b \<and> book_rel b (spec_run msgs []) \<and>
     unat (total_orders b) \<le> min (unat n) 10000"
proof -
  obtain b where b: "feed on_message msgs empty_book = Inr b" "book_rel b (spec_run msgs [])"
    using base.feed_ok [OF book_rel_empty replay_shallow [OF assms]] by blast
  from replay_orders [OF assms b(2)] b show ?thesis by blast
qed

text \<open>
  Property C10. The memory-pool benchmark compares like with like: on any stream of generated
  messages, a pool of at least min(n, 10000) slots is never exhausted and the two books report the
  same best levels and counters.
\<close>

theorem replay_books_agree:
  assumes "set msgs \<subseteq> set (generated clock n symbol)" and "min (unat n) 10000 \<le> cap"
    and "cap * 24 < 2 ^ 64"
  shows "\<exists>a b. feed on_message msgs empty_book = Inr a \<and>
     feed pooled_on_message msgs (pooled_new base cap) = Inr b \<and> pool_exhaustions b = 0 \<and>
     best_bid a = pooled_best_bid b \<and> best_ask a = pooled_best_ask b \<and>
     total_orders a = pooled_total_orders b \<and>
     buy_side_levels a = pooled_buy_side_levels b \<and> sell_side_levels a = pooled_sell_side_levels b"
proof -
  have ok: "stream_ok (pooled_ok cap) msgs []" by (rule replay_pooled_ok [OF assms(1,2)])
  obtain b where b: "feed pooled_on_message msgs (pooled_new base cap) = Inr b"
      "pool_exhaustions b = 0"
    using pooled_feed_exhaustions [OF pooled_rel_new [OF assms(3)] ok] by (auto simp: pooled_new_def)
  show ?thesis
    by (rule two_books.same_view [OF book_rel_empty pooled_rel_new [OF assms(3)]
          replay_shallow [OF assms(1)] ok, of base]) (use b in auto)
qed

theorem replay_books_agree_witness:
  "\<exists>a b. feed on_message (generated (\<lambda>_. 7) 3 [65]) empty_book = Inr a \<and>
     feed pooled_on_message (generated (\<lambda>_. 7) 3 [65]) (pooled_new 4096 3) = Inr b \<and>
     pool_exhaustions b = 0 \<and> best_bid a = pooled_best_bid b"
  using replay_books_agree [of "generated (\<lambda>_. 7) 3 [65]" "\<lambda>_. 7" 3 "[65]" 3 4096] by auto

end
