(* ===== verification/Doubles.thy ===== *)
theory Doubles
  imports Prelude Complex_Main "HOL-Library.Log_Nat"
begin

text \<open>
  The \<open>double\<close> arithmetic of the sources: exact rationals rounded to 53 significant bits, to
  nearest, ties to even, which is IEEE 754 binary64 away from overflow and from subnormal numbers
  (the values here lie between 0 and 2^64 and their steps are far above 2^-1022).
\<close>

section \<open>Rounding\<close>

definition round_half_even :: "rat \<Rightarrow> int" where
  "round_half_even x =
     (let f = \<lfloor>x\<rfloor>; d = x - of_int f
      in if d < 1 / 2 then f else if d > 1 / 2 then f + 1 else if even f then f else f + 1)"

text \<open>The exponent of the leading binary digit of a positive rational.\<close>

definition binade :: "rat \<Rightarrow> int" where
  "binade x =
     (let (p, q) = quotient_of x; e = bitlen p - bitlen q
      in if x < 2 powi e then e - 1 else e)"

definition round_pos :: "rat \<Rightarrow> rat" where
  "round_pos x = (let ulp = 2 powi (binade x - 52) in of_int (round_half_even (x / ulp)) * ulp)"

definition dbl :: "rat \<Rightarrow> rat" where
  "dbl x = (if x = 0 then 0 else if x < 0 then - round_pos (- x) else round_pos x)"

section \<open>Rounding to an integer\<close>

lemma round_half_even_near: "\<bar>of_int (round_half_even x) - x\<bar> \<le> 1 / 2"
  unfolding round_half_even_def Let_def using floor_correct [of x] by (auto simp: abs_le_iff)

lemma round_half_even_of_int [simp]: "round_half_even (of_int n) = n"
  by (simp add: round_half_even_def)

lemma round_half_even_mono:
  assumes "x \<le> y"
  shows "round_half_even x \<le> round_half_even y"
proof (rule ccontr)
  assume "\<not> round_half_even x \<le> round_half_even y"
  then have less: "of_int (round_half_even y) + 1 \<le> (of_int (round_half_even x) :: rat)" by linarith
  have "of_int (round_half_even x) - x \<le> 1 / 2" "y - of_int (round_half_even y) \<le> 1 / 2"
    using round_half_even_near [of x] round_half_even_near [of y] by linarith+
  with less assms have "x = y" by linarith
  with less show False by simp
qed

section \<open>The binade\<close>

lemma pow2_pos [simp]: "0 < (2 :: rat) powi e"
  by (rule zero_less_power_int) simp

lemma pow2_le_iff: "(2 :: rat) powi d \<le> 2 powi e \<longleftrightarrow> d \<le> e"
proof
  show "d \<le> e" if "(2 :: rat) powi d \<le> 2 powi e"
    using that power_int_strict_increasing [of e d "2 :: rat"] by (meson linorder_not_le one_less_numeral_iff semiring_norm(76))
qed (simp add: power_int_increasing)

lemma pow2_Suc: "(2 :: rat) powi (e + 1) = 2 * 2 powi e"
  by (simp add: power_int_add)

lemma bitlen_powi:
  assumes "0 < n"
  shows "2 powi (bitlen n - 1) \<le> (of_int n :: rat)" and "(of_int n :: rat) < 2 powi (bitlen n)"
proof -
  have b: "1 \<le> bitlen n" using assms bitlen_nonneg [of n] bitlen_eq_zero_iff [of n] by linarith
  have "(2 :: rat) powi (bitlen n - 1) = of_int (2 ^ nat (bitlen n - 1))"
    and "(2 :: rat) powi (bitlen n) = of_int (2 ^ nat (bitlen n))"
    using b by (simp_all add: power_int_def)
  then show "2 powi (bitlen n - 1) \<le> (of_int n :: rat)" and "(of_int n :: rat) < 2 powi (bitlen n)"
    using bitlen_bounds [OF assms] by (simp_all only: of_int_le_iff of_int_less_iff)
qed

lemma binade_bounds:
  assumes "0 < x"
  shows "2 powi (binade x) \<le> x" and "x < 2 powi (binade x + 1)"
proof -
  obtain p q where pq: "quotient_of x = (p, q)" by fastforce
  have q: "0 < q" using pq by (rule quotient_of_denom_pos)
  have x: "x = of_int p / of_int q" using pq by (rule quotient_of_div)
  with assms q have p: "0 < p" by (simp add: zero_less_divide_iff)
  let ?e = "bitlen p - bitlen q"
  have "x < 2 powi (bitlen p) / 2 powi (bitlen q - 1)"
    unfolding x by (rule frac_less) (use p q bitlen_powi in auto)
  also have "\<dots> = 2 powi (?e + 1)" by (simp add: power_int_diff power_int_add)
  finally have u: "x < 2 powi (?e + 1)" .
  have "2 powi (bitlen p - 1) / 2 powi (bitlen q) \<le> x"
    unfolding x using p q bitlen_powi [OF p] bitlen_powi [OF q]
    by (intro frac_le) (auto intro: less_imp_le)
  then have l: "2 powi (?e - 1) \<le> x" by (simp add: power_int_diff power_int_add)
  show "2 powi (binade x) \<le> x" and "x < 2 powi (binade x + 1)"
    using u l by (auto simp: binade_def pq Let_def)
qed

lemma binade_mono:
  assumes "0 < x" and "x \<le> y"
  shows "binade x \<le> binade y"
proof -
  have "2 powi (binade x) < (2 :: rat) powi (binade y + 1)"
    using binade_bounds(1) [OF assms(1)] binade_bounds(2) [of y] assms by linarith
  then have "\<not> binade y + 1 \<le> binade x" using pow2_le_iff [of "binade y + 1" "binade x"] by linarith
  then show ?thesis by simp
qed

lemma binade_unique:
  assumes "2 powi e \<le> x" and "x < 2 powi (e + 1)"
  shows "binade x = e"
proof -
  have x: "0 < x" using assms(1) pow2_pos [of e] by linarith
  have "2 powi e < (2 :: rat) powi (binade x + 1)" and "2 powi (binade x) < (2 :: rat) powi (e + 1)"
    using binade_bounds [OF x] assms by linarith+
  then have "\<not> binade x + 1 \<le> e" and "\<not> e + 1 \<le> binade x"
    using pow2_le_iff [of "binade x + 1" e] pow2_le_iff [of "e + 1" "binade x"] by linarith+
  then show ?thesis by simp
qed

section \<open>Rounding to 53 bits\<close>

lemma round_pos_near:
  assumes "0 < x"
  shows "\<bar>round_pos x - x\<bar> \<le> x / 2 ^ 53"
proof -
  let ?ulp = "(2 :: rat) powi (binade x - 52)"
  have "round_pos x - x = (of_int (round_half_even (x / ?ulp)) - x / ?ulp) * ?ulp"
    by (simp add: round_pos_def Let_def left_diff_distrib)
  then have "\<bar>round_pos x - x\<bar> = \<bar>of_int (round_half_even (x / ?ulp)) - x / ?ulp\<bar> * ?ulp"
    by (simp add: abs_mult)
  also have "\<dots> \<le> 1 / 2 * ?ulp"
    by (rule mult_right_mono [OF round_half_even_near]) (simp add: less_imp_le)
  also have "\<dots> = 2 powi (binade x) / 2 ^ 53"
    by (simp add: power_int_diff)
  also have "\<dots> \<le> x / 2 ^ 53"
    by (rule divide_right_mono [OF binade_bounds(1) [OF assms]]) simp
  finally show ?thesis .
qed

lemma round_pos_exact:
  assumes "0 < x" and "x = of_int n * 2 powi k" and "binade x \<le> k + 52"
  shows "round_pos x = x"
proof -
  let ?ulp = "(2 :: rat) powi (binade x - 52)"
  let ?d = "nat (k - (binade x - 52))"
  have "(2 :: rat) powi k = 2 ^ ?d * ?ulp"
  proof -
    have "k = int ?d + (binade x - 52)" using assms(3) by simp
    then have "(2 :: rat) powi k = 2 powi (int ?d + (binade x - 52))" by (rule arg_cong)
    also have "\<dots> = 2 powi (int ?d) * ?ulp" by (rule power_int_add) simp
    finally show ?thesis by (simp only: power_int_of_nat)
  qed
  then have "x = of_int (n * 2 ^ ?d) * ?ulp" using assms(2) by (simp only: of_int_mult of_int_power of_int_numeral mult.assoc)
  then have q: "x / ?ulp = of_int (n * 2 ^ ?d)" by (metis nonzero_mult_div_cancel_right pow2_pos less_irrefl)
  have "round_pos x = of_int (n * 2 ^ ?d) * ?ulp"
    unfolding round_pos_def Let_def q by (simp only: round_half_even_of_int)
  also have "\<dots> = x / ?ulp * ?ulp" by (simp only: q)
  finally show ?thesis by simp
qed

lemma round_pos_pow2: "round_pos (2 powi e) = 2 powi e"
proof -
  have "binade (2 powi e :: rat) = e" by (rule binade_unique) (simp_all add: pow2_Suc)
  then show ?thesis by (intro round_pos_exact [of _ 1 e]) simp_all
qed

lemma round_pos_range:
  assumes "0 < x"
  shows "2 powi (binade x) \<le> round_pos x" and "round_pos x \<le> 2 powi (binade x + 1)"
proof -
  let ?ulp = "(2 :: rat) powi (binade x - 52)"
  have low: "(2 :: rat) powi (binade x) = of_int (2 ^ 52) * ?ulp"
    and high: "(2 :: rat) powi (binade x + 1) = of_int (2 ^ 53) * ?ulp"
    by (simp_all add: power_int_diff power_int_add)
  have "of_int (2 ^ 52) \<le> x / ?ulp" "x / ?ulp \<le> of_int (2 ^ 53)"
    using binade_bounds [OF assms] unfolding low high
    by (simp_all add: pos_le_divide_eq pos_divide_le_eq)
  from this [THEN round_half_even_mono] have "2 ^ 52 \<le> round_half_even (x / ?ulp)"
      "round_half_even (x / ?ulp) \<le> 2 ^ 53"
    by (simp_all only: round_half_even_of_int)
  then have "(of_int (2 ^ 52) :: rat) \<le> of_int (round_half_even (x / ?ulp))"
      "(of_int (round_half_even (x / ?ulp)) :: rat) \<le> of_int (2 ^ 53)"
    by (simp_all only: of_int_le_iff)
  from this [THEN mult_right_mono, of ?ulp]
  show "2 powi (binade x) \<le> round_pos x" and "round_pos x \<le> 2 powi (binade x + 1)"
    unfolding low high round_pos_def Let_def by (simp_all only: pow2_pos less_imp_le)
qed

lemma round_pos_mono:
  assumes "0 < x" and "x \<le> y"
  shows "round_pos x \<le> round_pos y"
proof (cases "binade x = binade y")
  case True
  have "round_half_even (x / 2 powi (binade y - 52)) \<le> round_half_even (y / 2 powi (binade y - 52))"
    using assms by (intro round_half_even_mono divide_right_mono) (simp_all add: less_imp_le)
  then show ?thesis
    unfolding round_pos_def Let_def True
    by (intro mult_right_mono) (simp_all add: less_imp_le)
next
  case False
  then have "binade x + 1 \<le> binade y" using binade_mono [OF assms] by simp
  have "round_pos x \<le> 2 powi (binade x + 1)" by (rule round_pos_range(2) [OF assms(1)])
  also have "\<dots> \<le> 2 powi (binade y)" using \<open>binade x + 1 \<le> binade y\<close> by (simp add: pow2_le_iff)
  also have "\<dots> \<le> round_pos y" using assms by (intro round_pos_range(1)) simp
  finally show ?thesis .
qed

section \<open>What the arithmetic of the sources uses\<close>

lemma dbl_0 [simp]: "dbl 0 = 0"
  by (simp add: dbl_def)

lemma dbl_nonneg: "0 \<le> x \<Longrightarrow> 0 \<le> dbl x"
  using round_pos_range(1) [of x] order_trans [OF less_imp_le [OF pow2_pos]] by (auto simp: dbl_def)

lemma dbl_near: "0 \<le> x \<Longrightarrow> \<bar>dbl x - x\<bar> \<le> x / 2 ^ 53"
  using round_pos_near [of x] by (auto simp: dbl_def)

lemma dbl_mono:
  assumes "0 \<le> x" and "x \<le> y"
  shows "dbl x \<le> dbl y"
proof (cases "x = 0")
  case True
  with dbl_nonneg [of y] assms show ?thesis by simp
next
  case False
  with round_pos_mono [of x y] assms show ?thesis by (simp add: dbl_def)
qed

lemma dbl_of_nat:
  assumes "n \<le> 2 ^ 53"
  shows "dbl (of_nat n) = of_nat n"
proof (cases "n = 0 \<or> n = 2 ^ 53")
  case True
  have "round_pos (2 ^ 53) = 2 ^ 53" using round_pos_pow2 [of 53] by (simp add: power_int_def)
  with True show ?thesis by (auto simp: dbl_def)
next
  case False
  with assms have n: "0 < n" "n < 2 ^ 53" by auto
  have "(of_nat n :: rat) < of_nat (2 ^ 53)" using n(2) by (simp only: of_nat_less_iff)
  moreover have "2 powi (binade (of_nat n)) \<le> (of_nat n :: rat)"
    by (rule binade_bounds(1)) (use n in simp)
  moreover have "of_nat (2 ^ 53) = (2 :: rat) powi 53" by (simp add: power_int_def)
  ultimately have "(2 :: rat) powi (binade (of_nat n)) < 2 powi 53" by linarith
  then have "\<not> 53 \<le> binade (of_nat n)" using pow2_le_iff [of 53 "binade (of_nat n)"] by linarith
  then have "round_pos (of_nat n) = of_nat n"
    using n by (intro round_pos_exact [of _ "int n" 0]) simp_all
  with n show ?thesis by (simp add: dbl_def)
qed

lemma dbl_of_nat_mono: "n \<le> 2 ^ 53 \<Longrightarrow> of_nat n \<le> x \<Longrightarrow> of_nat n \<le> dbl x"
  using dbl_mono [of "of_nat n" x] by (simp add: dbl_of_nat)

lemma dbl_of_nat_mono': "n \<le> 2 ^ 53 \<Longrightarrow> 0 \<le> x \<Longrightarrow> x \<le> of_nat n \<Longrightarrow> dbl x \<le> of_nat n"
  using dbl_mono [of x "of_nat n"] by (simp add: dbl_of_nat)

section \<open>Conversion to an unsigned integer\<close>

text \<open>\<open>static_cast<std::uint64_t>\<close> truncates; a value whose integral part does not fit is undefined.\<close>

definition to_u64 :: "rat \<Rightarrow> u64 cpp" where
  "to_u64 x =
     (let n = (if x < 0 then \<lceil>x\<rceil> else \<lfloor>x\<rfloor>)
      in if 0 \<le> n \<and> n < 2 ^ 64 then Inr (word_of_int n) else Inl Bad_Cast)"

lemma to_u64_ok:
  assumes "0 \<le> x" and "\<lfloor>x\<rfloor> < 2 ^ 64"
  shows "to_u64 x = Inr (word_of_int \<lfloor>x\<rfloor>)" and "uint (word_of_int \<lfloor>x\<rfloor> :: u64) = \<lfloor>x\<rfloor>"
  using assms by (simp_all add: to_u64_def uint_word_of_int take_bit_int_eq_self)

end
