(* ===== verification/Metrics.thy ===== *)
theory Metrics
  imports Doubles
begin

text \<open>
  The latency recorder of \<open>include/latency_lab/metrics.hpp\<close> and \<open>src/metrics.cpp\<close>: the samples,
  their order statistics with the \<open>double\<close> interpolation of \<open>percentile\<close>, and the printed summary.
\<close>

section \<open>State and operations\<close>

record latency_recorder =
  samples :: "u64 list"

definition recorder_new :: latency_recorder where
  "recorder_new = \<lparr>samples = []\<rparr>"

definition recorder_record :: "u64 \<Rightarrow> latency_recorder \<Rightarrow> latency_recorder" where
  "recorder_record latency_ns r = r\<lparr>samples := samples r @ [latency_ns]\<rparr>"

definition recorder_count :: "latency_recorder \<Rightarrow> u64" where
  "recorder_count r = of_nat (length (samples r))"

definition recorder_clear :: "latency_recorder \<Rightarrow> latency_recorder" where
  "recorder_clear r = r\<lparr>samples := []\<rparr>"

text \<open>\<open>ScopedTimer\<close>: the destructor records the nanoseconds since the constructor.\<close>

definition scoped_timer :: "u64 \<Rightarrow> u64 \<Rightarrow> latency_recorder \<Rightarrow> latency_recorder" where
  "scoped_timer start_time end_time r = recorder_record (end_time - start_time) r"

definition u64_double :: "u64 \<Rightarrow> rat" where
  "u64_double w = dbl (of_nat (unat w))"

definition sorted_at :: "u64 list \<Rightarrow> u64 \<Rightarrow> u64 cpp" where
  "sorted_at xs i = (if unat i < length xs then Inr (xs ! unat i) else Inl Out_Of_Bounds)"

text \<open>
  \<open>percentile\<close>: every operation on \<open>double\<close> is rounded, the two indices and the result are
  converted back to integers.
\<close>

definition percentile :: "u64 list \<Rightarrow> rat \<Rightarrow> u64 cpp" where
  "percentile xs p =
     (if xs = [] then Inr 0
      else
        let index = dbl (dbl (p / 100) * u64_double (of_nat (length xs) - 1))
        in cpp_bind (to_u64 (of_int \<lfloor>index\<rfloor>)) (\<lambda>lower.
           cpp_bind (to_u64 (of_int \<lceil>index\<rceil>)) (\<lambda>upper.
             if lower = upper then sorted_at xs lower
             else
               let fraction = dbl (index - u64_double lower)
               in cpp_bind (sorted_at xs lower) (\<lambda>a.
                  cpp_bind (sorted_at xs upper) (\<lambda>b.
                    to_u64 (dbl (dbl (u64_double a * dbl (1 - fraction)) +
                                 dbl (u64_double b * fraction))))))))"

definition recorder_min :: "latency_recorder \<Rightarrow> u64" where
  "recorder_min r = (if samples r = [] then 0 else hd (sort (samples r)))"

definition recorder_max :: "latency_recorder \<Rightarrow> u64" where
  "recorder_max r = (if samples r = [] then 0 else last (sort (samples r)))"

text \<open>\<open>std::accumulate\<close> with \<open>0ULL\<close>: the sum is taken in 64 bits.\<close>

definition recorder_mean :: "latency_recorder \<Rightarrow> rat" where
  "recorder_mean r =
     (if samples r = [] then 0
      else dbl (u64_double (foldl (+) 0 (samples r)) / u64_double (of_nat (length (samples r)))))"

definition recorder_percentile :: "rat \<Rightarrow> latency_recorder \<Rightarrow> u64 cpp" where
  "recorder_percentile p r =
     (if samples r = [] then Inr 0 else percentile (sort (samples r)) p)"

definition recorder_p50 :: "latency_recorder \<Rightarrow> u64 cpp" where
  "recorder_p50 = recorder_percentile 50"

definition recorder_p90 :: "latency_recorder \<Rightarrow> u64 cpp" where
  "recorder_p90 = recorder_percentile 90"

definition recorder_p99 :: "latency_recorder \<Rightarrow> u64 cpp" where
  "recorder_p99 = recorder_percentile 99"

text \<open>The literal \<open>99.9\<close> is the nearest \<open>double\<close>.\<close>

definition recorder_p99_9 :: "latency_recorder \<Rightarrow> u64 cpp" where
  "recorder_p99_9 = recorder_percentile (dbl (999 / 10))"

subsection \<open>Printing\<close>

definition digit :: "nat \<Rightarrow> char" where
  "digit d = char_of (48 + d)"

fun decimal :: "nat \<Rightarrow> string" where
  "decimal n = (if n < 10 then [digit n] else decimal (n div 10) @ [digit (n mod 10)])"

declare decimal.simps [simp del]

text \<open>\<open>std::fixed << std::setprecision(2)\<close>: the exact value rounded to hundredths, ties to even.\<close>

definition fixed2 :: "rat \<Rightarrow> string" where
  "fixed2 x =
     (let c = nat (round_half_even (100 * x))
      in decimal (c div 100) @ ''.'' @ [digit (c div 10 mod 10), digit (c mod 10)])"

definition format_duration :: "u64 \<Rightarrow> string" where
  "format_duration ns =
     (if ns < 1000 then decimal (unat ns) @ '' ns''
      else if ns < 1000000 then fixed2 (dbl (u64_double ns / 1000)) @ '' us''
      else fixed2 (dbl (u64_double ns / 1000000)) @ '' ms'')"

definition newline :: string where
  "newline = [char_of (10 :: nat)]"

fun summary_lines :: "u64 list \<Rightarrow> (string \<times> rat) list \<Rightarrow> string cpp" where
  "summary_lines xs [] = Inr []"
| "summary_lines xs ((label, p) # rest) =
     cpp_bind (percentile xs p) (\<lambda>v.
       cpp_map (\<lambda>s. label @ format_duration v @ newline @ s) (summary_lines xs rest))"

definition print_summary :: "latency_recorder \<Rightarrow> string cpp" where
  "print_summary r =
     (if samples r = [] then Inr (''No samples recorded.'' @ newline)
      else
        let xs = sort (samples r)
        in cpp_bind (summary_lines xs
             [(''Min:     '', 0), (''P50:     '', 50), (''P90:     '', 90), (''P99:     '', 99),
              (''P99.9:   '', dbl (999 / 10)), (''Max:     '', 100)]) (\<lambda>lines.
           cpp_map (\<lambda>mean.
              newline @ ''=== Latency Statistics ==='' @ newline @
              ''Samples: '' @ decimal (length (samples r)) @ newline @ lines @
              ''Mean:    '' @ format_duration mean @ newline @
              ''========================'' @ newline @ newline)
             (to_u64 (recorder_mean r))))"

section \<open>Interpolation\<close>

text \<open>Three roundings cannot carry the interpolated value past either sample by a whole unit.\<close>

lemma dbl_bounds:
  assumes "0 \<le> x"
  shows "x * (1 - 1 / 2 ^ 53) \<le> dbl x" and "dbl x \<le> x * (1 + 1 / 2 ^ 53)"
proof -
  have "x - dbl x \<le> x / 2 ^ 53" and "dbl x - x \<le> x / 2 ^ 53"
    using dbl_near [OF assms] by linarith+
  then show "x * (1 - 1 / 2 ^ 53) \<le> dbl x" and "dbl x \<le> x * (1 + 1 / 2 ^ 53)"
    by (simp_all add: field_simps)
qed

lemma interpolation_near:
  fixes a b f :: rat
  assumes "0 \<le> a" and "0 \<le> b" and "0 \<le> f" and "f \<le> 1"
  defines "s \<equiv> dbl (dbl (a * dbl (1 - f)) + dbl (b * f))" and "x \<equiv> a * (1 - f) + b * f"
  shows "x * (1 - 1 / 2 ^ 53) ^ 3 \<le> s" and "s \<le> x * (1 + 1 / 2 ^ 53) ^ 3"
proof -
  define u :: rat where "u = 1 / 2 ^ 53"
  have u: "0 \<le> 1 - u" "0 \<le> 1 + u" "1 - u \<le> 1" "1 \<le> 1 + u" by (simp_all add: u_def)
  note d = dbl_bounds [folded u_def]
  have g: "(1 - f) * (1 - u) \<le> dbl (1 - f)" "dbl (1 - f) \<le> (1 - f) * (1 + u)"
    using d [of "1 - f"] assms(4) by simp_all
  have g0: "0 \<le> dbl (1 - f)" using assms(4) by (intro dbl_nonneg) simp
  have t1: "a * (1 - f) * (1 - u) ^ 2 \<le> dbl (a * dbl (1 - f))"
  proof -
    have "a * (1 - f) * (1 - u) ^ 2 = a * ((1 - f) * (1 - u)) * (1 - u)"
      by (simp add: power2_eq_square)
    also have "\<dots> \<le> a * dbl (1 - f) * (1 - u)"
      using g(1) assms(1) u(1) by (intro mult_right_mono mult_left_mono)
    also have "\<dots> \<le> dbl (a * dbl (1 - f))" using d(1) assms(1) g0 by simp
    finally show ?thesis .
  qed
  have t1': "dbl (a * dbl (1 - f)) \<le> a * (1 - f) * (1 + u) ^ 2"
  proof -
    have "dbl (a * dbl (1 - f)) \<le> a * dbl (1 - f) * (1 + u)" using d(2) assms(1) g0 by simp
    also have "\<dots> \<le> a * ((1 - f) * (1 + u)) * (1 + u)"
      using g(2) assms(1) u(2) by (intro mult_right_mono mult_left_mono)
    finally show ?thesis by (simp add: power2_eq_square)
  qed
  have bf: "0 \<le> b * f" using assms by simp
  have t2: "b * f * (1 - u) ^ 2 \<le> dbl (b * f)"
  proof -
    have "b * f * (1 - u) ^ 2 \<le> b * f * (1 - u)"
      using bf u by (intro mult_left_mono) (simp_all add: power2_eq_square mult_left_le)
    also have "\<dots> \<le> dbl (b * f)" by (rule d(1) [OF bf])
    finally show ?thesis .
  qed
  have t2': "dbl (b * f) \<le> b * f * (1 + u) ^ 2"
  proof -
    have "dbl (b * f) \<le> b * f * (1 + u)" by (rule d(2) [OF bf])
    also have "\<dots> \<le> b * f * (1 + u) ^ 2"
      using bf u by (intro mult_left_mono) (simp_all add: power2_eq_square)
    finally show ?thesis .
  qed
  have nonneg: "0 \<le> dbl (a * dbl (1 - f)) + dbl (b * f)"
    using assms(1) g0 bf by (simp add: dbl_nonneg)
  have "x * (1 - u) ^ 3 = (a * (1 - f) * (1 - u) ^ 2 + b * f * (1 - u) ^ 2) * (1 - u)"
    by (simp add: x_def algebra_simps power2_eq_square power3_eq_cube)
  also have "\<dots> \<le> (dbl (a * dbl (1 - f)) + dbl (b * f)) * (1 - u)"
    using t1 t2 u(1) by (intro mult_right_mono) simp_all
  also have "\<dots> \<le> s" unfolding s_def by (rule d(1) [OF nonneg])
  finally show "x * (1 - 1 / 2 ^ 53) ^ 3 \<le> s" by (simp only: u_def)
  have "s \<le> (dbl (a * dbl (1 - f)) + dbl (b * f)) * (1 + u)"
    unfolding s_def by (rule d(2) [OF nonneg])
  also have "\<dots> \<le> (a * (1 - f) * (1 + u) ^ 2 + b * f * (1 + u) ^ 2) * (1 + u)"
    using t1' t2' u(2) by (intro mult_right_mono) simp_all
  also have "\<dots> = x * (1 + u) ^ 3" by (simp add: x_def algebra_simps power2_eq_square power3_eq_cube)
  finally show "s \<le> x * (1 + 1 / 2 ^ 53) ^ 3" by (simp only: u_def)
qed

lemma between_weights:
  fixes a b f :: rat
  assumes "a \<le> b" and "0 \<le> f" and "f \<le> 1"
  shows "a \<le> a * (1 - f) + b * f" and "a * (1 - f) + b * f \<le> b"
proof -
  have "0 \<le> (b - a) * f" "0 \<le> (b - a) * (1 - f)" using assms by simp_all
  then show "a \<le> a * (1 - f) + b * f" and "a * (1 - f) + b * f \<le> b" by (simp_all add: algebra_simps)
qed

lemma interpolation_bounds:
  fixes a b f :: rat
  assumes "0 \<le> a" and "a \<le> b" and "0 \<le> f" and "f \<le> 1"
  defines "s \<equiv> dbl (dbl (a * dbl (1 - f)) + dbl (b * f))"
  shows "a * (1 - 1 / 2 ^ 53) ^ 3 \<le> s" and "s \<le> b * (1 + 1 / 2 ^ 53) ^ 3"
proof -
  note near = interpolation_near [OF assms(1) order_trans [OF assms(1,2)] assms(3,4), folded s_def]
  note x = between_weights [OF assms(2-4)]
  show "a * (1 - 1 / 2 ^ 53) ^ 3 \<le> s"
    by (rule order_trans [OF mult_right_mono [OF x(1)] near(1)]) simp
  show "s \<le> b * (1 + 1 / 2 ^ 53) ^ 3"
    by (rule order_trans [OF near(2) mult_right_mono [OF x(2)]]) simp
qed

text \<open>The interpolated value, with the fraction \<open>f\<close> rounded too, is less than one from the exact one.\<close>

lemma interpolation_error:
  fixes a b f :: rat
  assumes "0 \<le> a" and "a \<le> b" and "b \<le> 2 ^ 50" and "0 \<le> f" and "f \<le> 1"
  shows "\<bar>dbl (dbl (a * dbl (1 - dbl f)) + dbl (b * dbl f)) - (a * (1 - f) + b * f)\<bar> < 1"
proof -
  define g where "g = dbl f"
  define s where "s = dbl (dbl (a * dbl (1 - g)) + dbl (b * g))"
  define x where "x = a * (1 - g) + b * g"
  have g: "0 \<le> g" "g \<le> 1" "\<bar>g - f\<bar> \<le> 1 / 2 ^ 53"
    using dbl_nonneg [OF assms(4)] dbl_of_nat_mono' [of 1 f] dbl_near [OF assms(4)] assms(4,5)
    by (simp_all add: g_def)
  have x: "0 \<le> x" "x \<le> 2 ^ 50"
    using between_weights [OF assms(2) g(1,2)] assms(1,3) unfolding x_def by linarith+
  have s: "x * (1 - 1 / 2 ^ 53) ^ 3 \<le> s" "s \<le> x * (1 + 1 / 2 ^ 53) ^ 3"
    using interpolation_near [OF assms(1) order_trans [OF assms(1,2)] g(1,2)] by (simp_all only: s_def x_def)
  have "x - x * (1 - 1 / 2 ^ 53) ^ 3 \<le> 2 ^ 50 * (1 - (1 - 1 / 2 ^ 53) ^ 3)"
    and "x * (1 + 1 / 2 ^ 53) ^ 3 - x \<le> 2 ^ 50 * ((1 + 1 / 2 ^ 53) ^ 3 - 1)"
    using mult_right_mono [OF x(2), of "1 - (1 - 1 / 2 ^ 53) ^ 3"]
      mult_right_mono [OF x(2), of "(1 + 1 / 2 ^ 53) ^ 3 - 1"]
    by (simp_all add: power3_eq_cube right_diff_distrib)
  moreover have "2 ^ 50 * (1 - (1 - 1 / 2 ^ 53) ^ 3) < (1 / 2 :: rat)"
    and "2 ^ 50 * ((1 + 1 / 2 ^ 53) ^ 3 - 1) < (1 / 2 :: rat)" by (simp_all add: power3_eq_cube)
  ultimately have "\<bar>s - x\<bar> < 1 / 2" using s by linarith
  moreover have "\<bar>x - (a * (1 - f) + b * f)\<bar> \<le> 1 / 2"
  proof -
    have "x - (a * (1 - f) + b * f) = (b - a) * (g - f)" by (simp add: x_def algebra_simps)
    then have "\<bar>x - (a * (1 - f) + b * f)\<bar> = (b - a) * \<bar>g - f\<bar>" using assms(2) by (simp add: abs_mult)
    also have "\<dots> \<le> 2 ^ 50 * (1 / 2 ^ 53)"
      using assms(1-3) g(3) by (intro mult_mono) simp_all
    finally show ?thesis by simp
  qed
  ultimately have "\<bar>s - (a * (1 - f) + b * f)\<bar> < 1" by linarith
  then show ?thesis by (simp only: s_def g_def)
qed

lemma interpolation_floor:
  fixes a b :: nat
  assumes "a \<le> b" and "b \<le> 2 ^ 50" and "0 \<le> f" and "f \<le> 1"
  defines "s \<equiv> dbl (dbl (of_nat a * dbl (1 - f)) + dbl (of_nat b * f))"
  shows "0 \<le> s" and "int a - 1 \<le> \<lfloor>s\<rfloor>" and "\<lfloor>s\<rfloor> \<le> int b"
proof -
  have c: "(0 :: rat) \<le> of_nat a" "(of_nat a :: rat) \<le> of_nat b" using assms(1) by simp_all
  note s = interpolation_bounds [OF c assms(3,4), folded s_def]
  have ab: "(of_nat a :: rat) \<le> 2 ^ 50" "(of_nat b :: rat) \<le> 2 ^ 50"
    using assms(1,2) of_nat_mono [of a "2 ^ 50"] of_nat_mono [of b "2 ^ 50"] by auto
  have "of_nat a - 1 \<le> of_nat a * (1 - 1 / 2 ^ 53 :: rat) ^ 3"
    using ab(1) c(1) by (simp add: power3_eq_cube field_simps)
  with s(1) have low: "of_nat a - 1 \<le> s" by linarith
  have "of_nat b * (1 + 1 / 2 ^ 53 :: rat) ^ 3 < of_nat b + 1"
    using ab(2) by (simp add: power3_eq_cube field_simps)
  with s(2) have high: "s < of_nat b + 1" by linarith
  show "0 \<le> s" by (rule order_trans [OF _ s(1)]) simp
  show "int a - 1 \<le> \<lfloor>s\<rfloor>" using low by (simp add: le_floor_iff)
  show "\<lfloor>s\<rfloor> \<le> int b" using high by (simp add: floor_le_iff)
qed

section \<open>The percentile of sorted samples\<close>

lemma u64_double_small: "unat w \<le> 2 ^ 53 \<Longrightarrow> u64_double w = of_nat (unat w)"
  unfolding u64_double_def by (rule dbl_of_nat)

lemma to_u64_nat:
  assumes "n < 2 ^ 64"
  shows "to_u64 (of_int (int n)) = Inr (of_nat n)" and "unat (of_nat n :: u64) = n"
proof -
  have "int n < 2 ^ 64" using assms by (metis of_nat_less_numeral_power_cancel_iff)
  then show "to_u64 (of_int (int n)) = Inr (of_nat n)" by (simp add: to_u64_def)
  show "unat (of_nat n :: u64) = n" using assms by (simp add: unsigned_of_nat take_bit_nat_eq_self)
qed

lemma of_nat_pred: "0 < n \<Longrightarrow> (of_nat n - 1 :: u64) = of_nat (n - 1)"
  by (simp add: of_nat_diff)

text \<open>The exact value between two sorted samples at the rank \<open>i\<close>, a rational from 0 to the last index.\<close>

definition rank_value :: "u64 list \<Rightarrow> rat \<Rightarrow> rat" where
  "rank_value xs i =
     (let lower = nat \<lfloor>i\<rfloor>; f = i - of_nat lower
      in of_nat (unat (xs ! lower)) * (1 - f) + of_nat (unat (xs ! nat \<lceil>i\<rceil>)) * f)"

text \<open>The rank the code computes: two rounded operations, so 1 / 2^52 from the exact one at most.\<close>

lemma percentile_index:
  assumes "0 \<le> p" and "p \<le> 100" and "0 < n" and "n \<le> 2 ^ 53"
  defines "i \<equiv> dbl (dbl (p / 100) * u64_double (of_nat n - 1))"
  shows "0 \<le> i" and "i \<le> of_nat (n - 1)"
    and "\<bar>i - p / 100 * of_nat (n - 1)\<bar> \<le> of_nat (n - 1) / 2 ^ 52"
proof -
  have n64: "n - 1 < 2 ^ 64" by (rule le_less_trans [of _ "2 ^ 53"]) (use assms(4) in simp_all)
  have last: "u64_double (of_nat n - 1) = of_nat (n - 1)"
    using of_nat_pred [OF assms(3)] to_u64_nat(2) [OF n64] assms(4) u64_double_small [of "of_nat (n - 1)"] by simp
  have q: "0 \<le> dbl (p / 100)" "dbl (p / 100) \<le> 1"
    using assms(1,2) dbl_nonneg [of "p / 100"] dbl_of_nat_mono' [of 1 "p / 100"] by simp_all
  then have "0 \<le> dbl (p / 100) * of_nat (n - 1)"
    and "dbl (p / 100) * of_nat (n - 1) \<le> of_nat (n - 1)"
    by (simp_all add: mult_left_le_one_le)
  then show "0 \<le> i" and "i \<le> of_nat (n - 1)"
    unfolding i_def last using assms(4) by (simp_all add: dbl_nonneg dbl_of_nat_mono')
  define m :: rat where "m = of_nat (n - 1)"
  define q where "q = dbl (p / 100)"
  have m: "0 \<le> m" by (simp add: m_def)
  have "\<bar>q - p / 100\<bar> \<le> p / 100 / 2 ^ 53" unfolding q_def using assms(1) by (intro dbl_near) simp
  also have "\<dots> \<le> 1 / 2 ^ 53" using assms(2) by (intro divide_right_mono) simp_all
  finally have "\<bar>q - p / 100\<bar> * m \<le> 1 / 2 ^ 53 * m" using m by (rule mult_right_mono)
  moreover have "\<bar>q * m - p / 100 * m\<bar> = \<bar>q - p / 100\<bar> * m"
    unfolding left_diff_distrib [symmetric] abs_mult using m by simp
  ultimately have "\<bar>q * m - p / 100 * m\<bar> \<le> m / 2 ^ 53" by simp
  moreover have "\<bar>dbl (q * m) - q * m\<bar> \<le> m / 2 ^ 53"
    by (rule order_trans [OF dbl_near divide_right_mono]) (use m q in \<open>simp_all add: q_def mult_left_le_one_le\<close>)
  ultimately have "\<bar>dbl (q * m) - p / 100 * m\<bar> \<le> m / 2 ^ 53 + m / 2 ^ 53" by linarith
  then show "\<bar>i - p / 100 * of_nat (n - 1)\<bar> \<le> of_nat (n - 1) / 2 ^ 52"
    unfolding i_def last by (simp add: m_def q_def)
qed

lemma percentile_ok:
  assumes "sorted xs" and "xs \<noteq> []" and "length xs \<le> 2 ^ 53"
    and small: "\<And>x. x \<in> set xs \<Longrightarrow> unat x \<le> 2 ^ 50" and p: "0 \<le> p" "p \<le> 100"
  obtains v i where "percentile xs p = Inr v" and "0 \<le> i" and "i \<le> of_nat (length xs - 1)"
    and "\<bar>i - p / 100 * of_nat (length xs - 1)\<bar> \<le> of_nat (length xs - 1) / 2 ^ 52"
    and "unat (xs ! nat \<lfloor>i\<rfloor>) \<le> unat v + 1" and "unat v \<le> unat (xs ! nat \<lceil>i\<rceil>)"
    and "\<bar>of_nat (unat v) - rank_value xs i\<bar> < 2"
proof -
  let ?n = "length xs"
  define i where "i = dbl (dbl (p / 100) * u64_double (of_nat ?n - 1))"
  have n: "0 < ?n" using assms(2) by simp
  have i: "0 \<le> i" "i \<le> of_nat (?n - 1)"
      "\<bar>i - p / 100 * of_nat (?n - 1)\<bar> \<le> of_nat (?n - 1) / 2 ^ 52"
    using percentile_index [OF p n assms(3)] by (simp_all add: i_def)
  define lo where "lo = nat \<lfloor>i\<rfloor>"
  define hi where "hi = nat \<lceil>i\<rceil>"
  have lo: "\<lfloor>i\<rfloor> = int lo" and hi: "\<lceil>i\<rceil> = int hi" using i(1) by (simp_all add: lo_def hi_def)
  have "\<lceil>i\<rceil> \<le> int (?n - 1)" using i(2) by (simp add: ceiling_le_iff)
  then have hi_n: "hi < ?n" using n hi by linarith
  have order: "lo \<le> hi" "hi \<le> lo + 1"
    using floor_le_ceiling [of i] ceiling_diff_floor_le_1 [of i] lo hi by linarith+
  have big: "lo < 2 ^ 64" "hi < 2 ^ 64"
    by (rule le_less_trans [of _ "2 ^ 53"]; use order hi_n assms(3) in simp)+
  note idx = to_u64_nat [OF big(1)] to_u64_nat [OF big(2)]
  have at: "sorted_at xs (of_nat k) = Inr (xs ! k)" if "k < ?n" "k < 2 ^ 64" for k
    using that to_u64_nat(2) [of k] by (simp add: sorted_at_def)
  have loop: "percentile xs p =
      (if (of_nat lo :: u64) = of_nat hi then sorted_at xs (of_nat lo)
       else let fraction = dbl (i - u64_double (of_nat lo))
        in cpp_bind (sorted_at xs (of_nat lo)) (\<lambda>a. cpp_bind (sorted_at xs (of_nat hi)) (\<lambda>b.
             to_u64 (dbl (dbl (u64_double a * dbl (1 - fraction)) + dbl (u64_double b * fraction))))))"
    using assms(2) idx(1,3)
    by (simp add: percentile_def lo hi flip: i_def del: of_int_of_nat_eq)
  show thesis
  proof (cases "lo = hi")
    case True
    have "percentile xs p = Inr (xs ! lo)" unfolding loop using True at hi_n big by simp
    moreover have "rank_value xs i = of_nat (unat (xs ! lo))"
      using True i(1) floor_le_ceiling [of i] of_int_floor_le [of i] le_of_int_ceiling [of i] unfolding rank_value_def lo hi by simp
    moreover have "nat \<lfloor>i\<rfloor> = lo" "nat \<lceil>i\<rceil> = lo" using True by (simp_all add: lo hi)
    ultimately show thesis using that [of "xs ! lo" i] i by auto
  next
    case False
    then have ne: "(of_nat lo :: u64) \<noteq> of_nat hi" using idx(2,4) by metis
    have lo_n: "lo < ?n" using order hi_n by simp
    let ?f = "dbl (i - of_nat lo)" and ?a = "unat (xs ! lo)" and ?b = "unat (xs ! hi)"
    let ?s = "dbl (dbl (of_nat ?a * dbl (1 - ?f)) + dbl (of_nat ?b * ?f))"
    have frac: "0 \<le> i - of_nat lo" "i - of_nat lo \<le> of_nat 1"
      using floor_correct [of i] unfolding lo by simp_all
    have f: "0 \<le> ?f" "?f \<le> 1"
      using dbl_nonneg [OF frac(1)] dbl_of_nat_mono' [OF _ frac] by simp_all
    have ab: "?a \<le> ?b" using sorted_nth_mono [OF assms(1) order(1) hi_n] by (simp add: word_le_nat_alt)
    have b: "?b \<le> 2 ^ 50" using small hi_n by simp
    have "u64_double (of_nat lo) = of_nat lo"
      using u64_double_small [of "of_nat lo"] idx(2) lo_n assms(3) by simp
    moreover have "?a \<le> 2 ^ 53" "?b \<le> 2 ^ 53" using ab b by simp_all
    from this [THEN u64_double_small]
    have "u64_double (xs ! lo) = of_nat ?a" "u64_double (xs ! hi) = of_nat ?b" .
    ultimately have run: "percentile xs p = to_u64 ?s"
      unfolding loop using ne at [OF lo_n big(1)] at [OF hi_n big(2)] by (simp add: Let_def)
    note s = interpolation_floor [OF ab b f]
    have "\<lfloor>?s\<rfloor> < 2 ^ 64"
      by (rule le_less_trans [OF s(3)])
         (use unsigned_less [of "xs ! hi", where ?'a = int] in simp)
    from to_u64_ok [OF s(1) this] s(2,3) obtain v where
      v: "percentile xs p = Inr v" "uint v = \<lfloor>?s\<rfloor>" "int ?a - 1 \<le> uint v" "uint v \<le> int ?b"
      unfolding run by metis
    from v(3,4) have "int ?a \<le> int (unat v) + 1" "int (unat v) \<le> int ?b" by simp_all
    then have bounds: "?a \<le> unat v + 1" "unat v \<le> ?b" by linarith+
    have "(of_nat ?a :: rat) \<le> of_nat ?b" "(of_nat ?b :: rat) \<le> 2 ^ 50"
      using of_nat_mono [OF ab, where ?'a = rat] of_nat_mono [OF b, where ?'a = rat] by simp_all
    from interpolation_error [OF of_nat_0_le_iff this frac(1)] frac(2)
    have "\<bar>?s - rank_value xs i\<bar> < 1" by (simp add: rank_value_def Let_def lo hi)
    moreover have "(of_nat (unat v) :: rat) = of_int \<lfloor>?s\<rfloor>" unfolding v(2) [symmetric] by simp
    then have "(of_nat (unat v) :: rat) \<le> ?s" "?s < of_nat (unat v) + 1"
      using floor_correct [of ?s] by simp_all
    ultimately have "\<bar>of_nat (unat v) - rank_value xs i\<bar> < 2" by linarith
    with bounds show thesis by (intro that [OF v(1) i]) (simp_all add: lo hi)
  qed
qed

lemma percentile_ends:
  assumes "sorted xs" and "xs \<noteq> []" and "length xs \<le> 2 ^ 53"
  shows "percentile xs 0 = Inr (hd xs)" and "percentile xs 100 = Inr (last xs)"
proof -
  let ?n = "length xs"
  have n: "0 < ?n" using assms(2) by simp
  have n64: "?n - 1 < 2 ^ 64" by (rule le_less_trans [of _ "2 ^ 53"]) (use assms(3) in simp_all)
  have w: "(of_nat ?n - 1 :: u64) = of_nat (?n - 1)" using n by (rule of_nat_pred)
  have last: "u64_double (of_nat ?n - 1) = of_nat (?n - 1)"
    using to_u64_nat(2) [OF n64] assms(3) u64_double_small [of "of_nat (?n - 1)"] by (simp add: w)
  have at: "sorted_at xs (of_nat (?n - 1)) = Inr (last xs)"
    unfolding sorted_at_def to_u64_nat(2) [OF n64] using n by (simp add: last_conv_nth)
  have idx: "to_u64 (of_int (int (?n - 1))) = Inr (of_nat (?n - 1))" by (rule to_u64_nat(1) [OF n64])
  have zero: "to_u64 0 = Inr 0" by (simp add: to_u64_def)
  show "percentile xs 0 = Inr (hd xs)"
    using assms(2) by (simp add: percentile_def zero sorted_at_def hd_conv_nth)
  have one: "dbl (100 / 100) = 1" using dbl_of_nat [of 1] by simp
  have i: "dbl (dbl (100 / 100) * u64_double (of_nat ?n - 1)) = of_int (int (?n - 1))"
    unfolding last one using dbl_of_nat [of "?n - 1"] assms(3) by simp
  have "percentile xs 100 = sorted_at xs (of_nat (?n - 1))"
    unfolding percentile_def Let_def i floor_of_int ceiling_of_int idx cpp_bind_simps
    using assms(2) by simp
  with at show "percentile xs 100 = Inr (last xs)" by simp
qed

lemma foldl_sum_list: "foldl (+) a xs = a + sum_list (xs :: u64 list)"
  by (induction xs arbitrary: a) (simp_all add: add.assoc)

lemma recorder_mean_exact:
  assumes "samples r \<noteq> []" and "sum_list (map unat (samples r)) \<le> 2 ^ 53"
    and "length (samples r) \<le> 2 ^ 53"
  shows "recorder_mean r =
    dbl (of_nat (sum_list (map unat (samples r))) / of_nat (length (samples r)))"
proof -
  let ?xs = "samples r"
  have "sum_list (map unat ?xs) < 2 ^ LENGTH(64)"
    by (rule le_less_trans [OF assms(2)]) simp
  then have sum: "unat (foldl (+) 0 ?xs) = sum_list (map unat ?xs)"
    using unat_sum_list [of "\<lambda>x. x" ?xs] by (simp add: foldl_sum_list)
  have "length ?xs < 2 ^ 64" by (rule le_less_trans [OF assms(3)]) simp
  then have len: "unat (of_nat (length ?xs) :: u64) = length ?xs" by (rule to_u64_nat(2))
  have "u64_double (foldl (+) 0 ?xs) = of_nat (sum_list (map unat ?xs))"
    using u64_double_small [of "foldl (+) 0 ?xs"] assms(2) unfolding sum by blast
  moreover have "u64_double (of_nat (length ?xs)) = of_nat (length ?xs)"
    using u64_double_small [of "of_nat (length ?xs)"] assms(3) unfolding len by blast
  ultimately show ?thesis using assms(1) by (simp add: recorder_mean_def)
qed

lemma recorder_mean_bounds:
  assumes "samples r \<noteq> []" and "sum_list (map unat (samples r)) \<le> 2 ^ 53"
    and "length (samples r) \<le> 2 ^ 53" and "\<And>x. x \<in> set (samples r) \<Longrightarrow> lo \<le> unat x \<and> unat x \<le> hi"
    and "hi \<le> 2 ^ 53"
  shows "of_nat lo \<le> recorder_mean r" and "recorder_mean r \<le> of_nat hi"
proof -
  let ?n = "length (samples r)" and ?s = "sum_list (map unat (samples r))"
  have n: "0 < (of_nat ?n :: rat)" using assms(1) by simp
  have "?n * lo \<le> ?s" "?s \<le> ?n * hi"
    using sum_list_ge_const [of "samples r" lo unat] sum_list_le_const [of "samples r" unat hi] assms(4)
    by blast+
  then have "(of_nat (?n * lo) :: rat) \<le> of_nat ?s" "(of_nat ?s :: rat) \<le> of_nat (?n * hi)"
    by (simp_all only: of_nat_le_iff)
  then have "of_nat lo \<le> (of_nat ?s / of_nat ?n :: rat)" "(of_nat ?s / of_nat ?n :: rat) \<le> of_nat hi"
    using n by (simp_all add: pos_le_divide_eq pos_divide_le_eq mult.commute)
  moreover have "lo \<le> hi" using assms(1,4) by (cases "samples r") fastforce+
  then have "lo \<le> 2 ^ 53" using assms(5) by simp
  moreover have "0 \<le> (of_nat ?s / of_nat ?n :: rat)" by simp
  ultimately show "of_nat lo \<le> recorder_mean r" and "recorder_mean r \<le> of_nat hi"
    unfolding recorder_mean_exact [OF assms(1-3)]
    using dbl_of_nat_mono [of lo] dbl_of_nat_mono' [OF assms(5)] by blast+
qed

lemma summary_lines_defined:
  "(\<And>p. p \<in> snd ` set rows \<Longrightarrow> \<exists>v. percentile xs p = Inr v) \<Longrightarrow>
   \<exists>out. summary_lines xs rows = Inr out"
  by (induction xs rows rule: summary_lines.induct) force+

text \<open>Two decimal digits of a quotient that was rounded twice.\<close>

lemma hundredths_near:
  assumes "k = 1000 \<and> unat ns < 1000000 \<or> k = 1000000"
  shows "\<bar>of_nat (nat (round_half_even (100 * dbl (u64_double ns / k)))) / 100 - of_nat (unat ns) / k\<bar> \<le> 1 / 100"
proof -
  define n :: rat where "n = of_nat (unat ns)"
  define d where "d = u64_double ns"
  define x where "x = dbl (d / k)"
  have k: "0 < k" using assms by auto
  have n: "0 \<le> n" unfolding n_def by (rule of_nat_0_le_iff)
  have "unat ns < 2 ^ 64" using unsigned_less [of ns, where ?'a = nat] by simp
  then have "n \<le> of_nat (2 ^ 64)" unfolding n_def by (simp only: of_nat_le_iff less_imp_le)
  moreover have "n \<le> of_nat 1000000" if "unat ns < 1000000"
    unfolding n_def using that by (simp only: of_nat_le_iff less_imp_le)
  ultimately have nk: "n / k \<le> 2 ^ 64 / 1000000" using assms by (auto simp: field_simps)
  have d: "0 \<le> d" "\<bar>d - n\<bar> \<le> n / 2 ^ 53"
    using dbl_nonneg [OF n] dbl_near [OF n] by (simp_all add: d_def u64_double_def n_def)
  have "\<bar>d - n\<bar> / k \<le> n / 2 ^ 53 / k" using d(2) k by (intro divide_right_mono) simp_all
  then have dk: "\<bar>d / k - n / k\<bar> \<le> (n / k) / 2 ^ 53"
    using k by (simp add: diff_divide_distrib [symmetric] abs_divide)
  have x0: "0 \<le> x" unfolding x_def using d(1) k by (intro dbl_nonneg) simp
  have "\<bar>x - d / k\<bar> \<le> (d / k) / 2 ^ 53" unfolding x_def using d(1) k by (intro dbl_near) simp
  have p53: "(2 :: rat) ^ 53 = 9007199254740992"
    and p64: "(2 :: rat) ^ 64 / 1000000 \<le> 18446744073710" by simp_all
  have "\<bar>x - N\<bar> \<le> 1 / 200"
    if "\<bar>x - D\<bar> \<le> D / 2 ^ 53" "\<bar>D - N\<bar> \<le> N / 2 ^ 53" "N \<le> 2 ^ 64 / 1000000" for D N :: rat
    using that(1,2) order_trans [OF that(3) p64] unfolding p53 by linarith
  with \<open>\<bar>x - d / k\<bar> \<le> (d / k) / 2 ^ 53\<close> have "\<bar>x - n / k\<bar> \<le> 1 / 200" using dk nk by blast
  moreover have "\<bar>of_int (round_half_even (100 * x)) - 100 * x\<bar> \<le> 1 / 2"
    by (rule round_half_even_near)
  moreover have "0 \<le> round_half_even (100 * x)"
    using round_half_even_mono [of 0 "100 * x"] x0 round_half_even_of_int [of 0] by simp
  then have "(of_nat (nat (round_half_even (100 * x))) :: rat) = of_int (round_half_even (100 * x))"
    by simp
  ultimately have "\<bar>of_nat (nat (round_half_even (100 * x))) / 100 - n / k\<bar> \<le> 1 / 100" by linarith
  then show ?thesis by (simp only: x_def d_def n_def)
qed

lemma mean_wraps: "recorder_mean \<lparr>samples = [2 ^ 63, 2 ^ 63]\<rparr> = 0"
  by code_simp

lemma dbl_pow2: "dbl (2 ^ e) = 2 ^ e"
  using round_pos_pow2 [of "int e"] by (simp add: dbl_def)

lemma u64_double_minus_one: "u64_double (- 1) = 2 ^ 64"
proof -
  have b: "binade 18446744073709551615 = 63" by (rule binade_unique) (simp_all add: power_int_def)
  have "\<lfloor>18446744073709551615 / 2048 :: rat\<rfloor> = 9007199254740991" by (rule floor_unique) simp_all
  then have "round_half_even (18446744073709551615 / 2048) = 2 ^ 53"
    by (simp add: round_half_even_def Let_def)
  then have "round_pos 18446744073709551615 = 2 ^ 64"
    by (simp add: round_pos_def b Let_def power_int_def)
  moreover have "unat (- 1 :: u64) = 18446744073709551615"
    using unat_sub_if_size [of 0 "1 :: u64"] by (simp add: word_size)
  ultimately show ?thesis by (simp add: u64_double_def dbl_def)
qed

lemma median_overflows: "recorder_p50 \<lparr>samples = [- 1, - 1]\<rparr> = Inl Bad_Cast"
proof -
  have half: "dbl (1 / 2) = 1 / 2" using round_pos_pow2 [of "- 1"] by (simp add: dbl_def power_int_minus)
  have one: "u64_double 1 = 1" using u64_double_small [of 1] by simp
  have zero: "u64_double 0 = 0" by (simp add: u64_double_def)
  have fl: "\<lfloor>1 / 2 :: rat\<rfloor> = 0" "\<lceil>1 / 2 :: rat\<rceil> = 1" by (simp_all add: floor_eq_iff ceiling_eq_iff)
  have idx: "to_u64 0 = Inr 0" "to_u64 1 = Inr 1" by (simp_all add: to_u64_def)
  have pow: "dbl 9223372036854775808 = 9223372036854775808"
      "dbl 18446744073709551616 = 18446744073709551616"
    using dbl_pow2 [of 63] dbl_pow2 [of 64] by simp_all
  have at: "sorted_at [- 1, - 1] 0 = Inr (- 1)" "sorted_at [- 1, - 1] 1 = Inr (- 1)"
    by (simp_all add: sorted_at_def)
  have "to_u64 18446744073709551616 = Inl Bad_Cast" by (simp add: to_u64_def)
  then show ?thesis
    by (simp add: recorder_p50_def recorder_percentile_def percentile_def half one zero fl idx at
        u64_double_minus_one pow Let_def)
qed

section \<open>Short samples\<close>

text \<open>
  Samples below 2^50 ns (13 days) whose sum and number stay below 2^53: the doubles of the statistics
  stay in the range of the integers they are converted to.
\<close>

definition short_samples :: "latency_recorder \<Rightarrow> bool" where
  "short_samples r \<longleftrightarrow> length (samples r) \<le> 2 ^ 53 \<and> sum_list (map unat (samples r)) \<le> 2 ^ 53 \<and>
     (\<forall>x \<in> set (samples r). unat x \<le> 2 ^ 50)"

text \<open>A run in which no time passes leaves such samples.\<close>

definition all_zero :: "latency_recorder \<Rightarrow> bool" where
  "all_zero r \<longleftrightarrow> set (samples r) \<subseteq> {0}"

lemma all_zero_simps [simp]:
  "all_zero recorder_new" "all_zero (recorder_record x r) \<longleftrightarrow> x = 0 \<and> all_zero r"
  by (auto simp: all_zero_def recorder_new_def recorder_record_def)

lemma all_zero_short:
  assumes "all_zero r" and "length (samples r) \<le> 2 ^ 53"
  shows "short_samples r"
proof -
  have zero: "unat x = 0" if "x \<in> set (samples r)" for x using assms(1) that by (auto simp: all_zero_def)
  then have "map unat (samples r) = map (\<lambda>_. 0) (samples r)" by simp
  then have sum: "sum_list (map unat (samples r)) = 0" by (simp only: sum_list_0)
  show ?thesis unfolding short_samples_def sum using zero assms(2) by simp
qed

section \<open>Properties\<close>

definition sample_recorder :: latency_recorder where
  "sample_recorder = recorder_record 30 (recorder_record 10 (recorder_record 20 recorder_new))"

text \<open>
  The extremes: \<open>min\<close> and \<open>max\<close> are the least and the greatest recorded sample, and
  \<open>percentile\<close> at 0 and at 100 gives the same two values.
\<close>

lemma recorder_extremes:
  assumes "samples r \<noteq> []" and "length (samples r) \<le> 2 ^ 53"
  shows "recorder_min r = Min (set (samples r)) \<and> recorder_max r = Max (set (samples r)) \<and>
     recorder_percentile 0 r = Inr (recorder_min r) \<and> recorder_percentile 100 r = Inr (recorder_max r)"
proof -
  let ?xs = "sort (samples r)"
  have ne: "?xs \<noteq> []" using assms(1) by (metis length_0_conv length_sort)
  have "hd ?xs = Min (set ?xs)"
  proof (rule Min_eqI [symmetric])
    show "hd ?xs \<le> y" if "y \<in> set ?xs" for y
      using sorted_sort [of "samples r"] that ne by (cases ?xs) auto
    show "hd ?xs \<in> set ?xs" using ne by (rule hd_in_set)
  qed simp
  moreover have "last ?xs = Max (set ?xs)"
  proof (rule Max_eqI [symmetric])
    show "y \<le> last ?xs" if y: "y \<in> set ?xs" for y
    proof -
      obtain k where "k < length ?xs" "?xs ! k = y" using y by (auto simp: in_set_conv_nth [of y ?xs] simp del: set_sort)
      moreover have "?xs ! k \<le> ?xs ! (length ?xs - 1)"
        using calculation(1) by (intro sorted_nth_mono sorted_sort) simp_all
      ultimately show ?thesis using ne by (simp add: last_conv_nth)
    qed
    show "last ?xs \<in> set ?xs" using ne by (rule last_in_set)
  qed simp
  moreover have "percentile ?xs 0 = Inr (hd ?xs)" "percentile ?xs 100 = Inr (last ?xs)"
    using percentile_ends [OF sorted_sort ne] assms(2) by simp_all
  ultimately show ?thesis
    using assms(1) by (simp add: recorder_min_def recorder_max_def recorder_percentile_def)
qed

text \<open>
  Property C30. Percentiles are linear interpolation: on up to 2^53 samples of at most 2^50 ns each, at
  least one, the \<open>p\<close>-th percentile (0 to 100) is defined; there is a rank \<open>i\<close> within the vector, off the
  exact rank \<open>p / 100 * (n - 1)\<close> by the rounding of two operations only (1 / 2^52 of \<open>n - 1\<close>), such that the
  result differs by less than 2 ns from the exact interpolation at \<open>i\<close>, is not above the sorted sample after
  \<open>i\<close> and not more than 1 ns below the one before \<open>i\<close>.
\<close>

theorem percentile_between:
  assumes "samples r \<noteq> []" and "length (samples r) \<le> 2 ^ 53"
    and "\<forall>x \<in> set (samples r). unat x \<le> 2 ^ 50" and "0 \<le> p" and "p \<le> 100"
  shows "\<exists>v i. recorder_percentile p r = Inr v \<and> 0 \<le> i \<and> i \<le> of_nat (length (samples r) - 1) \<and>
     \<bar>i - p / 100 * of_nat (length (samples r) - 1)\<bar> \<le> of_nat (length (samples r) - 1) / 2 ^ 52 \<and>
     \<bar>of_nat (unat v) - rank_value (sort (samples r)) i\<bar> < 2 \<and>
     unat (sort (samples r) ! nat \<lfloor>i\<rfloor>) \<le> unat v + 1 \<and> unat v \<le> unat (sort (samples r) ! nat \<lceil>i\<rceil>)"
proof -
  have ne: "sort (samples r) \<noteq> []" using assms(1) by (metis length_0_conv length_sort)
  have len: "length (sort (samples r)) \<le> 2 ^ 53" using assms(2) by simp
  have small: "\<And>x. x \<in> set (sort (samples r)) \<Longrightarrow> unat x \<le> 2 ^ 50" using assms(3) by simp
  show ?thesis
  proof (rule percentile_ok [OF sorted_sort ne len small assms(4,5)], unfold length_sort)
    fix v i
    assume "percentile (sort (samples r)) p = Inr v" "0 \<le> i" "i \<le> of_nat (length (samples r) - 1)"
      "\<bar>i - p / 100 * of_nat (length (samples r) - 1)\<bar> \<le> of_nat (length (samples r) - 1) / 2 ^ 52"
      "unat (sort (samples r) ! nat \<lfloor>i\<rfloor>) \<le> unat v + 1" "unat v \<le> unat (sort (samples r) ! nat \<lceil>i\<rceil>)"
      "\<bar>of_nat (unat v) - rank_value (sort (samples r)) i\<bar> < 2"
    with assms(1) show ?thesis by (intro exI [of _ v] exI [of _ i]) (simp add: recorder_percentile_def)
  qed simp
qed

text \<open>The 90th percentile of 10, 20 and 30 lies between the last two.\<close>

theorem percentile_between_witness:
  "\<exists>v. recorder_p90 sample_recorder = Inr v \<and> 19 \<le> unat v \<and> unat v \<le> 30"
proof -
  have s: "sort (samples sample_recorder) = [10, 20, 30]" and n: "length (samples sample_recorder) - 1 = 2"
    by (simp_all add: sample_recorder_def recorder_record_def recorder_new_def)
  have "samples sample_recorder \<noteq> []" "length (samples sample_recorder) \<le> 2 ^ 53"
      "\<forall>x \<in> set (samples sample_recorder). unat x \<le> 2 ^ 50"
    by (simp_all add: sample_recorder_def recorder_record_def recorder_new_def)
  from percentile_between [OF this, of 90] obtain v and i :: rat where
    v: "recorder_percentile 90 sample_recorder = Inr v" "i \<le> 2" "\<bar>i - 90 / 100 * 2\<bar> \<le> 2 / 2 ^ 52"
      "unat ([10, 20, 30 :: u64] ! nat \<lfloor>i\<rfloor>) \<le> unat v + 1" "unat v \<le> unat ([10, 20, 30 :: u64] ! nat \<lceil>i\<rceil>)"
    unfolding s n by auto
  have "90 / 100 * 2 - i \<le> 2 / 2 ^ 52" using abs_le_D2 [OF v(3)] by simp
  also have "\<dots> \<le> 1 / 2" by simp
  finally have i: "1 < i" by simp
  have "\<lceil>i\<rceil> = 2" using i v(2) by (simp add: ceiling_eq_iff)
  moreover have "\<lfloor>i\<rfloor> = 1 \<or> \<lfloor>i\<rfloor> = 2" using i v(2) by (auto simp: floor_eq_iff)
  ultimately show ?thesis using v(1,4,5) by (auto simp: recorder_p90_def)
qed

text \<open>
  The mean of samples whose sum stays within 2^53 lies between the least and the greatest
  sample.
\<close>

lemma mean_between:
  assumes "samples r \<noteq> []" and "sum_list (map unat (samples r)) \<le> 2 ^ 53"
    and "length (samples r) \<le> 2 ^ 53" and "\<forall>x \<in> set (samples r). lo \<le> unat x \<and> unat x \<le> hi"
    and "hi \<le> 2 ^ 53"
  shows "of_nat lo \<le> recorder_mean r \<and> recorder_mean r \<le> of_nat hi"
  using recorder_mean_bounds [OF assms(1-3) _ assms(5), of lo] assms(4) by blast

text \<open>
  The summary can be printed: for samples up to 2^50 ns whose sum stays within 2^53,
  no conversion in \<open>print_summary\<close> is undefined.
\<close>

lemma print_summary_defined:
  assumes "sum_list (map unat (samples r)) \<le> 2 ^ 53" and "length (samples r) \<le> 2 ^ 53"
    and "\<forall>x \<in> set (samples r). unat x \<le> 2 ^ 50"
  shows "\<exists>out. print_summary r = Inr out"
proof (cases "samples r = []")
  case True
  then show ?thesis by (simp add: print_summary_def)
next
  case False
  let ?xs = "sort (samples r)"
  have ne: "?xs \<noteq> []" using False by (metis length_0_conv length_sort)
  have len: "length ?xs \<le> 2 ^ 53" using assms(2) by simp
  have small: "\<And>x. x \<in> set ?xs \<Longrightarrow> unat x \<le> 2 ^ 50" using assms(3) by simp
  have pc: "\<exists>v. percentile ?xs p = Inr v" if "0 \<le> p" "p \<le> 100" for p
    using percentile_ok [OF sorted_sort ne len small that] by metis
  have p99_9: "0 \<le> dbl (999 / 10)" "dbl (999 / 10) \<le> 100"
    using dbl_nonneg [of "999 / 10"] dbl_of_nat_mono' [of 100 "999 / 10"] by simp_all
  obtain out where out: "summary_lines ?xs
      [(''Min:     '', 0), (''P50:     '', 50), (''P90:     '', 90), (''P99:     '', 99),
       (''P99.9:   '', dbl (999 / 10)), (''Max:     '', 100)] = Inr out"
    using summary_lines_defined [of "[(''Min:     '', 0), (''P50:     '', 50), (''P90:     '', 90),
       (''P99:     '', 99), (''P99.9:   '', dbl (999 / 10)), (''Max:     '', 100)]" ?xs]
      pc p99_9 by fastforce
  have m: "of_nat 0 \<le> recorder_mean r" "recorder_mean r \<le> of_nat (2 ^ 50)"
    using recorder_mean_bounds [OF False assms(1,2), of 0 "2 ^ 50"] assms(3) by simp_all
  then have "\<lfloor>recorder_mean r\<rfloor> < 2 ^ 64" by (simp add: floor_less_iff)
  then have "to_u64 (recorder_mean r) = Inr (word_of_int \<lfloor>recorder_mean r\<rfloor>)"
    using m(1) by (intro to_u64_ok(1)) simp_all
  with False out show ?thesis by (simp add: print_summary_def Let_def)
qed

text \<open>
  Where the statistics fail: two samples of 2^63 ns have the mean 0, because their sum
  wraps in 64 bits, and two samples of 2^64 - 1 (a negative clock difference) make the median's
  conversion back to an integer undefined.
\<close>

lemma metrics_limits:
  "recorder_mean \<lparr>samples = [2 ^ 63, 2 ^ 63]\<rparr> = 0 \<and>
   recorder_p50 \<lparr>samples = [- 1, - 1]\<rparr> = Inl Bad_Cast"
  by (rule conjI [OF mean_wraps median_overflows])

text \<open>
  \<open>format_duration\<close> shows nanoseconds exactly below a microsecond, and otherwise a
  number of hundredths of the unit that differs from the exact value by at most one hundredth.
\<close>

lemma format_duration_accuracy:
  "if ns < 1000 then format_duration ns = decimal (unat ns) @ '' ns''
   else \<exists>c. format_duration ns =
        decimal (c div 100) @ ''.'' @ [digit (c div 10 mod 10), digit (c mod 10)] @
        (if ns < 1000000 then '' us'' else '' ms'') \<and>
      \<bar>of_nat c / 100 - of_nat (unat ns) / (if ns < 1000000 then 1000 else 1000000 :: rat)\<bar> \<le> 1 / 100"
proof (cases "ns < 1000")
  case False
  define k :: rat where "k = (if ns < 1000000 then 1000 else 1000000)"
  define c where "c = nat (round_half_even (100 * dbl (u64_double ns / k)))"
  have "format_duration ns = decimal (c div 100) @ ''.'' @ [digit (c div 10 mod 10), digit (c mod 10)] @
      (if ns < 1000000 then '' us'' else '' ms'')"
    using False by (simp add: format_duration_def fixed2_def Let_def c_def k_def)
  moreover have "\<bar>of_nat c / 100 - of_nat (unat ns) / k\<bar> \<le> 1 / 100"
    unfolding c_def by (rule hundredths_near) (auto simp: k_def word_less_nat_alt)
  ultimately show ?thesis using False unfolding k_def by auto
qed (simp add: format_duration_def)

end
