(* ===== verification/Benchmarks.thy ===== *)
theory Benchmarks
  imports Generator Metrics
begin

text \<open>
  The single-threaded benchmark programs: \<open>benchmark_single_thread.cpp\<close>, \<open>run_case\<close> of
  \<open>benchmark_memory_pool.cpp\<close> and \<open>benchmark_batching.cpp\<close>. The book is a parameter, as
  \<open>Book\<close> is in \<open>run_case\<close>; \<open>steady_clock\<close> is the sequence of its readings, and the state
  carries the number of readings taken.
\<close>

section \<open>Timed processing of messages\<close>

record 'b bench =
  bench_book :: 'b
  bench_latency :: latency_recorder
  bench_reads :: nat

definition bench_new :: "'b \<Rightarrow> 'b bench" where
  "bench_new b = \<lparr>bench_book = b, bench_latency = recorder_new, bench_reads = 0\<rparr>"

text \<open>The body of the measuring loops: clock, \<open>on_message\<close>, clock, \<open>record\<close>.\<close>

definition timed_message ::
  "('b \<Rightarrow> market_message \<Rightarrow> 'b cpp) \<Rightarrow> (nat \<Rightarrow> u64) \<Rightarrow> market_message \<Rightarrow> 'b bench \<Rightarrow> 'b bench cpp" where
  "timed_message on_msg clock msg s =
     (let msg_start = clock (bench_reads s)
      in cpp_map (\<lambda>book.
           let msg_end = clock (bench_reads s + 1)
           in s\<lparr>bench_book := book,
                bench_latency := recorder_record (msg_end - msg_start) (bench_latency s),
                bench_reads := bench_reads s + 2\<rparr>)
         (on_msg (bench_book s) msg))"

fun timed_loop ::
  "('b \<Rightarrow> market_message \<Rightarrow> 'b cpp) \<Rightarrow> (nat \<Rightarrow> u64) \<Rightarrow> market_message list \<Rightarrow> 'b bench \<Rightarrow> 'b bench cpp"
where
  "timed_loop on_msg clock [] s = Inr s"
| "timed_loop on_msg clock (msg # msgs) s =
     cpp_bind (timed_message on_msg clock msg s) (timed_loop on_msg clock msgs)"

text \<open>
  \<open>benchmark_single_thread\<close>: a warm-up over the first 1000 messages (or all, if there are fewer),
  then every message measured; one clock reading starts the measurement and one ends it.
\<close>

definition warmup_count :: nat where
  "warmup_count = 1000"

definition single_thread ::
  "('b \<Rightarrow> market_message \<Rightarrow> 'b cpp) \<Rightarrow> (nat \<Rightarrow> u64) \<Rightarrow> market_message list \<Rightarrow> 'b \<Rightarrow>
   ('b bench \<times> u64) cpp" where
  "single_thread on_msg clock messages fresh =
     cpp_bind
       (feed on_msg (map (\<lambda>i. messages ! i) [0..<min warmup_count (length messages)]) fresh)
       (\<lambda>book. let s = (bench_new book)\<lparr>bench_reads := 1\<rparr>
               in cpp_map (\<lambda>s. (s\<lparr>bench_reads := bench_reads s + 1\<rparr>, clock (bench_reads s) - clock 0))
                    (timed_loop on_msg clock messages s))"

text \<open>\<open>run_case\<close> of the memory pool benchmark: the book comes from a factory, no warm-up.\<close>

definition pool_run_case ::
  "('b \<Rightarrow> market_message \<Rightarrow> 'b cpp) \<Rightarrow> (nat \<Rightarrow> u64) \<Rightarrow> market_message list \<Rightarrow> (unit \<Rightarrow> 'b) \<Rightarrow>
   ('b bench \<times> u64) cpp" where
  "pool_run_case on_msg clock messages make_book =
     (let s = (bench_new (make_book ()))\<lparr>bench_reads := 1\<rparr>
      in cpp_map (\<lambda>s. (s\<lparr>bench_reads := bench_reads s + 1\<rparr>, clock (bench_reads s) - clock 0))
           (timed_loop on_msg clock messages s))"

text \<open>\<open>main\<close> of the memory pool benchmark: the two cases over the same messages.\<close>

definition memory_pool_benchmark ::
  "(u64 \<Rightarrow> u64) \<Rightarrow> (nat \<Rightarrow> u64) \<Rightarrow> (nat \<Rightarrow> u64) \<Rightarrow> u64 \<Rightarrow> u64 \<Rightarrow> u64 \<Rightarrow>
   (order_book bench \<times> u64) cpp \<times> (pooled_book bench \<times> u64) cpp" where
  "memory_pool_benchmark wall clock1 clock2 base num_messages max_orders =
     (let messages = generated wall num_messages (map of_char ''AAPL'')
      in (pool_run_case on_message clock1 messages (\<lambda>_. empty_book),
          pool_run_case pooled_on_message clock2 messages (\<lambda>_. pooled_new base (unat max_orders))))"

section \<open>Migrations\<close>

text \<open>A thread that can read its CPU counts the changes it sees (\<open>get_current_cpu\<close> may give -1).\<close>

definition count_migration :: "int \<Rightarrow> int \<Rightarrow> u64 \<Rightarrow> u64" where
  "count_migration last_cpu current_cpu n =
     (if last_cpu \<ge> 0 \<and> current_cpu \<ge> 0 \<and> current_cpu \<noteq> last_cpu then n + 1 else n)"

section \<open>Batches\<close>

definition default_batch_sizes :: "nat list" where
  "default_batch_sizes = [1, 8, 32, 64]"

fun record_times :: "nat \<Rightarrow> u64 \<Rightarrow> latency_recorder \<Rightarrow> latency_recorder" where
  "record_times 0 v r = r"
| "record_times (Suc n) v r = record_times n v (recorder_record v r)"

text \<open>One batch: its messages between two clock readings, the time shared out over them.\<close>

definition run_batch ::
  "('b \<Rightarrow> market_message \<Rightarrow> 'b cpp) \<Rightarrow> (nat \<Rightarrow> u64) \<Rightarrow> market_message list \<Rightarrow> nat \<Rightarrow> nat \<Rightarrow>
   'b bench \<Rightarrow> 'b bench cpp" where
  "run_batch on_msg clock messages batch_size batch_start s =
     (let batch_end = min (batch_start + batch_size) (length messages);
          timer_start = clock (bench_reads s)
      in cpp_map (\<lambda>book.
           let timer_end = clock (bench_reads s + 1);
               processed = batch_end - batch_start;
               amortized = (timer_end - timer_start) div max (of_nat processed) 1
           in s\<lparr>bench_book := book,
                bench_latency := record_times processed amortized (bench_latency s),
                bench_reads := bench_reads s + 2\<rparr>)
         (feed on_msg (map (\<lambda>i. messages ! i) [batch_start..<batch_end]) (bench_book s)))"

text \<open>
  \<open>for (batch_start = 0; batch_start < size; batch_start += batch_size)\<close>: \<open>None\<close> would be a loop
  that never ends, which a batch size of 0 gives.
\<close>

partial_function (option) batch_loop ::
  "('b \<Rightarrow> market_message \<Rightarrow> 'b cpp) \<Rightarrow> (nat \<Rightarrow> u64) \<Rightarrow> market_message list \<Rightarrow> nat \<Rightarrow> nat \<Rightarrow>
   'b bench \<Rightarrow> 'b bench cpp option" where
  "batch_loop on_msg clock messages batch_size batch_start s =
     (if batch_start < length messages
      then case run_batch on_msg clock messages batch_size batch_start s of
          Inl e \<Rightarrow> Some (Inl e)
        | Inr s' \<Rightarrow> batch_loop on_msg clock messages batch_size (batch_start + batch_size) s'
      else Some (Inr s))"

text \<open>One case: a fresh book and recorder; the reading after the loop ends the measurement.\<close>

definition batch_case ::
  "(nat \<Rightarrow> u64) \<Rightarrow> market_message list \<Rightarrow> nat \<Rightarrow> (order_book bench \<times> u64) cpp option" where
  "batch_case clock messages batch_size =
     map_option (cpp_map (\<lambda>s. (s\<lparr>bench_reads := bench_reads s + 1\<rparr>, clock (bench_reads s) - clock 0)))
       (batch_loop on_message clock messages batch_size 0 ((bench_new empty_book)\<lparr>bench_reads := 1\<rparr>))"

text \<open>All cases; the clock of each is counted from its own start.\<close>

definition batching_benchmark ::
  "(nat \<Rightarrow> nat \<Rightarrow> u64) \<Rightarrow> market_message list \<Rightarrow> (order_book bench \<times> u64) cpp option list" where
  "batching_benchmark clock messages =
     map (\<lambda>batch_size. batch_case (clock batch_size) messages batch_size) default_batch_sizes"

section \<open>The final report\<close>

definition decimal_int :: "int \<Rightarrow> string" where
  "decimal_int n = (if n < 0 then ''-'' @ decimal (nat (- n)) else decimal (nat n))"

definition report_level :: "string \<Rightarrow> price_level option \<Rightarrow> string" where
  "report_level label best =
     (case best of
        None \<Rightarrow> []
      | Some l \<Rightarrow> label @ decimal_int (int64_val (lvl_price l)) @ '' x '' @
          decimal (unat (lvl_total_quantity l)) @ newline)"

definition print_final_book_state ::
  "u64 \<Rightarrow> u32 \<Rightarrow> u32 \<Rightarrow> price_level option \<Rightarrow> price_level option \<Rightarrow> string" where
  "print_final_book_state orders buy_levels sell_levels bid ask =
     ''Total Orders in Book: '' @ decimal (unat orders) @ newline @
     ''Buy Side Levels: '' @ decimal (unat buy_levels) @ newline @
     ''Sell Side Levels: '' @ decimal (unat sell_levels) @ newline @
     report_level ''Best Bid: '' bid @ report_level ''Best Ask: '' ask"

definition base_report :: "order_book \<Rightarrow> string" where
  "base_report b = print_final_book_state (total_orders b) (buy_side_levels b) (sell_side_levels b)
     (best_bid b) (best_ask b)"

definition pooled_report :: "pooled_book \<Rightarrow> string" where
  "pooled_report b = print_final_book_state (pooled_total_orders b) (pooled_buy_side_levels b)
     (pooled_sell_side_levels b) (pooled_best_bid b) (pooled_best_ask b)"

section \<open>Timing does not change the book\<close>

lemma timed_loop_feed:
  "map_sum id bench_book (timed_loop on_msg clock msgs s) = feed on_msg msgs (bench_book s)"
proof (induction msgs arbitrary: s)
  case (Cons msg msgs)
  show ?case
    using Cons.IH
    by (cases "on_msg (bench_book s) msg") (simp_all add: timed_message_def Let_def id_def)
qed simp

lemma timed_loop_samples:
  "timed_loop on_msg clock msgs s = Inr s' \<Longrightarrow>
   length (samples (bench_latency s')) = length (samples (bench_latency s)) + length msgs"
  by (induction msgs arbitrary: s)
     (force simp: timed_message_def Let_def cpp_bind_Inr_iff cpp_map_Inr_iff recorder_record_def)+

lemma record_times_samples: "samples (record_times n v r) = samples r @ replicate n v"
  by (induction n arbitrary: r) (simp_all add: recorder_record_def replicate_app_Cons_same)

lemma map_nth_upt: "e \<le> length xs \<Longrightarrow> map (\<lambda>i. xs ! i) [s..<e] = take (e - s) (drop s xs)"
  by (rule nth_equalityI) simp_all

lemma run_batch_feed:
  assumes "batch_start < length msgs"
  shows "map_sum id (\<lambda>s. (bench_book s, length (samples (bench_latency s))))
      (run_batch on_msg clock msgs n batch_start s) =
    map_sum id (\<lambda>b. (b, length (samples (bench_latency s)) + min n (length msgs - batch_start)))
      (feed on_msg (take n (drop batch_start msgs)) (bench_book s))"
proof -
  have "map (\<lambda>i. msgs ! i) [batch_start..<min (batch_start + n) (length msgs)] =
      take n (drop batch_start msgs)"
    using assms by (subst map_nth_upt) (simp_all add: min_def)
  then show ?thesis
    using assms
    by (cases "feed on_msg (take n (drop batch_start msgs)) (bench_book s)")
       (auto simp: run_batch_def Let_def record_times_samples min_def)
qed

lemma batch_loop_feed:
  assumes "0 < n"
  shows "\<exists>x. batch_loop on_msg clock msgs n start s = Some x \<and>
     map_sum id (\<lambda>s. (bench_book s, length (samples (bench_latency s)))) x =
     map_sum id (\<lambda>b. (b, length (samples (bench_latency s)) + (length msgs - start)))
       (feed on_msg (drop start msgs) (bench_book s))"
proof (induction "length msgs - start" arbitrary: start s rule: less_induct)
  case less
  show ?case
  proof (cases "start < length msgs")
    case False
    then show ?thesis by (subst batch_loop.simps) simp
  next
    case True
    have split: "feed on_msg (drop start msgs) (bench_book s) =
        cpp_bind (feed on_msg (take n (drop start msgs)) (bench_book s))
          (feed on_msg (drop (start + n) msgs))"
      by (metis append_take_drop_id drop_drop add.commute feed_append)
    show ?thesis
    proof (cases "run_batch on_msg clock msgs n start s")
      case (Inl e)
      then have "feed on_msg (take n (drop start msgs)) (bench_book s) = Inl e"
        using run_batch_feed [OF True, of on_msg clock n s]
        by (cases "feed on_msg (take n (drop start msgs)) (bench_book s)") simp_all
      with True Inl show ?thesis by (subst batch_loop.simps) (simp add: split)
    next
      case (Inr s')
      then have b: "feed on_msg (take n (drop start msgs)) (bench_book s) = Inr (bench_book s')"
        and c: "length (samples (bench_latency s')) =
          length (samples (bench_latency s)) + min n (length msgs - start)"
        using run_batch_feed [OF True, of on_msg clock n s]
        by (cases "feed on_msg (take n (drop start msgs)) (bench_book s)"; simp)+
      have "length msgs - (start + n) < length msgs - start" using True assms by simp
      from less [OF this, of s'] obtain x where
        "batch_loop on_msg clock msgs n (start + n) s' = Some x"
        "map_sum id (\<lambda>s. (bench_book s, length (samples (bench_latency s)))) x =
         map_sum id (\<lambda>b. (b, length (samples (bench_latency s')) + (length msgs - (start + n))))
           (feed on_msg (drop (start + n) msgs) (bench_book s'))" by blast
      moreover have "length (samples (bench_latency s')) + (length msgs - (start + n)) =
          length (samples (bench_latency s)) + (length msgs - start)"
        using c by simp
      ultimately show ?thesis using True Inr b by (subst batch_loop.simps) (simp add: split)
    qed
  qed
qed

lemma timed_loop_run:
  assumes "feed on_msg msgs (bench_book s) = Inr b"
  obtains s' where "timed_loop on_msg clock msgs s = Inr s'" and "bench_book s' = b"
    and "length (samples (bench_latency s')) = length (samples (bench_latency s)) + length msgs"
proof -
  obtain s' where s': "timed_loop on_msg clock msgs s = Inr s'" "bench_book s' = b"
    using timed_loop_feed [of on_msg clock msgs s] assms
    by (cases "timed_loop on_msg clock msgs s") simp_all
  from this timed_loop_samples [OF s'(1)] show thesis by (rule that)
qed

text \<open>Books that processed the same generated messages are reported alike.\<close>

lemma same_report:
  assumes "set msgs \<subseteq> set (generated wall n symbol)" and "min (unat n) 10000 \<le> cap"
    and "cap * 24 < 2 ^ 64" and "feed on_message msgs empty_book = Inr a"
    and "feed pooled_on_message msgs (pooled_new base cap) = Inr b"
  shows "base_report a = pooled_report b"
  by (rule two_books.same_view [OF book_rel_empty pooled_rel_new [OF assms(3), of base]
        replay_shallow [OF assms(1)] replay_pooled_ok [OF assms(1,2)]])
     (use assms(4,5) in \<open>simp add: base_report_def pooled_report_def\<close>)

section \<open>Properties\<close>

text \<open>
  The single-thread benchmark on its own generated stream: whatever the clocks and the
  number of messages, the run is defined, measures every message once, and ends in the book of the
  warm-up prefix followed by the whole stream.
\<close>

lemma single_thread_run:
  "\<exists>s t. single_thread on_message clock (generated wall n symbol) empty_book = Inr (s, t) \<and>
     length (samples (bench_latency s)) = unat n \<and>
     book_rel (bench_book s)
       (spec_run (take 1000 (generated wall n symbol) @ generated wall n symbol) [])"
proof -
  let ?ms = "generated wall n symbol"
  have warm: "map (\<lambda>i. ?ms ! i) [0..<min warmup_count (length ?ms)] = take 1000 ?ms"
    by (simp add: map_nth_upt warmup_count_def) (simp add: min_def)
  have "set (take 1000 ?ms @ ?ms) \<subseteq> set ?ms" using set_take_subset [of 1000 ?ms] by auto
  then obtain b where b: "feed on_message (take 1000 ?ms @ ?ms) empty_book = Inr b"
      "book_rel b (spec_run (take 1000 ?ms @ ?ms) [])"
    using base.feed_ok [OF book_rel_empty replay_shallow] by blast
  then obtain b1 where b1: "feed on_message (take 1000 ?ms) empty_book = Inr b1"
      "feed on_message ?ms b1 = Inr b"
    by (auto simp: feed_append cpp_bind_Inr_iff)
  obtain s' where "timed_loop on_message clock ?ms ((bench_new b1)\<lparr>bench_reads := 1\<rparr>) = Inr s'"
      "bench_book s' = b" "length (samples (bench_latency s')) = unat n"
    using timed_loop_run [of on_message ?ms "(bench_new b1)\<lparr>bench_reads := 1\<rparr>" b clock] b1(2)
    by (auto simp: bench_new_def recorder_new_def generated_ok(1))
  with b b1 warm show ?thesis by (simp add: single_thread_def Let_def)
qed

text \<open>
  The memory-pool benchmark prints the same final book for both implementations: with a
  pool of at least min(n, 10000) slots both cases run, measure every message, and their reports are
  the same text; the default pool (as many slots as messages) is large enough.
\<close>

lemma memory_pool_same_report:
  assumes "min (unat n) 10000 \<le> unat slots" and "unat slots * 24 < 2 ^ 64"
  shows "\<exists>s1 t1 s2 t2. memory_pool_benchmark wall clock1 clock2 base n slots = (Inr (s1, t1), Inr (s2, t2)) \<and>
     base_report (bench_book s1) = pooled_report (bench_book s2) \<and>
     pool_exhaustions (bench_book s2) = 0 \<and>
     length (samples (bench_latency s1)) = unat n \<and> length (samples (bench_latency s2)) = unat n"
proof -
  let ?ms = "generated wall n (map of_char ''AAPL'')"
  have sub: "set ?ms \<subseteq> set ?ms" by simp
  have ok: "stream_ok (pooled_ok (unat slots)) ?ms []" by (rule replay_pooled_ok [OF sub assms(1)])
  obtain a b where ab: "feed on_message ?ms empty_book = Inr a"
      "feed pooled_on_message ?ms (pooled_new base (unat slots)) = Inr b"
      "base_report a = pooled_report b"
    by (rule two_books.same_view [OF book_rel_empty pooled_rel_new [OF assms(2)]
          replay_shallow [OF sub] ok, of base]) (simp add: base_report_def pooled_report_def)
  have exh: "pool_exhaustions b = 0"
    using pooled_feed_exhaustions [OF pooled_rel_new [OF assms(2)] ok, of base] ab(2)
    by (auto simp: pooled_new_def)
  obtain s1 where s1: "timed_loop on_message clock1 ?ms ((bench_new empty_book)\<lparr>bench_reads := 1\<rparr>) = Inr s1"
      "bench_book s1 = a" "length (samples (bench_latency s1)) = unat n"
    using timed_loop_run [of on_message ?ms "(bench_new empty_book)\<lparr>bench_reads := 1\<rparr>" a clock1] ab(1)
    by (auto simp: bench_new_def recorder_new_def generated_ok(1))
  let ?p = "pooled_new base (unat slots)"
  obtain s2 where s2: "timed_loop pooled_on_message clock2 ?ms ((bench_new ?p)\<lparr>bench_reads := 1\<rparr>) = Inr s2"
      "bench_book s2 = b" "length (samples (bench_latency s2)) = unat n"
    using timed_loop_run [of pooled_on_message ?ms "(bench_new ?p)\<lparr>bench_reads := 1\<rparr>" b clock2] ab(2)
    by (auto simp: bench_new_def recorder_new_def generated_ok(1))
  from s1 s2 ab(3) exh show ?thesis
    unfolding memory_pool_benchmark_def pool_run_case_def by (simp add: Let_def)
qed

text \<open>
  Batching does not change the result: for every positive batch size, and so for each of
  the default ones, the batch loop ends, its book is the one of the plain message loop, and it records
  one sample per message.
\<close>

lemma batching_equals_feed:
  assumes "0 < batch_size"
  shows "\<exists>x. batch_loop on_msg clock msgs batch_size 0 ((bench_new b)\<lparr>bench_reads := 1\<rparr>) = Some x \<and>
     map_sum id (\<lambda>s. (bench_book s, length (samples (bench_latency s)))) x =
     map_sum id (\<lambda>b. (b, length msgs)) (feed on_msg msgs b)"
  using batch_loop_feed [OF assms, of on_msg clock msgs 0 "(bench_new b)\<lparr>bench_reads := 1\<rparr>"]
  by (simp add: bench_new_def recorder_new_def)

end
