(* ===== verification/Spsc_Pipeline.thy ===== *)
theory Spsc_Pipeline
  imports Ring_Concurrent Benchmarks
begin

text \<open>
  The two-thread pipelines over the ring buffer, \<open>benchmark_spsc_queue.cpp\<close> and
  \<open>benchmark_spsc_queue_pooled.cpp\<close>: the producer retries each push until it succeeds and then
  sets \<open>producer_done\<close>; the consumer pops until it has seen \<open>producer_done\<close> and then an empty
  queue. Clock and CPU readings are arbitrary values of each step.
\<close>

section \<open>State\<close>

record envelope =
  env_message :: market_message
  env_producer_ns :: u64
  env_push_ns :: u64

datatype producer_loop =
    Next_Message
  | Try_Push envelope
  | In_Push envelope
  | Producer_Exited

datatype consumer_loop =
    Test_Done
  | Test_Empty
  | Start_Pop
  | In_Pop
  | Process envelope
  | Consumer_Exited

text \<open>
  \<open>done_at\<close> is \<open>None\<close> until \<open>producer_done\<close> is stored, then the position in \<open>head_order\<close> of the
  last store before it: what an acquire load that returns \<open>true\<close> synchronises with.
\<close>

record 'b pipeline =
  queue :: "envelope spsc"
  todo :: "market_message list"
  done_at :: "nat option"
  producer :: producer_loop
  consumer :: consumer_loop
  final_book :: 'b
  queue_wait :: latency_recorder
  book_time :: latency_recorder
  pipeline_time :: latency_recorder
  produced :: u64
  consumed :: u64
  producer_spins :: u64
  consumer_spins :: u64
  producer_cpu :: int
  consumer_cpu :: int
  producer_migrations :: u64
  consumer_migrations :: u64

definition zero_envelope :: envelope where
  "zero_envelope = \<lparr>env_message = zero_message, env_producer_ns = 0, env_push_ns = 0\<rparr>"

definition pipeline_new :: "u64 \<Rightarrow> market_message list \<Rightarrow> 'b \<Rightarrow> int \<Rightarrow> int \<Rightarrow> 'b pipeline" where
  "pipeline_new capacity messages b first_producer_cpu first_consumer_cpu =
     \<lparr>queue = spsc_new zero_envelope capacity, todo = messages, done_at = None,
      producer = Next_Message, consumer = Test_Done, final_book = b,
      queue_wait = recorder_new, book_time = recorder_new, pipeline_time = recorder_new,
      produced = 0, consumed = 0, producer_spins = 0, consumer_spins = 0,
      producer_cpu = first_producer_cpu, consumer_cpu = first_consumer_cpu,
      producer_migrations = 0, consumer_migrations = 0\<rparr>"

section \<open>Steps\<close>

text \<open>The consumer's work on one envelope, with the five clock readings it takes.\<close>

definition process_envelope ::
  "('b \<Rightarrow> market_message \<Rightarrow> 'b cpp) \<Rightarrow> u64 \<Rightarrow> u64 \<Rightarrow> u64 \<Rightarrow> u64 \<Rightarrow> int \<Rightarrow> envelope \<Rightarrow>
   'b pipeline \<Rightarrow> 'b pipeline cpp" where
  "process_envelope on_msg pop_ns book_start book_end end_ns cpu env s =
     cpp_map (\<lambda>b.
         s\<lparr>queue_wait := recorder_record (pop_ns - env_push_ns env) (queue_wait s),
           final_book := b,
           book_time := recorder_record (book_end - book_start) (book_time s),
           pipeline_time := recorder_record (end_ns - env_producer_ns env) (pipeline_time s),
           consumed := consumed s + 1,
           consumer_migrations := count_migration (consumer_cpu s) cpu (consumer_migrations s),
           consumer_cpu := cpu\<rparr>)
       (on_msg (final_book s) (env_message env))"

inductive pipeline_step ::
  "('b \<Rightarrow> market_message \<Rightarrow> 'b cpp) \<Rightarrow> 'b pipeline \<Rightarrow> 'b pipeline \<Rightarrow> bool" for on_msg where
  take_message:
    "producer s = Next_Message \<Longrightarrow> todo s = message # rest \<Longrightarrow>
     pipeline_step on_msg s
       (s\<lparr>producer := Try_Push \<lparr>env_message = message, env_producer_ns = now, env_push_ns = 0\<rparr>\<rparr>)"
| start_push:
    "producer s = Try_Push env \<Longrightarrow> env' = env\<lparr>env_push_ns := now\<rparr> \<Longrightarrow>
     spsc_step (queue s) (Calls_Push env') q \<Longrightarrow>
     pipeline_step on_msg s (s\<lparr>queue := q, producer := In_Push env'\<rparr>)"
| push_failed:
    "producer s = In_Push env \<Longrightarrow> spsc_step (queue s) (Push_Returns env False) q \<Longrightarrow>
     pipeline_step on_msg s
       (s\<lparr>queue := q, producer := Try_Push env, producer_spins := producer_spins s + 1\<rparr>)"
| push_succeeded:
    "producer s = In_Push env \<Longrightarrow> spsc_step (queue s) (Push_Returns env True) q \<Longrightarrow>
     pipeline_step on_msg s
       (s\<lparr>queue := q, producer := Next_Message, todo := tl (todo s), produced := produced s + 1,
          producer_migrations := count_migration (producer_cpu s) cpu (producer_migrations s),
          producer_cpu := cpu\<rparr>)"
| store_done:
    "producer s = Next_Message \<Longrightarrow> todo s = [] \<Longrightarrow>
     pipeline_step on_msg s
       (s\<lparr>producer := Producer_Exited, done_at := Some (length (head_order (queue s)) - 1)\<rparr>)"
| queue_step:
    "spsc_step (queue s) Silent q \<Longrightarrow> pipeline_step on_msg s (s\<lparr>queue := q\<rparr>)"
| load_not_done:
    "consumer s = Test_Done \<Longrightarrow> pipeline_step on_msg s (s\<lparr>consumer := Start_Pop\<rparr>)"
| load_done:
    "consumer s = Test_Done \<Longrightarrow> done_at s = Some k \<Longrightarrow> k \<le> v \<Longrightarrow>
     spsc_step (queue s) (Acquires v) q \<Longrightarrow>
     pipeline_step on_msg s (s\<lparr>queue := q, consumer := Test_Empty\<rparr>)"
| found_empty:
    "consumer s = Test_Empty \<Longrightarrow> spsc_step (queue s) (Empty_Returns True) q \<Longrightarrow>
     pipeline_step on_msg s (s\<lparr>queue := q, consumer := Consumer_Exited\<rparr>)"
| found_nonempty:
    "consumer s = Test_Empty \<Longrightarrow> spsc_step (queue s) (Empty_Returns False) q \<Longrightarrow>
     pipeline_step on_msg s (s\<lparr>queue := q, consumer := Start_Pop\<rparr>)"
| start_pop:
    "consumer s = Start_Pop \<Longrightarrow> spsc_step (queue s) Calls_Pop q \<Longrightarrow>
     pipeline_step on_msg s (s\<lparr>queue := q, consumer := In_Pop\<rparr>)"
| pop_failed:
    "consumer s = In_Pop \<Longrightarrow> spsc_step (queue s) (Pop_Returns None) q \<Longrightarrow>
     pipeline_step on_msg s
       (s\<lparr>queue := q, consumer := Test_Done, consumer_spins := consumer_spins s + 1\<rparr>)"
| pop_succeeded:
    "consumer s = In_Pop \<Longrightarrow> spsc_step (queue s) (Pop_Returns (Some env)) q \<Longrightarrow>
     pipeline_step on_msg s (s\<lparr>queue := q, consumer := Process env\<rparr>)"
| process:
    "consumer s = Process env \<Longrightarrow>
     process_envelope on_msg pop_ns book_start book_end end_ns cpu env s = Inr s' \<Longrightarrow>
     pipeline_step on_msg s (s'\<lparr>consumer := Test_Done\<rparr>)"

inductive pipeline_reachable ::
  "('b \<Rightarrow> market_message \<Rightarrow> 'b cpp) \<Rightarrow> u64 \<Rightarrow> market_message list \<Rightarrow> 'b \<Rightarrow> 'b pipeline \<Rightarrow> bool"
  for on_msg capacity messages b where
  start: "pipeline_reachable on_msg capacity messages b
    (pipeline_new capacity messages b first_producer_cpu first_consumer_cpu)"
| step: "pipeline_reachable on_msg capacity messages b s \<Longrightarrow> pipeline_step on_msg s s' \<Longrightarrow>
    pipeline_reachable on_msg capacity messages b s'"

text \<open>The two programs: the generated messages through the queue into either book.\<close>

definition spsc_benchmark :: "(u64 \<Rightarrow> u64) \<Rightarrow> u64 \<Rightarrow> u64 \<Rightarrow> order_book pipeline \<Rightarrow> bool" where
  "spsc_benchmark wall num_messages queue_capacity =
     pipeline_reachable on_message queue_capacity
       (generated wall num_messages (map of_char ''AAPL'')) empty_book"

definition spsc_pooled_benchmark ::
  "(u64 \<Rightarrow> u64) \<Rightarrow> u64 \<Rightarrow> u64 \<Rightarrow> u64 \<Rightarrow> u64 \<Rightarrow> pooled_book pipeline \<Rightarrow> bool" where
  "spsc_pooled_benchmark wall num_messages queue_capacity base max_orders =
     pipeline_reachable pooled_on_message queue_capacity
       (generated wall num_messages (map of_char ''AAPL'')) (pooled_new base (unat max_orders))"

section \<open>Invariant\<close>

text \<open>
  Pushed and remaining messages make up the stream; the processed ones are a prefix of the popped
  ones and the book is their result; \<open>producer_done\<close> is published after the last push, and a
  consumer that has read it has all pushes in view.
\<close>

definition producer_loop_inv :: "'b pipeline \<Rightarrow> bool" where
  "producer_loop_inv s \<longleftrightarrow>
     (case producer s of
        Next_Message \<Rightarrow> True
      | Try_Push env \<Rightarrow> todo s \<noteq> [] \<and> hd (todo s) = env_message env
      | In_Push env \<Rightarrow> todo s \<noteq> [] \<and> hd (todo s) = env_message env
      | Producer_Exited \<Rightarrow> todo s = []) \<and>
     (\<forall>k. done_at s = Some k \<longrightarrow> producer s = Producer_Exited \<and> k = length (pushed (queue s)))"

definition consumer_loop_inv ::
  "('b \<Rightarrow> market_message \<Rightarrow> 'b cpp) \<Rightarrow> 'b \<Rightarrow> 'b pipeline \<Rightarrow> bool" where
  "consumer_loop_inv on_msg b s \<longleftrightarrow>
     (\<exists>processed. feed on_msg (map env_message processed) b = Inr (final_book s) \<and>
        popped (queue s) = processed @ (case consumer s of Process env \<Rightarrow> [env] | _ \<Rightarrow> []) \<and>
        consumed s = of_nat (length processed) \<and>
        (\<forall>r \<in> {queue_wait s, book_time s, pipeline_time s}. length (samples r) = length processed)) \<and>
     (consumer s = Test_Empty \<longrightarrow> (\<exists>k \<le> consumer_view (queue s). done_at s = Some k)) \<and>
     (consumer s = Consumer_Exited \<longrightarrow> done_at s \<noteq> None \<and> popped (queue s) = pushed (queue s))"

definition pipeline_inv ::
  "('b \<Rightarrow> market_message \<Rightarrow> 'b cpp) \<Rightarrow> market_message list \<Rightarrow> 'b \<Rightarrow> 'b pipeline \<Rightarrow> bool" where
  "pipeline_inv on_msg messages b s \<longleftrightarrow> spsc_inv (queue s) \<and>
     map env_message (pushed (queue s)) @ todo s = messages \<and>
     produced s = of_nat (length (pushed (queue s))) \<and>
     producer_loop_inv s \<and> consumer_loop_inv on_msg b s"

text \<open>What the events of the queue do to its history.\<close>

lemma spsc_step_history:
  assumes "spsc_step q e q'"
  shows "pushed q' = (case e of Push_Returns x True \<Rightarrow> pushed q @ [x] | _ \<Rightarrow> pushed q)"
    and "popped q' = (case e of Pop_Returns (Some x) \<Rightarrow> popped q @ [x] | _ \<Rightarrow> popped q)"
    and "consumer_view q \<le> consumer_view q'"
  using assms
  by (induction rule: spsc_step.induct)
     (auto simp: write_cell_def read_cell_def split: if_splits)

lemma spsc_step_empty:
  assumes "spsc_step q (Empty_Returns True) q'" and "spsc_inv q"
    and "consumer_view q = length (pushed q)"
  shows "popped q = pushed q"
proof -
  let ?n = "unat (slots q)" and ?p = "length (pushed q)" and ?c = "length (popped q)"
  have ord: "orders_inv q" using assms(2) by (simp add: spsc_inv_def)
  obtain v where v: "consumer_view q \<le> v" "v < length (head_order q)"
      "head_order q ! v = last (tail_order q)"
    using assms(1) by (auto elim: spsc_stepE)
  then have "v = ?p" using assms(3) orders_invD(3) [OF ord] by simp
  then have "position (slots q) ?p = position (slots q) ?c"
    using v(2,3) orders_invD(2,5) [OF ord] by simp
  then have "?p mod ?n = ?c mod ?n" using ord by (simp add: position_eq_iff orders_inv_def)
  then have "?p = ?c" using window_inj [of ?p ?n ?c ?c] ord by (auto simp: orders_inv_def)
  moreover have "prefix (popped q) (pushed q)" using assms(2) by (simp add: spsc_inv_def cells_inv_def)
  ultimately show ?thesis by (metis append_Nil2 append_eq_append_conv prefix_def)
qed

lemma pipeline_inv_new:
  assumes "capacity < - 1"
  shows "pipeline_inv on_msg messages b (pipeline_new capacity messages b c1 c2)"
  using spsc_inv_new [OF assms]
  by (auto simp: pipeline_inv_def pipeline_new_def producer_loop_inv_def consumer_loop_inv_def recorder_new_def
      spsc_new_def Let_def)

lemma pipeline_step_inv:
  assumes "pipeline_step on_msg s s'" and inv: "pipeline_inv on_msg messages b s"
  shows "pipeline_inv on_msg messages b s'"
  using assms
proof (induction rule: pipeline_step.induct)
  case (take_message s message rest now)
  then show ?case by (auto simp: pipeline_inv_def producer_loop_inv_def consumer_loop_inv_def)
next
  case (start_push s env env' now q)
  note h = spsc_step_history [OF start_push(3)] spsc_step_inv [OF start_push(3)]
  show ?case
    using start_push h by (auto simp: pipeline_inv_def producer_loop_inv_def consumer_loop_inv_def)
next
  case (push_failed s env q)
  note h = spsc_step_history [OF push_failed(2)] spsc_step_inv [OF push_failed(2)]
  show ?case
    using push_failed h by (auto simp: pipeline_inv_def producer_loop_inv_def consumer_loop_inv_def)
next
  case (push_succeeded s env q cpu)
  note h = spsc_step_history [OF push_succeeded(2)] spsc_step_inv [OF push_succeeded(2)]
  have "todo s = env_message env # tl (todo s)"
    using push_succeeded by (cases "todo s") (auto simp: pipeline_inv_def producer_loop_inv_def)
  then have "map env_message (pushed (queue s) @ [env]) @ tl (todo s) = messages"
    using push_succeeded(3) by (metis append.assoc append_Cons append_Nil list.simps(9) map_append
        list.simps(8) pipeline_inv_def)
  with push_succeeded h show ?case
    by (auto simp: pipeline_inv_def producer_loop_inv_def consumer_loop_inv_def)
next
  case (store_done s)
  then show ?case
    using orders_invD(3) [of "queue s"]
    by (auto simp: pipeline_inv_def producer_loop_inv_def consumer_loop_inv_def spsc_inv_def)
next
  case (queue_step s q)
  note h = spsc_step_history [OF queue_step(1)] spsc_step_inv [OF queue_step(1)]
  show ?case
    using queue_step h
    by (auto simp: pipeline_inv_def producer_loop_inv_def consumer_loop_inv_def
        split: producer_loop.splits)
next
  case (load_not_done s)
  then show ?case
    by (auto simp: pipeline_inv_def producer_loop_inv_def consumer_loop_inv_def
        split: producer_loop.splits)
next
  case (load_done s k v q)
  note h = spsc_step_history [OF load_done(4)] spsc_step_inv [OF load_done(4)]
  have "consumer_view q = v" using load_done(4) by (auto elim: spsc_stepE)
  with load_done h show ?case
    by (auto simp: pipeline_inv_def producer_loop_inv_def consumer_loop_inv_def
        split: producer_loop.splits)
next
  case (found_empty s q)
  note h = spsc_step_history [OF found_empty(2)] spsc_step_inv [OF found_empty(2)]
  have "consumer_view (queue s) \<le> length (pushed (queue s))"
    using found_empty(3) by (simp add: pipeline_inv_def spsc_inv_def orders_inv_def)
  then have "consumer_view (queue s) = length (pushed (queue s))"
    using found_empty(1,3)
    by (auto simp: pipeline_inv_def producer_loop_inv_def consumer_loop_inv_def)
  then have "popped (queue s) = pushed (queue s)"
    using spsc_step_empty [OF found_empty(2)] found_empty(3) by (simp add: pipeline_inv_def)
  with found_empty h show ?case
    by (auto simp: pipeline_inv_def producer_loop_inv_def consumer_loop_inv_def
        split: producer_loop.splits)
next
  case (found_nonempty s q)
  note h = spsc_step_history [OF found_nonempty(2)] spsc_step_inv [OF found_nonempty(2)]
  show ?case
    using found_nonempty h by (auto simp: pipeline_inv_def producer_loop_inv_def consumer_loop_inv_def
        split: producer_loop.splits)
next
  case (start_pop s q)
  note h = spsc_step_history [OF start_pop(2)] spsc_step_inv [OF start_pop(2)]
  show ?case
    using start_pop h by (auto simp: pipeline_inv_def producer_loop_inv_def consumer_loop_inv_def
        split: producer_loop.splits)
next
  case (pop_failed s q)
  note h = spsc_step_history [OF pop_failed(2)] spsc_step_inv [OF pop_failed(2)]
  show ?case
    using pop_failed h by (auto simp: pipeline_inv_def producer_loop_inv_def consumer_loop_inv_def
        split: producer_loop.splits)
next
  case (pop_succeeded s env q)
  note h = spsc_step_history [OF pop_succeeded(2)] spsc_step_inv [OF pop_succeeded(2)]
  show ?case
    using pop_succeeded h by (auto simp: pipeline_inv_def producer_loop_inv_def consumer_loop_inv_def
        split: producer_loop.splits)
next
  case (process s env pop_ns book_start book_end end_ns cpu s')
  then obtain pr b' where pr: "feed on_msg (map env_message pr) b = Inr (final_book s)"
      "popped (queue s) = pr @ [env]" "consumed s = of_nat (length pr)"
      "\<forall>r \<in> {queue_wait s', book_time s', pipeline_time s'}. length (samples r) = length (pr @ [env])"
      "on_msg (final_book s) (env_message env) = Inr b'" "final_book s' = b'"
      "consumed s' = consumed s + 1" "queue s' = queue s" "todo s' = todo s" "done_at s' = done_at s"
      "producer s' = producer s" "produced s' = produced s"
    by (auto simp: pipeline_inv_def consumer_loop_inv_def process_envelope_def cpp_map_Inr_iff recorder_record_def)
  then have "feed on_msg (map env_message (pr @ [env])) b = Inr b'" by (simp add: feed_append)
  with pr have "consumer_loop_inv on_msg b (s'\<lparr>consumer := Test_Done\<rparr>)"
    unfolding consumer_loop_inv_def by (auto intro!: exI [of _ "pr @ [env]"])
  moreover have "producer_loop_inv (s'\<lparr>consumer := Test_Done\<rparr>)"
    using process(3) pr by (auto simp: pipeline_inv_def producer_loop_inv_def split: producer_loop.splits)
  ultimately show ?case using process(3) pr by (simp add: pipeline_inv_def)
qed

lemma pipeline_reachable_inv:
  "pipeline_reachable on_msg capacity messages b s \<Longrightarrow> capacity < - 1 \<Longrightarrow>
   pipeline_inv on_msg messages b s"
  by (induction rule: pipeline_reachable.induct) (auto intro: pipeline_inv_new pipeline_step_inv)

lemma pipeline_exited:
  assumes "pipeline_inv on_msg messages b s" and "consumer s = Consumer_Exited"
  shows "feed on_msg messages b = Inr (final_book s)" and "consumed s = of_nat (length messages)"
    and "produced s = of_nat (length messages)"
    and "\<forall>r \<in> {queue_wait s, book_time s, pipeline_time s}. length (samples r) = length messages"
    and "producer s = Producer_Exited"
proof -
  obtain k where k: "done_at s = Some k" using assms by (auto simp: pipeline_inv_def consumer_loop_inv_def)
  then have "todo s = []" using assms(1) by (auto simp: pipeline_inv_def producer_loop_inv_def)
  then have m: "map env_message (pushed (queue s)) = messages"
    using assms(1) by (simp add: pipeline_inv_def)
  have pop: "popped (queue s) = pushed (queue s)"
    using assms by (simp add: pipeline_inv_def consumer_loop_inv_def)
  show "feed on_msg messages b = Inr (final_book s)" "consumed s = of_nat (length messages)"
    "produced s = of_nat (length messages)"
    "\<forall>r \<in> {queue_wait s, book_time s, pipeline_time s}. length (samples r) = length messages"
    using assms m pop by (auto simp: pipeline_inv_def consumer_loop_inv_def)
  show "producer s = Producer_Exited" using assms(1) k by (auto simp: pipeline_inv_def producer_loop_inv_def)
qed

lemma pipeline_prefix:
  assumes "pipeline_inv on_msg messages b s" and "consumer s = Process env"
  obtains pr rest where "messages = pr @ env_message env # rest"
    and "feed on_msg pr b = Inr (final_book s)"
proof -
  obtain pr where pr: "feed on_msg (map env_message pr) b = Inr (final_book s)"
      "popped (queue s) = pr @ [env]"
    using assms by (auto simp: pipeline_inv_def consumer_loop_inv_def)
  have "prefix (popped (queue s)) (pushed (queue s))"
    using assms(1) by (simp add: pipeline_inv_def spsc_inv_def cells_inv_def)
  then obtain zs where "pushed (queue s) = pr @ [env] @ zs" using pr(2) by (auto simp: prefix_def)
  then have "messages = map env_message pr @ env_message env # (map env_message zs @ todo s)"
    using assms(1) by (auto simp: pipeline_inv_def)
  with pr(1) show thesis by (intro that)
qed

lemma feed_prefix_defined:
  assumes "feed on_msg (pr @ msg # rest) b = Inr b'" and "feed on_msg pr b = Inr b1"
  shows "\<exists>b2. on_msg b1 msg = Inr b2"
  using assms by (auto simp: feed_append cpp_bind_Inr_iff)

section \<open>A complete run exists\<close>

definition at_rest :: "'b pipeline \<Rightarrow> bool" where
  "at_rest s \<longleftrightarrow> producer s = Next_Message \<and> consumer s = Test_Done \<and>
     producer_at (queue s) = Producer_Idle \<and> consumer_at (queue s) = Consumer_Idle \<and>
     popped (queue s) = pushed (queue s) \<and> spsc_inv (queue s) \<and> 1 < unat (slots (queue s))"

text \<open>No time passes in the run that is built here: its samples are 0.\<close>

definition instant :: "'b pipeline \<Rightarrow> bool" where
  "instant s \<longleftrightarrow> (\<forall>r \<in> {queue_wait s, book_time s, pipeline_time s}. all_zero r)"

lemma producer_round:
  assumes "at_rest s" and "todo s = message # rest"
  obtains s' env where "(pipeline_step on_msg)\<^sup>*\<^sup>* s s'" and "producer s' = Next_Message"
    and "consumer s' = Test_Done" and "todo s' = rest" and "final_book s' = final_book s"
    and "env_message env = message" and "spsc_inv (queue s')"
    and "producer_at (queue s') = Producer_Idle" and "consumer_at (queue s') = Consumer_Idle"
    and "pushed (queue s') = popped (queue s') @ [env]" and "slots (queue s') = slots (queue s)"
    and "instant s' \<longleftrightarrow> instant s"
proof -
  define env where "env = \<lparr>env_message = message, env_producer_ns = 0, env_push_ns = 0\<rparr>"
  define s1 where "s1 = s\<lparr>producer := Try_Push env\<rparr>"
  have r1: "pipeline_step on_msg s s1"
    unfolding s1_def env_def by (rule take_message) (use assms in \<open>simp_all add: at_rest_def\<close>)
  have q: "spsc_inv (queue s)" "producer_at (queue s) = Producer_Idle"
      "Suc (length (pushed (queue s))) < length (popped (queue s)) + unat (slots (queue s))"
    using assms(1) by (simp_all add: at_rest_def)
  obtain q1 q2 q3 q4 where run: "spsc_step (queue s) (Calls_Push env) q1" "spsc_step q1 Silent q2"
      "spsc_step q2 Silent q3" "spsc_step q3 (Push_Returns env True) q4"
    and q4: "producer_at q4 = Producer_Idle" "consumer_at q4 = consumer_at (queue s)"
      "pushed q4 = pushed (queue s) @ [env]" "popped q4 = popped (queue s)" "slots q4 = slots (queue s)"
    using push_runs_through [OF q] .
  define s2 where "s2 = s1\<lparr>queue := q1, producer := In_Push env\<rparr>"
  have r2: "pipeline_step on_msg s1 s2"
    unfolding s2_def by (rule start_push [of _ env _ 0]) (use run(1) in \<open>simp_all add: s1_def env_def\<close>)
  define s4 where "s4 = s2\<lparr>queue := q2\<rparr>\<lparr>queue := q3\<rparr>"
  have "pipeline_step on_msg s2 (s2\<lparr>queue := q2\<rparr>)"
    by (rule queue_step) (use run(2) in \<open>simp add: s2_def\<close>)
  moreover have "pipeline_step on_msg (s2\<lparr>queue := q2\<rparr>) s4"
    unfolding s4_def by (rule queue_step) (use run(3) in simp)
  ultimately have r4: "(pipeline_step on_msg)\<^sup>*\<^sup>* s2 s4" by (meson rtranclp.simps)
  have pc4: "producer s4 = In_Push env" "queue s4 = q3" by (simp_all add: s4_def s2_def)
  note r5 = push_succeeded [OF pc4(1), unfolded pc4(2), OF run(4), where cpu = 0 and on_msg = on_msg]
  have inv4: "spsc_inv q4"
    by (rule spsc_step_inv [OF run(4) spsc_step_inv [OF run(3) spsc_step_inv [OF run(2)
          spsc_step_inv [OF run(1) q(1)]]]])
  have r6: "(pipeline_step on_msg)\<^sup>*\<^sup>* s (s4\<lparr>queue := q4, producer := Next_Message,
      todo := tl (todo s4), produced := produced s4 + 1,
      producer_migrations := count_migration (producer_cpu s4) 0 (producer_migrations s4),
      producer_cpu := 0\<rparr>)"
    by (rule converse_rtranclp_into_rtranclp [OF r1 converse_rtranclp_into_rtranclp [OF r2
          rtranclp.rtrancl_into_rtrancl [OF r4 r5]]])
  show thesis
    by (rule that [OF r6, of env])
       (use assms q4 inv4 in \<open>simp_all add: s4_def s2_def s1_def env_def at_rest_def instant_def\<close>)
qed

lemma consumer_round:
  assumes "producer s = Next_Message" and "consumer s = Test_Done" and "spsc_inv (queue s)"
    and "producer_at (queue s) = Producer_Idle" and "consumer_at (queue s) = Consumer_Idle"
    and "pushed (queue s) = popped (queue s) @ [env]"
    and "on_msg (final_book s) (env_message env) = Inr b"
  obtains s' where "(pipeline_step on_msg)\<^sup>*\<^sup>* s s'" and "producer s' = Next_Message"
    and "consumer s' = Test_Done" and "todo s' = todo s" and "final_book s' = b"
    and "spsc_inv (queue s')" and "producer_at (queue s') = Producer_Idle"
    and "consumer_at (queue s') = Consumer_Idle" and "popped (queue s') = pushed (queue s')"
    and "slots (queue s') = slots (queue s)" and "instant s' \<longleftrightarrow> instant s"
proof -
  have head: "pushed (queue s) ! length (popped (queue s)) = env"
    and some: "length (popped (queue s)) < length (pushed (queue s))" using assms(6) by simp_all
  obtain q1 q2 q3 q4 where run: "spsc_step (queue s) Calls_Pop q1" "spsc_step q1 Silent q2"
      "spsc_step q2 Silent q3" "spsc_step q3 (Pop_Returns (Some env)) q4"
    and q4: "consumer_at q4 = Consumer_Idle" "producer_at q4 = producer_at (queue s)"
      "pushed q4 = pushed (queue s)" "popped q4 = popped (queue s) @ [env]" "slots q4 = slots (queue s)"
    using pop_runs_through [OF assms(3,5) some] unfolding head .
  define s1 where "s1 = s\<lparr>consumer := Start_Pop\<rparr>"
  define s2 where "s2 = s1\<lparr>queue := q1, consumer := In_Pop\<rparr>"
  define s4 where "s4 = s2\<lparr>queue := q2\<rparr>\<lparr>queue := q3\<rparr>"
  define s5 where "s5 = s4\<lparr>queue := q4, consumer := Process env\<rparr>"
  have "pipeline_step on_msg s s1" unfolding s1_def by (rule load_not_done [OF assms(2)])
  moreover have "pipeline_step on_msg s1 s2"
    unfolding s2_def by (rule start_pop) (use run(1) in \<open>simp_all add: s1_def\<close>)
  moreover have "pipeline_step on_msg s2 (s2\<lparr>queue := q2\<rparr>)"
    by (rule queue_step) (use run(2) in \<open>simp add: s2_def\<close>)
  moreover have "pipeline_step on_msg (s2\<lparr>queue := q2\<rparr>) s4"
    unfolding s4_def by (rule queue_step) (use run(3) in simp)
  moreover have "pipeline_step on_msg s4 s5"
    unfolding s5_def by (rule pop_succeeded) (use run(4) in \<open>simp_all add: s4_def s2_def\<close>)
  ultimately have r5: "(pipeline_step on_msg)\<^sup>*\<^sup>* s s5"
    by (meson rtranclp.rtrancl_into_rtrancl r_into_rtranclp)
  have s5: "consumer s5 = Process env" "final_book s5 = final_book s"
    by (simp_all add: s5_def s4_def s2_def s1_def)
  obtain s6 where s6: "process_envelope on_msg (env_push_ns env) 0 0 (env_producer_ns env) 0 env s5 = Inr s6"
      "final_book s6 = b" "queue s6 = q4" "todo s6 = todo s" "producer s6 = producer s"
      "instant s6 \<longleftrightarrow> instant s"
    using assms(7) s5(2)
    by (auto simp: process_envelope_def cpp_map_Inr_iff s5_def s4_def s2_def s1_def instant_def)
  have r6: "(pipeline_step on_msg)\<^sup>*\<^sup>* s (s6\<lparr>consumer := Test_Done\<rparr>)"
    by (rule rtranclp.rtrancl_into_rtrancl [OF r5 process [OF s5(1) s6(1)]])
  have "spsc_inv q4"
    by (rule spsc_step_inv [OF run(4) spsc_step_inv [OF run(3) spsc_step_inv [OF run(2)
          spsc_step_inv [OF run(1) assms(3)]]]])
  moreover have "instant (s6\<lparr>consumer := Test_Done\<rparr>) \<longleftrightarrow> instant s" using s6(6) by (simp add: instant_def)
  ultimately show thesis by (intro that [OF r6]) (use assms s6 q4 in simp_all)
qed

lemma rounds:
  "at_rest s \<Longrightarrow> feed on_msg (todo s) (final_book s) = Inr b \<Longrightarrow>
   \<exists>s'. (pipeline_step on_msg)\<^sup>*\<^sup>* s s' \<and> at_rest s' \<and> todo s' = [] \<and> final_book s' = b \<and>
     (instant s' \<longleftrightarrow> instant s)"
proof (induction "todo s" arbitrary: s)
  case (Cons message rest)
  obtain b1 where b1: "on_msg (final_book s) message = Inr b1" "feed on_msg rest b1 = Inr b"
    using Cons.prems(2) unfolding Cons.hyps(2) [symmetric] by (auto simp: cpp_bind_Inr_iff)
  obtain s1 env where s1: "(pipeline_step on_msg)\<^sup>*\<^sup>* s s1" "producer s1 = Next_Message"
      "consumer s1 = Test_Done" "todo s1 = rest" "final_book s1 = final_book s"
      "env_message env = message" "spsc_inv (queue s1)" "producer_at (queue s1) = Producer_Idle"
      "consumer_at (queue s1) = Consumer_Idle" "pushed (queue s1) = popped (queue s1) @ [env]"
      "slots (queue s1) = slots (queue s)" "instant s1 \<longleftrightarrow> instant s"
    using producer_round [OF Cons.prems(1) Cons.hyps(2) [symmetric]] .
  have "on_msg (final_book s1) (env_message env) = Inr b1" using b1(1) s1 by simp
  from consumer_round [where on_msg = on_msg, OF s1(2,3,7-10) this]
  obtain s2 where s2: "(pipeline_step on_msg)\<^sup>*\<^sup>* s1 s2" "producer s2 = Next_Message"
      "consumer s2 = Test_Done" "todo s2 = todo s1" "final_book s2 = b1" "spsc_inv (queue s2)"
      "producer_at (queue s2) = Producer_Idle" "consumer_at (queue s2) = Consumer_Idle"
      "popped (queue s2) = pushed (queue s2)" "slots (queue s2) = slots (queue s1)"
      "instant s2 \<longleftrightarrow> instant s1" .
  have "at_rest s2" using s1(11) s2 Cons.prems(1) by (simp add: at_rest_def)
  with Cons.hyps(1) [of s2] s1(4) s2(4,5) b1(2) obtain s3 where
    "(pipeline_step on_msg)\<^sup>*\<^sup>* s2 s3" "at_rest s3" "todo s3 = []" "final_book s3 = b"
    "instant s3 \<longleftrightarrow> instant s2" by auto
  moreover from this(1) have "(pipeline_step on_msg)\<^sup>*\<^sup>* s s3"
    by (rule rtranclp_trans [OF s1(1) rtranclp_trans [OF s2(1)]])
  ultimately show ?case using s1(12) s2(11) by blast
qed auto

lemma reachable_star:
  "(pipeline_step on_msg)\<^sup>*\<^sup>* s s' \<Longrightarrow> pipeline_reachable on_msg capacity messages b s \<Longrightarrow>
   pipeline_reachable on_msg capacity messages b s'"
  by (induction rule: rtranclp_induct) (auto intro: step)

lemma spsc_new_parts:
  "slots (spsc_new d capacity) = capacity + 1" "producer_at (spsc_new d capacity) = Producer_Idle"
  "consumer_at (spsc_new d capacity) = Consumer_Idle" "pushed (spsc_new d capacity) = []"
  "popped (spsc_new d capacity) = []"
  by (simp_all add: spsc_new_def ring_new_def Let_def)

text \<open>Once \<open>producer_done\<close> is stored and the ring is empty, the consumer can see both and leave.\<close>

lemma finish_run:
  assumes "consumer s = Test_Done" and "consumer_at (queue s) = Consumer_Idle"
    and "popped (queue s) = pushed (queue s)" and "spsc_inv (queue s)"
    and "done_at s = Some k" and "k \<le> length (pushed (queue s))"
  obtains s' where "(pipeline_step on_msg)\<^sup>*\<^sup>* s s'" and "consumer s' = Consumer_Exited"
    and "final_book s' = final_book s" and "instant s' \<longleftrightarrow> instant s"
proof -
  let ?q = "queue s" and ?p = "length (pushed (queue s))"
  have ord: "orders_inv ?q" using assms(4) by (simp add: spsc_inv_def)
  then have len: "length (head_order ?q) = Suc ?p" and view: "consumer_view ?q \<le> ?p"
    by (simp_all add: orders_invD(3)) (simp add: orders_inv_def)
  define q1 where "q1 = ?q\<lparr>consumer_view := ?p\<rparr>"
  define s1 where "s1 = s\<lparr>queue := q1, consumer := Test_Empty\<rparr>"
  have "spsc_step ?q (Acquires ?p) q1"
    unfolding q1_def by (rule acquire [OF assms(2) view]) (simp add: len)
  then have r1: "pipeline_step on_msg s s1"
    unfolding s1_def by (rule load_done [OF assms(1,5,6)])
  have "head_order q1 ! ?p = last (tail_order q1)"
    using orders_invD(2) [OF ord] orders_invD(5) [OF ord, of ?p] assms(3) len by (simp add: q1_def)
  then have "spsc_step q1 (Empty_Returns True) (q1\<lparr>consumer_view := ?p\<rparr>)"
    using empty_call [of q1 ?p] assms(2) len by (simp add: q1_def)
  then have r2: "pipeline_step on_msg s1 (s1\<lparr>queue := q1\<lparr>consumer_view := ?p\<rparr>, consumer := Consumer_Exited\<rparr>)"
    by (intro found_empty) (simp_all add: s1_def)
  have "(pipeline_step on_msg)\<^sup>*\<^sup>* s
      (s1\<lparr>queue := q1\<lparr>consumer_view := ?p\<rparr>, consumer := Consumer_Exited\<rparr>)"
    by (rule converse_rtranclp_into_rtranclp [where r = "pipeline_step on_msg", OF r1 r_into_rtranclp])
      (rule r2)
  then show thesis by (rule that) (simp_all add: s1_def instant_def)
qed

text \<open>At rest with nothing left, the producer stores \<open>producer_done\<close> and the consumer leaves.\<close>

lemma rest_finishes:
  assumes "at_rest s" and "todo s = []"
  obtains s' where "(pipeline_step on_msg)\<^sup>*\<^sup>* s s'" and "consumer s' = Consumer_Exited"
    and "final_book s' = final_book s" and "instant s' \<longleftrightarrow> instant s"
proof -
  let ?k = "length (head_order (queue s)) - 1"
  define s1 where "s1 = s\<lparr>producer := Producer_Exited, done_at := Some ?k\<rparr>"
  have r1: "pipeline_step on_msg s s1"
    unfolding s1_def by (rule store_done) (use assms in \<open>simp_all add: at_rest_def\<close>)
  have "?k \<le> length (pushed (queue s))"
    using assms(1) orders_invD(3) [of "queue s"] by (simp add: at_rest_def spsc_inv_def)
  then obtain s' where "(pipeline_step on_msg)\<^sup>*\<^sup>* s1 s'" "consumer s' = Consumer_Exited" "final_book s' = final_book s1"
      "instant s' \<longleftrightarrow> instant s1"
    using finish_run [of s1 ?k on_msg] assms(1) by (auto simp: s1_def at_rest_def)
  from that [OF converse_rtranclp_into_rtranclp [where r = "pipeline_step on_msg", OF r1 this(1)] this(2)] this(3,4)
  show thesis by (simp add: s1_def instant_def)
qed

lemma complete_run:
  assumes "0 < capacity" and "capacity < - 1" and "feed on_msg messages b0 = Inr b"
  obtains s where "pipeline_reachable on_msg capacity messages b0 s" and "consumer s = Consumer_Exited"
    and "final_book s = b" and "instant s"
proof -
  define s0 where "s0 = pipeline_new capacity messages b0 0 0"
  have "unat (0 :: u64) < unat capacity" using assms(1) unfolding word_less_nat_alt .
  then have "0 < unat capacity" by (simp only: unat_0)
  then have "1 < unat (capacity + 1)" unfolding slot_count [OF assms(2)] by linarith
  then have rest0: "at_rest s0"
    unfolding at_rest_def s0_def pipeline_new_def pipeline.simps spsc_new_parts
    using spsc_inv_new [OF assms(2), of zero_envelope] by blast
  have "feed on_msg (todo s0) (final_book s0) = Inr b"
    using assms(3) by (simp add: s0_def pipeline_new_def)
  from rounds [OF rest0 this] obtain s1 where s1: "(pipeline_step on_msg)\<^sup>*\<^sup>* s0 s1" "at_rest s1" "todo s1 = []"
      "final_book s1 = b" "instant s1 \<longleftrightarrow> instant s0" by blast
  obtain s2 where s2: "(pipeline_step on_msg)\<^sup>*\<^sup>* s1 s2" "consumer s2 = Consumer_Exited"
      "final_book s2 = final_book s1" "instant s2 \<longleftrightarrow> instant s1"
    using rest_finishes [OF s1(2,3)] .
  have "pipeline_reachable on_msg capacity messages b0 s0"
    unfolding s0_def by (rule pipeline_reachable.start)
  then have reach: "pipeline_reachable on_msg capacity messages b0 s2"
    by (rule reachable_star [OF rtranclp_trans [OF s1(1) s2(1)]])
  have "instant s0" by (simp add: s0_def pipeline_new_def instant_def)
  then show thesis by (intro that [OF reach]) (use s2 s1(4,5) in simp_all)
qed

section \<open>Properties\<close>

text \<open>
  Property C7. The ring-buffer benchmark loses, repeats and reorders nothing: under every
  interleaving, when the consumer leaves its loop it has processed exactly the generated messages in
  order, and both counters say so; on the way no slot access races and no message is undefined
  behaviour in the book.
\<close>

theorem spsc_benchmark_delivers:
  assumes "capacity < - 1" and "spsc_benchmark wall n capacity s"
  shows "\<not> spsc_undefined (queue s) \<and>
     (consumer s = Consumer_Exited \<longrightarrow>
        feed on_message (generated wall n (map of_char ''AAPL'')) empty_book = Inr (final_book s) \<and>
        produced s = n \<and> consumed s = n) \<and>
     (\<forall>env. consumer s = Process env \<longrightarrow>
        (\<exists>b. on_message (final_book s) (env_message env) = Inr b))"
proof -
  let ?ms = "generated wall n (map of_char ''AAPL'')"
  have inv: "pipeline_inv on_message ?ms empty_book s"
    by (rule pipeline_reachable_inv [OF assms(2) [unfolded spsc_benchmark_def] assms(1)])
  obtain b' where all: "feed on_message ?ms empty_book = Inr b'"
    using base.feed_ok [OF book_rel_empty replay_shallow [OF order_refl]] by blast
  have "\<not> spsc_undefined (queue s)" using inv spsc_inv_defined by (auto simp: pipeline_inv_def)
  moreover have "\<exists>b. on_message (final_book s) (env_message env) = Inr b"
    if pc: "consumer s = Process env" for env
  proof -
    obtain pr rest where "?ms = pr @ env_message env # rest"
        "feed on_message pr empty_book = Inr (final_book s)"
      using pipeline_prefix [OF inv pc] .
    with all show ?thesis by (metis feed_prefix_defined)
  qed
  moreover have "feed on_message ?ms empty_book = Inr (final_book s)" "produced s = n" "consumed s = n"
    if "consumer s = Consumer_Exited"
    using pipeline_exited [OF inv that] unfolding generated_ok(1) by simp_all
  ultimately show ?thesis by blast
qed

theorem spsc_benchmark_delivers_witness:
  "\<exists>s. spsc_benchmark (\<lambda>_. 7) 3 2 s \<and> consumer s = Consumer_Exited \<and> consumed s = 3"
proof -
  obtain b where "feed on_message (generated (\<lambda>_. 7) 3 (map of_char ''AAPL'')) empty_book = Inr b"
    using base.feed_ok [OF book_rel_empty replay_shallow [OF order_refl]] by blast
  from complete_run [OF _ _ this, of 2]
  obtain s where s: "spsc_benchmark (\<lambda>_. 7) 3 2 s" "consumer s = Consumer_Exited"
    unfolding spsc_benchmark_def by auto
  with spsc_benchmark_delivers [OF _ s(1)] show ?thesis by auto
qed

text \<open>
  The two ring-buffer programs agree: with a pool of at least min(n, 10000) slots, any
  finished run of one and any finished run of the other, whatever their queue capacities and
  interleavings, print the same final book.
\<close>

lemma spsc_benchmarks_agree:
  assumes "capacity1 < - 1" and "capacity2 < - 1"
    and "min (unat n) 10000 \<le> unat max_orders" and "unat max_orders * 24 < 2 ^ 64"
    and "spsc_benchmark wall n capacity1 s1" and "consumer s1 = Consumer_Exited"
    and "spsc_pooled_benchmark wall n capacity2 base max_orders s2" and "consumer s2 = Consumer_Exited"
  shows "base_report (final_book s1) = pooled_report (final_book s2)"
proof -
  let ?ms = "generated wall n (map of_char ''AAPL'')"
  have a: "feed on_message ?ms empty_book = Inr (final_book s1)"
    using pipeline_exited(1) [OF pipeline_reachable_inv [OF assms(5) [unfolded spsc_benchmark_def] assms(1)] assms(6)] .
  have b: "feed pooled_on_message ?ms (pooled_new base (unat max_orders)) = Inr (final_book s2)"
    using pipeline_exited(1) [OF pipeline_reachable_inv
        [OF assms(7) [unfolded spsc_pooled_benchmark_def] assms(2)] assms(8)] .
  from a b show ?thesis by (rule same_report [OF order_refl assms(3,4)])
qed

text \<open>
  The pipeline is never trapped at its start: for every message stream the book accepts
  and every capacity except 0 and the largest \<open>std::size_t\<close>, some interleaving runs to the end and
  leaves the book of the plain message loop.
\<close>

lemma pipeline_can_finish:
  assumes "0 < capacity" and "capacity < - 1" and "feed on_msg messages b0 = Inr b"
  shows "\<exists>s. pipeline_reachable on_msg capacity messages b0 s \<and> consumer s = Consumer_Exited \<and>
     final_book s = b"
  by (rule complete_run [OF assms]) blast

end
