(* ===== verification/Spsc_Progress.thy ===== *)
theory Spsc_Progress
  imports Spsc_Pipeline
begin

text \<open>
  The pipelines over the ring buffer are never trapped: whatever the two threads have done so far, there
  is a continuation on which both leave. The consumer empties the ring, the producer completes the push it
  is in, and from then on the messages go through one by one.
\<close>

section \<open>Inside the calls\<close>

text \<open>The loops and the ring agree on which call each thread is in, and with which envelope.\<close>

fun push_argument :: "'a producer_pc \<Rightarrow> 'a option" where
  "push_argument Producer_Idle = None"
| "push_argument (Load_Tail x head next_head) = Some x"
| "push_argument (Write_Slot x head next_head) = Some x"
| "push_argument (Store_Head x next_head) = Some x"

definition calls_inv :: "'b pipeline \<Rightarrow> bool" where
  "calls_inv s \<longleftrightarrow> (consumer_at (queue s) = Consumer_Idle \<longleftrightarrow> consumer s \<noteq> In_Pop) \<and>
     (\<forall>env. producer s = In_Push env \<longleftrightarrow> push_argument (producer_at (queue s)) = Some env) \<and>
     (producer s = Producer_Exited \<longrightarrow> done_at s \<noteq> None)"

lemma calls_inv_new: "calls_inv (pipeline_new capacity messages b c1 c2)"
  by (simp add: calls_inv_def pipeline_new_def spsc_new_parts)

lemma spsc_step_calls:
  assumes "spsc_step q e q'"
  shows "push_argument (producer_at q') =
      (case e of Calls_Push x \<Rightarrow> Some x | Push_Returns x r \<Rightarrow> None | _ \<Rightarrow> push_argument (producer_at q)) \<and>
      (consumer_at q' = Consumer_Idle \<longleftrightarrow>
      (case e of Calls_Pop \<Rightarrow> False | Pop_Returns r \<Rightarrow> True | _ \<Rightarrow> consumer_at q = Consumer_Idle))"
  using assms by (induction rule: spsc_step.induct) (auto simp: write_cell_def read_cell_def split: if_splits)

lemma calls_step:
  assumes "pipeline_step on_msg s s'" and "calls_inv s"
  shows "calls_inv s'"
  using assms
proof (induction rule: pipeline_step.induct)
  case (process s env pop_ns book_start book_end end_ns cpu s')
  then show ?case by (auto simp: calls_inv_def process_envelope_def cpp_map_Inr_iff)
qed ((frule spsc_step_calls)?, clarsimp simp: calls_inv_def)+

lemma pipeline_step_slots: "pipeline_step on_msg s s' \<Longrightarrow> slots (queue s') = slots (queue s)"
  by (induction rule: pipeline_step.induct)
    (auto simp: process_envelope_def cpp_map_Inr_iff dest: spsc_step_slots)

text \<open>Everything the continuation needs.\<close>

definition live_inv ::
  "('b \<Rightarrow> market_message \<Rightarrow> 'b cpp) \<Rightarrow> market_message list \<Rightarrow> 'b \<Rightarrow> 'b pipeline \<Rightarrow> bool" where
  "live_inv on_msg messages b s \<longleftrightarrow>
     pipeline_inv on_msg messages b s \<and> calls_inv s \<and> 1 < unat (slots (queue s))"

lemma live_step: "pipeline_step on_msg s s' \<Longrightarrow> live_inv on_msg messages b s \<Longrightarrow> live_inv on_msg messages b s'"
  by (simp add: live_inv_def pipeline_step_inv calls_step pipeline_step_slots)

lemma live_steps:
  "(pipeline_step on_msg)\<^sup>*\<^sup>* s s' \<Longrightarrow> live_inv on_msg messages b s \<Longrightarrow> live_inv on_msg messages b s'"
  by (induction rule: rtranclp_induct) (auto intro: live_step)

lemma live_reachable:
  assumes "pipeline_reachable on_msg capacity messages b s" and "0 < capacity" and "capacity < - 1"
  shows "live_inv on_msg messages b s"
  using assms(1)
proof induction
  case (start c1 c2)
  have "0 < unat capacity" using assms(2) by (simp add: word_less_nat_alt)
  then have "1 < unat (capacity + 1)" unfolding slot_count [OF assms(3)] by linarith
  with calls_inv_new [of capacity messages b c1 c2] pipeline_inv_new [OF assms(3), of on_msg messages b c1 c2]
  show ?case by (simp add: live_inv_def pipeline_new_def spsc_new_parts)
next
  case (step s s')
  then show ?case by (blast intro: live_step)
qed

section \<open>The consumer empties the ring\<close>

text \<open>The consumer is between two calls, or gone, and nothing is in the ring.\<close>

definition settled :: "'b pipeline \<Rightarrow> bool" where
  "settled s \<longleftrightarrow> (consumer s = Test_Done \<or> consumer s = Consumer_Exited) \<and>
     popped (queue s) = pushed (queue s)"

definition same_producer :: "'b pipeline \<Rightarrow> 'b pipeline \<Rightarrow> bool" where
  "same_producer s s' \<longleftrightarrow> producer s' = producer s \<and> pushed (queue s') = pushed (queue s)"

lemma same_producer_trans:
  "same_producer s1 s2 \<Longrightarrow> same_producer s2 s3 \<Longrightarrow> same_producer s1 s3"
  by (simp add: same_producer_def)

text \<open>The steps the consumer still needs for what is in the ring.\<close>

definition consumer_left :: "'b pipeline \<Rightarrow> nat" where
  "consumer_left s = 10 * (length (pushed (queue s)) - length (popped (queue s))) +
     (case consumer s of
        Process env \<Rightarrow> 7
      | Test_Empty \<Rightarrow> 6
      | Test_Done \<Rightarrow> 5
      | Start_Pop \<Rightarrow> 4
      | In_Pop \<Rightarrow> consumer_work (consumer_at (queue s))
      | Consumer_Exited \<Rightarrow> 0)"

lemma ring_in_view:
  assumes "spsc_inv q"
  shows "length (popped q) \<le> length (pushed q)" and "consumer_view q \<le> length (pushed q)"
    and "length (pushed q) < length (head_order q)"
    and "head_order q ! length (pushed q) = last (tail_order q) \<longleftrightarrow> popped q = pushed q"
proof -
  have ord: "orders_inv q" and pre: "prefix (popped q) (pushed q)"
    using assms by (simp_all add: spsc_inv_def cells_inv_def)
  show "length (popped q) \<le> length (pushed q)" by (rule prefix_length_le [OF pre])
  show "consumer_view q \<le> length (pushed q)" using ord by (simp add: orders_inv_def)
  show len: "length (pushed q) < length (head_order q)" by (simp add: orders_invD(3) [OF ord])
  have "head_order q ! length (pushed q) = last (tail_order q) \<longleftrightarrow>
      length (pushed q) mod unat (slots q) = length (popped q) mod unat (slots q)"
    using orders_invD(2) [OF ord] orders_invD(5) [OF ord len] ord
    by (simp add: position_eq_iff orders_inv_def)
  also have "\<dots> \<longleftrightarrow> length (pushed q) = length (popped q)"
    using window_inj [of "length (pushed q)" "unat (slots q)" "length (popped q)" "length (popped q)"] ord
    by (auto simp: orders_inv_def)
  also have "\<dots> \<longleftrightarrow> popped q = pushed q"
    using pre by (metis append_Nil2 append_eq_append_conv prefix_def)
  finally show "head_order q ! length (pushed q) = last (tail_order q) \<longleftrightarrow> popped q = pushed q" .
qed

lemma consumer_stepI:
  "pipeline_step on_msg s s' \<Longrightarrow> same_producer s s' \<Longrightarrow> settled s' \<or> consumer_left s' < consumer_left s \<Longrightarrow>
   \<exists>s'. pipeline_step on_msg s s' \<and> same_producer s s' \<and> (settled s' \<or> consumer_left s' < consumer_left s)"
  by blast

text \<open>Inside \<open>pop\<close>, with the newest head in view.\<close>

lemma pop_advances:
  assumes "live_inv on_msg messages b s" and pc: "consumer s = In_Pop"
  shows "\<exists>s'. pipeline_step on_msg s s' \<and> same_producer s s' \<and> (settled s' \<or> consumer_left s' < consumer_left s)"
proof -
  let ?q = "queue s"
  have q: "spsc_inv ?q" using assms(1) by (simp add: live_inv_def pipeline_inv_def)
  note view = ring_in_view [OF q]
  show ?thesis
  proof (cases "consumer_at ?q")
    case Consumer_Idle
    with assms show ?thesis by (simp add: live_inv_def calls_inv_def)
  next
    case (Load_Head tail)
    have tail: "tail = last (tail_order ?q)"
      using q Load_Head orders_invD(2) [of ?q] by (simp add: spsc_inv_def consumer_inv_def)
    show ?thesis
    proof (cases "popped ?q = pushed ?q")
      case True
      then have "tail = head_order ?q ! length (pushed ?q)" using tail view(4) by simp
      from pop_failed [OF pc pop_none [OF Load_Head view(2,3) this], of on_msg] show ?thesis
        by (rule consumer_stepI) (simp_all add: same_producer_def settled_def True)
    next
      case False
      then have "tail \<noteq> head_order ?q ! length (pushed ?q)" using tail view(4) by simp
      from queue_step [OF pop_some [OF Load_Head view(2,3) this], of on_msg] show ?thesis
        by (rule consumer_stepI) (simp_all add: same_producer_def consumer_left_def pc Load_Head)
    qed
  next
    case (Read_Slot tail)
    from queue_step [OF pop_read [OF Read_Slot read_cell_ok [OF q Read_Slot]], of on_msg]
    show ?thesis
      by (rule consumer_stepI) (simp_all add: same_producer_def consumer_left_def pc Read_Slot)
  next
    case (Store_Tail x tail)
    have "length (popped ?q) < length (pushed ?q)"
      using q Store_Tail by (auto simp: spsc_inv_def consumer_inv_def orders_inv_def)
    then have "10 * (length (pushed ?q) - Suc (length (popped ?q))) + 7 <
        10 * (length (pushed ?q) - length (popped ?q)) + 1" by linarith
    with pop_succeeded [OF pc pop_store [OF Store_Tail], of on_msg, THEN consumer_stepI] show ?thesis
      by (simp add: same_producer_def consumer_left_def pc Store_Tail)
  qed
qed

lemma consumer_advances:
  assumes inv: "live_inv on_msg messages b0 s" and feed: "feed on_msg messages b0 = Inr b" and "\<not> settled s"
  shows "\<exists>s'. pipeline_step on_msg s s' \<and> same_producer s s' \<and> (settled s' \<or> consumer_left s' < consumer_left s)"
proof -
  let ?q = "queue s"
  have pipe: "pipeline_inv on_msg messages b0 s" and q: "spsc_inv ?q"
    and idle: "consumer s \<noteq> In_Pop \<Longrightarrow> consumer_at ?q = Consumer_Idle"
    using inv by (simp_all add: live_inv_def pipeline_inv_def calls_inv_def)
  note view = ring_in_view [OF q]
  show ?thesis
  proof (cases "consumer s")
    case Test_Done
    from load_not_done [OF this, of on_msg] show ?thesis
      by (rule consumer_stepI) (simp_all add: same_producer_def consumer_left_def Test_Done)
  next
    case Test_Empty
    have call: "spsc_step ?q (Empty_Returns (popped ?q = pushed ?q)) (?q\<lparr>consumer_view := length (pushed ?q)\<rparr>)"
      using empty_call [OF idle view(2,3)] view(4) Test_Empty by simp
    show ?thesis
    proof (cases "popped ?q = pushed ?q")
      case True
      with call have "spsc_step ?q (Empty_Returns True) (?q\<lparr>consumer_view := length (pushed ?q)\<rparr>)" by simp
      from found_empty [OF Test_Empty this, of on_msg] show ?thesis
        by (rule consumer_stepI) (simp_all add: same_producer_def settled_def True)
    next
      case False
      with call have "spsc_step ?q (Empty_Returns False) (?q\<lparr>consumer_view := length (pushed ?q)\<rparr>)" by simp
      from found_nonempty [OF Test_Empty this, of on_msg] show ?thesis
        by (rule consumer_stepI) (simp_all add: same_producer_def consumer_left_def Test_Empty)
    qed
  next
    case Start_Pop
    then have "consumer_at ?q = Consumer_Idle" using idle by simp
    from start_pop [OF Start_Pop pop_call [OF this], of on_msg] show ?thesis
      by (rule consumer_stepI) (simp_all add: same_producer_def consumer_left_def Start_Pop)
  next
    case In_Pop
    with inv show ?thesis by (rule pop_advances)
  next
    case (Process env)
    obtain pr rest where "messages = pr @ env_message env # rest" "feed on_msg pr b0 = Inr (final_book s)"
      using pipeline_prefix [OF pipe Process] .
    with feed obtain b2 where "on_msg (final_book s) (env_message env) = Inr b2"
      using feed_prefix_defined by metis
    then obtain s' where s': "process_envelope on_msg 0 0 0 0 0 env s = Inr s'" "queue s' = ?q" "producer s' = producer s"
      by (auto simp: process_envelope_def)
    from process [OF Process s'(1)] show ?thesis
      by (rule consumer_stepI) (simp_all add: same_producer_def consumer_left_def Process s'(2,3))
  next
    case Consumer_Exited
    with pipe assms(3) show ?thesis by (simp add: pipeline_inv_def consumer_loop_inv_def settled_def)
  qed
qed

lemma consumer_settles:
  assumes "live_inv on_msg messages b0 s" and "feed on_msg messages b0 = Inr b"
  shows "\<exists>s'. (pipeline_step on_msg)\<^sup>*\<^sup>* s s' \<and> same_producer s s' \<and> settled s'"
  using assms(1)
proof (induction s rule: measure_induct_rule [where f = consumer_left])
  case (less s)
  show ?case
  proof (cases "settled s")
    case True
    then show ?thesis by (blast intro: rtranclp.rtrancl_refl [of "pipeline_step on_msg"] same_producer_def [THEN iffD2])
  next
    case False
    then obtain s1 where s1: "pipeline_step on_msg s s1" "same_producer s s1"
        "settled s1 \<or> consumer_left s1 < consumer_left s"
      using consumer_advances [OF less.prems assms(2)] by blast
    show ?thesis
    proof (cases "settled s1")
      case True
      with s1(1,2) show ?thesis by blast
    next
      case False
      with s1(3) obtain s2 where "(pipeline_step on_msg)\<^sup>*\<^sup>* s1 s2" "same_producer s1 s2" "settled s2"
        using less.IH live_step [OF s1(1) less.prems] by blast
      with s1(1,2) show ?thesis
        using converse_rtranclp_into_rtranclp [of "pipeline_step on_msg"] same_producer_trans by metis
    qed
  qed
qed

section \<open>The producer completes its push\<close>

definition producer_left :: "'b pipeline \<Rightarrow> nat" where
  "producer_left s =
     (case producer s of
        Try_Push env \<Rightarrow> 4
      | In_Push env \<Rightarrow> producer_work (producer_at (queue s))
      | _ \<Rightarrow> 0)"

lemma room_in_view:
  assumes "spsc_inv q" and "popped q = pushed q" and "1 < unat (slots q)"
  shows "producer_view q \<le> length (popped q)" and "length (popped q) < length (tail_order q)"
    and "tail_order q ! length (popped q) \<noteq> position (slots q) (Suc (length (pushed q)))"
proof -
  have ord: "orders_inv q" using assms(1) by (simp add: spsc_inv_def)
  then show "producer_view q \<le> length (popped q)" by (simp add: orders_inv_def)
  show len: "length (popped q) < length (tail_order q)" by (simp add: orders_invD(4) [OF ord])
  have "Suc (length (popped q)) mod unat (slots q) \<noteq> length (popped q) mod unat (slots q)"
    using window_inj [of "Suc (length (popped q))" "unat (slots q)" "length (popped q)" "length (popped q)"]
      assms(3) by auto
  then show "tail_order q ! length (popped q) \<noteq> position (slots q) (Suc (length (pushed q)))"
    using assms(2,3) orders_invD(6) [OF ord len] by (simp add: position_eq_iff)
qed

lemma producer_stepI:
  "pipeline_step on_msg s s' \<Longrightarrow> consumer s' = consumer s \<Longrightarrow>
   producer s' = Next_Message \<or> settled s' \<and> producer_left s' < producer_left s \<Longrightarrow>
   \<exists>s'. pipeline_step on_msg s s' \<and> consumer s' = consumer s \<and>
     (producer s' = Next_Message \<or> settled s' \<and> producer_left s' < producer_left s)"
  by blast

lemma producer_advances:
  assumes "live_inv on_msg messages b0 s" and "settled s"
    and "producer s \<noteq> Next_Message" and "producer s \<noteq> Producer_Exited"
  shows "\<exists>s'. pipeline_step on_msg s s' \<and> consumer s' = consumer s \<and>
     (producer s' = Next_Message \<or> settled s' \<and> producer_left s' < producer_left s)"
proof -
  let ?q = "queue s"
  have q: "spsc_inv ?q" and n: "1 < unat (slots ?q)" and calls: "calls_inv s"
    using assms(1) by (simp_all add: live_inv_def pipeline_inv_def)
  have eq: "popped ?q = pushed ?q" using assms(2) by (simp add: settled_def)
  note room = room_in_view [OF q eq n]
  note frame = settled_def producer_left_def
  show ?thesis
  proof (cases "producer s")
    case (Try_Push env)
    with calls have "push_argument (producer_at ?q) = None"
      by (cases "push_argument (producer_at ?q)") (auto simp: calls_inv_def)
    then have "producer_at ?q = Producer_Idle" by (cases "producer_at ?q") simp_all
    from start_push [OF Try_Push refl push_call [OF this refl], of on_msg 0] show ?thesis
      by (rule producer_stepI) (use assms(2) in \<open>simp_all add: frame Try_Push\<close>)
  next
    case (In_Push env)
    then have arg: "push_argument (producer_at ?q) = Some env"
      using calls unfolding calls_inv_def by blast
    show ?thesis
    proof (cases "producer_at ?q")
      case Producer_Idle
      with arg show ?thesis by simp
    next
      case (Load_Tail x head next_head)
      then have "next_head \<noteq> tail_order ?q ! length (popped ?q)"
        using q room(3) by (simp add: spsc_inv_def producer_inv_def)
      from queue_step [OF push_room [OF Load_Tail room(1,2) this], of on_msg] show ?thesis
        by (rule producer_stepI) (use assms(2) in \<open>simp_all add: frame In_Push Load_Tail\<close>)
    next
      case (Write_Slot x head next_head)
      from queue_step [OF push_write [OF Write_Slot write_cell_ok [OF q Write_Slot]], of on_msg] show ?thesis
        by (rule producer_stepI) (use assms(2) in \<open>simp_all add: frame In_Push Write_Slot\<close>)
    next
      case (Store_Head x next_head)
      then have x: "x = env" using arg by simp
      from push_succeeded [OF In_Push push_store [OF Store_Head, unfolded x], of on_msg 0] show ?thesis
        by (rule producer_stepI) simp_all
    qed
  qed (use assms(3,4) in simp_all)
qed

lemma producer_completes:
  assumes "live_inv on_msg messages b0 s" and "settled s"
  shows "\<exists>s'. (pipeline_step on_msg)\<^sup>*\<^sup>* s s' \<and> consumer s' = consumer s \<and>
     (producer s' = Next_Message \<or> producer s' = Producer_Exited)"
  using assms
proof (induction s rule: measure_induct_rule [where f = producer_left])
  case (less s)
  show ?case
  proof (cases "producer s = Next_Message \<or> producer s = Producer_Exited")
    case True
    then show ?thesis by (blast intro: rtranclp.rtrancl_refl [of "pipeline_step on_msg"])
  next
    case False
    then obtain s1 where s1: "pipeline_step on_msg s s1" "consumer s1 = consumer s"
        "producer s1 = Next_Message \<or> settled s1 \<and> producer_left s1 < producer_left s"
      using producer_advances [OF less.prems] by blast
    show ?thesis
    proof (cases "producer s1 = Next_Message")
      case True
      with s1(1,2) show ?thesis by blast
    next
      case False
      with s1(3) obtain s2 where "(pipeline_step on_msg)\<^sup>*\<^sup>* s1 s2" "consumer s2 = consumer s1"
          "producer s2 = Next_Message \<or> producer s2 = Producer_Exited"
        using less.IH live_step [OF s1(1) less.prems(1)] by blast
      with s1(1,2) show ?thesis
        using converse_rtranclp_into_rtranclp [of "pipeline_step on_msg"] by metis
    qed
  qed
qed

section \<open>Both threads can always leave\<close>

text \<open>Between two messages, or after \<open>producer_done\<close>, the run goes on to the end.\<close>

lemma settled_finishes:
  assumes "live_inv on_msg messages b0 s" and "feed on_msg messages b0 = Inr b" and "settled s"
    and "producer s = Next_Message \<or> producer s = Producer_Exited"
  shows "\<exists>s'. (pipeline_step on_msg)\<^sup>*\<^sup>* s s' \<and> consumer s' = Consumer_Exited"
proof (cases "consumer s = Consumer_Exited")
  case False
  then have test: "consumer s = Test_Done" and eq: "popped (queue s) = pushed (queue s)"
    using assms(3) by (simp_all add: settled_def)
  have pipe: "pipeline_inv on_msg messages b0 s" and q: "spsc_inv (queue s)" and calls: "calls_inv s"
    and n: "1 < unat (slots (queue s))"
    using assms(1) by (simp_all add: live_inv_def pipeline_inv_def)
  have idle: "consumer_at (queue s) = Consumer_Idle" using calls test by (simp add: calls_inv_def)
  show ?thesis
    using assms(4)
  proof
    assume next_msg: "producer s = Next_Message"
    then have "push_argument (producer_at (queue s)) = None"
      using calls by (cases "push_argument (producer_at (queue s))") (auto simp: calls_inv_def)
    then have "producer_at (queue s) = Producer_Idle" by (cases "producer_at (queue s)") simp_all
    with next_msg test eq q n idle have rest: "at_rest s" by (simp add: at_rest_def)
    have "map env_message (pushed (queue s)) @ todo s = messages"
      and "feed on_msg (map env_message (pushed (queue s))) b0 = Inr (final_book s)"
      using pipe test eq by (auto simp: pipeline_inv_def consumer_loop_inv_def)
    then have "feed on_msg (todo s) (final_book s) = Inr b"
      using assms(2) by (auto simp: feed_append)
    from rounds [OF rest this] obtain s1 where s1: "(pipeline_step on_msg)\<^sup>*\<^sup>* s s1" "at_rest s1" "todo s1 = []"
      by blast
    obtain s2 where "(pipeline_step on_msg)\<^sup>*\<^sup>* s1 s2" "consumer s2 = Consumer_Exited"
      using rest_finishes [OF s1(2,3)] .
    with s1(1) show ?thesis by (meson rtranclp_trans)
  next
    assume "producer s = Producer_Exited"
    then obtain k where k: "done_at s = Some k" using calls by (auto simp: calls_inv_def)
    then have "k \<le> length (pushed (queue s))" using pipe by (simp add: pipeline_inv_def producer_loop_inv_def)
    from finish_run [OF test idle eq q k this, of on_msg] show ?thesis by blast
  qed
qed blast

lemma pipeline_continues:
  assumes "pipeline_reachable on_msg capacity messages b0 s" and "0 < capacity" and "capacity < - 1"
    and "feed on_msg messages b0 = Inr b"
  obtains s' where "(pipeline_step on_msg)\<^sup>*\<^sup>* s s'" and "consumer s' = Consumer_Exited"
    and "producer s' = Producer_Exited" and "final_book s' = b"
proof -
  note live = live_reachable [OF assms(1-3)]
  obtain s1 where s1: "(pipeline_step on_msg)\<^sup>*\<^sup>* s s1" "settled s1"
    using consumer_settles [OF live assms(4)] by blast
  obtain s2 where s2: "(pipeline_step on_msg)\<^sup>*\<^sup>* s1 s2" "producer s2 = Next_Message \<or> producer s2 = Producer_Exited"
    using producer_completes [OF live_steps [OF s1(1) live] s1(2)] by blast
  note live2 = live_steps [OF rtranclp_trans [OF s1(1) s2(1)] live]
  obtain s3 where s3: "(pipeline_step on_msg)\<^sup>*\<^sup>* s2 s3" "same_producer s2 s3" "settled s3"
    using consumer_settles [OF live2 assms(4)] by blast
  have "producer s3 = Next_Message \<or> producer s3 = Producer_Exited"
    using s2(2) s3(2) by (simp add: same_producer_def)
  from settled_finishes [OF live_steps [OF s3(1) live2] assms(4) s3(3) this]
  obtain s4 where s4: "(pipeline_step on_msg)\<^sup>*\<^sup>* s3 s4" "consumer s4 = Consumer_Exited" by blast
  have run: "(pipeline_step on_msg)\<^sup>*\<^sup>* s s4" using s1(1) s2(1) s3(1) s4(1) by (meson rtranclp_trans)
  have inv: "pipeline_inv on_msg messages b0 s4"
    using live_steps [OF run live] by (simp add: live_inv_def)
  show thesis
    by (rule that [OF run s4(2) pipeline_exited(5) [OF inv s4(2)]])
      (use pipeline_exited(1) [OF inv s4(2)] assms(4) in simp)
qed

section \<open>Properties\<close>

text \<open>
  Property C23. The ring-buffer programs never hang by construction, for a capacity above 0 and below
  2^64 - 1, and in the pooled program a pool of fewer than 2^64 / 24 slots: from every state any
  interleaving can reach some continuation lets both threads leave their loops, in the book of the plain
  message loop.
\<close>

theorem spsc_never_trapped:
  assumes "0 < capacity" and "capacity < - 1"
  shows "(\<forall>s. spsc_benchmark wall n capacity s \<longrightarrow>
       (\<exists>s'. (pipeline_step on_message)\<^sup>*\<^sup>* s s' \<and> spsc_benchmark wall n capacity s' \<and>
          producer s' = Producer_Exited \<and> consumer s' = Consumer_Exited \<and>
          feed on_message (generated wall n (map of_char ''AAPL'')) empty_book = Inr (final_book s'))) \<and>
     (unat max_orders * 24 < 2 ^ 64 \<longrightarrow> (\<forall>s. spsc_pooled_benchmark wall n capacity base max_orders s \<longrightarrow>
       (\<exists>s'. (pipeline_step pooled_on_message)\<^sup>*\<^sup>* s s' \<and>
          spsc_pooled_benchmark wall n capacity base max_orders s' \<and>
          producer s' = Producer_Exited \<and> consumer s' = Consumer_Exited \<and>
          feed pooled_on_message (generated wall n (map of_char ''AAPL'')) (pooled_new base (unat max_orders)) =
            Inr (final_book s'))))"
proof (intro conjI allI impI)
  let ?ms = "generated wall n (map of_char ''AAPL'')"
  fix s assume s: "spsc_benchmark wall n capacity s"
  obtain b where b: "feed on_message ?ms empty_book = Inr b"
    using base.feed_ok [OF book_rel_empty replay_shallow [OF order_refl]] by blast
  from pipeline_continues [OF s [unfolded spsc_benchmark_def] assms b] b reachable_star [OF _ s [unfolded spsc_benchmark_def]]
  show "\<exists>s'. (pipeline_step on_message)\<^sup>*\<^sup>* s s' \<and> spsc_benchmark wall n capacity s' \<and>
      producer s' = Producer_Exited \<and> consumer s' = Consumer_Exited \<and> feed on_message ?ms empty_book = Inr (final_book s')"
    unfolding spsc_benchmark_def by metis
next
  let ?ms = "generated wall n (map of_char ''AAPL'')" and ?b0 = "pooled_new base (unat max_orders)"
  fix s assume room: "unat max_orders * 24 < 2 ^ 64" and s: "spsc_pooled_benchmark wall n capacity base max_orders s"
  obtain b where b: "feed pooled_on_message ?ms ?b0 = Inr b"
    using feed_pooled_memory [OF memory_ok_new [OF room]] by blast
  from pipeline_continues [OF s [unfolded spsc_pooled_benchmark_def] assms b] b
    reachable_star [OF _ s [unfolded spsc_pooled_benchmark_def]]
  show "\<exists>s'. (pipeline_step pooled_on_message)\<^sup>*\<^sup>* s s' \<and>
      spsc_pooled_benchmark wall n capacity base max_orders s' \<and>
      producer s' = Producer_Exited \<and> consumer s' = Consumer_Exited \<and>
      feed pooled_on_message ?ms ?b0 = Inr (final_book s')"
    unfolding spsc_pooled_benchmark_def by metis
qed

theorem spsc_never_trapped_witness:
  "\<exists>s. spsc_benchmark (\<lambda>_. 7) 3 2 s \<and> producer s = Producer_Exited \<and> consumer s = Consumer_Exited"
proof -
  have "spsc_benchmark (\<lambda>_. 7) 3 2
      (pipeline_new 2 (generated (\<lambda>_. 7) 3 (map of_char ''AAPL'')) empty_book 0 0)"
    unfolding spsc_benchmark_def by (rule pipeline_reachable.start)
  from spsc_never_trapped [THEN conjunct1, rule_format, OF _ _ this] show ?thesis by auto
qed

end
