(* ===== verification/Mutex_Queue.thy ===== *)
theory Mutex_Queue
  imports Bounded_Queue "HOL-Library.Sublist"
begin

text \<open>
  The blocking queue of \<open>include/latency_lab/mutex_queue.hpp\<close>: a \<open>std::queue\<close> behind a mutex
  with two condition variables. First the bodies of the critical sections, then any number of
  threads that call them: a thread that finds its predicate false sleeps on its condition variable
  until a notification, or a spurious wake-up, lets it test again.
\<close>

section \<open>State and critical sections\<close>

record 'a mutex_queue =
  mq_capacity :: u64
  mq_items :: "'a list"
  mq_closed :: bool

definition mutex_queue_new :: "u64 \<Rightarrow> 'a mutex_queue" where
  "mutex_queue_new capacity = \<lparr>mq_capacity = capacity, mq_items = [], mq_closed = False\<rparr>"

definition not_full_predicate :: "'a mutex_queue \<Rightarrow> bool" where
  "not_full_predicate q \<longleftrightarrow> mq_closed q \<or> length (mq_items q) < unat (mq_capacity q)"

definition not_empty_predicate :: "'a mutex_queue \<Rightarrow> bool" where
  "not_empty_predicate q \<longleftrightarrow> mq_closed q \<or> mq_items q \<noteq> []"

text \<open>
  \<open>push\<close> with the mutex held: \<open>None\<close> is \<open>wait\<close> going to sleep, otherwise whether the item was
  queued (and \<open>not_empty_.notify_one()\<close> called) and the queue after it.
  \<open>push_with_mutation\<close> queues the item as \<open>mutate\<close> leaves it.
\<close>

definition mutex_push :: "'a \<Rightarrow> 'a mutex_queue \<Rightarrow> (bool \<times> 'a mutex_queue) option" where
  "mutex_push item q =
     (if \<not> not_full_predicate q then None
      else if mq_closed q then Some (False, q)
      else Some (True, q\<lparr>mq_items := mq_items q @ [item]\<rparr>))"

definition mutex_push_with_mutation ::
  "'a \<Rightarrow> ('a \<Rightarrow> 'a) \<Rightarrow> 'a mutex_queue \<Rightarrow> (bool \<times> 'a mutex_queue) option" where
  "mutex_push_with_mutation item mutate q =
     (if \<not> not_full_predicate q then None
      else if mq_closed q then Some (False, q)
      else (let queued_item = mutate item
            in Some (True, q\<lparr>mq_items := mq_items q @ [queued_item]\<rparr>)))"

text \<open>
  \<open>pop\<close> with the mutex held: \<open>None\<close> is going to sleep, otherwise the element, if any (then
  \<open>not_full_.notify_one()\<close> was called), and the queue after it.
\<close>

definition mutex_pop :: "'a mutex_queue \<Rightarrow> ('a option \<times> 'a mutex_queue) option" where
  "mutex_pop q =
     (if \<not> not_empty_predicate q then None
      else if mq_items q = [] then Some (None, q)
      else Some (Some (hd (mq_items q)), q\<lparr>mq_items := tl (mq_items q)\<rparr>))"

definition mutex_close :: "'a mutex_queue \<Rightarrow> 'a mutex_queue" where
  "mutex_close q = q\<lparr>mq_closed := True\<rparr>"

definition mutex_size :: "'a mutex_queue \<Rightarrow> u64" where
  "mutex_size q = of_nat (length (mq_items q))"

lemma mutex_push_is_mutation: "mutex_push item q = mutex_push_with_mutation item id q"
  by (simp add: mutex_push_def mutex_push_with_mutation_def)

section \<open>The queue contract\<close>

text \<open>A call that would sleep reports failure and leaves the queue alone.\<close>

definition try_push :: "'a \<Rightarrow> 'a mutex_queue \<Rightarrow> (bool \<times> 'a mutex_queue) cpp" where
  "try_push x q = Inr (case mutex_push x q of None \<Rightarrow> (False, q) | Some r \<Rightarrow> r)"

definition try_pop :: "'a mutex_queue \<Rightarrow> ('a option \<times> 'a mutex_queue) cpp" where
  "try_pop q = Inr (case mutex_pop q of None \<Rightarrow> (None, q) | Some r \<Rightarrow> r)"

definition mutex_open :: "'a mutex_queue \<Rightarrow> bool" where
  "mutex_open q \<longleftrightarrow> \<not> mq_closed q \<and> length (mq_items q) \<le> unat (mq_capacity q)"

interpretation monitor: bounded_queue try_push try_pop mq_items "\<lambda>q. unat (mq_capacity q)" mutex_open
  by unfold_locales
     (auto simp: try_push_def try_pop_def mutex_push_def mutex_pop_def mutex_open_def
       not_full_predicate_def not_empty_predicate_def)

section \<open>Threads\<close>

text \<open>
  What a thread is doing: nothing, running a call whose predicate it is about to test, asleep on a
  condition variable, or in \<open>close\<close> after the mutex was released, before the first or the second
  \<open>notify_all\<close>. The flag of a push tells \<open>push_with_mutation\<close> from \<open>push\<close>.
\<close>

datatype 'a thread =
    Outside
  | Push_Ready bool 'a
  | Push_Asleep bool 'a
  | Pop_Ready
  | Pop_Asleep
  | Close_Notify_Empty
  | Close_Notify_Full

fun wake :: "'a thread \<Rightarrow> 'a thread" where
  "wake (Push_Asleep m x) = Push_Ready m x"
| "wake Pop_Asleep = Pop_Ready"
| "wake th = th"

fun on_not_full :: "'a thread \<Rightarrow> bool" where
  "on_not_full (Push_Asleep m x) = True"
| "on_not_full _ = False"

fun on_not_empty :: "'a thread \<Rightarrow> bool" where
  "on_not_empty Pop_Asleep = True"
| "on_not_empty _ = False"

text \<open>\<open>notify_one\<close> wakes one sleeper, any one, if there is one; \<open>notify_all\<close> wakes them all.\<close>

definition notify_one ::
  "('a thread \<Rightarrow> bool) \<Rightarrow> (nat \<Rightarrow> 'a thread) \<Rightarrow> (nat \<Rightarrow> 'a thread) \<Rightarrow> bool" where
  "notify_one on ths ths' \<longleftrightarrow>
     (\<exists>u. on (ths u) \<and> ths' = ths(u := wake (ths u))) \<or> (\<forall>u. \<not> on (ths u)) \<and> ths' = ths"

definition notify_all :: "('a thread \<Rightarrow> bool) \<Rightarrow> (nat \<Rightarrow> 'a thread) \<Rightarrow> nat \<Rightarrow> 'a thread" where
  "notify_all on ths = (\<lambda>u. if on (ths u) then wake (ths u) else ths u)"

record 'a monitor_state =
  the_queue :: "'a mutex_queue"
  threads :: "nat \<Rightarrow> 'a thread"
  accepted :: "'a list"
  delivered :: "'a list"

definition monitor_new :: "u64 \<Rightarrow> 'a monitor_state" where
  "monitor_new capacity =
     \<lparr>the_queue = mutex_queue_new capacity, threads = (\<lambda>_. Outside), accepted = [], delivered = []\<rparr>"

datatype 'a monitor_event =
    Internal
  | Starts_Push nat bool 'a
  | Ends_Push nat bool
  | Starts_Pop nat
  | Ends_Pop nat "'a option"
  | Starts_Close nat
  | Ends_Close nat

text \<open>
  \<open>mutates x x'\<close> holds of the values \<open>x'\<close> the mutator can leave when it is run on \<open>x\<close> (in the
  benchmark it writes the current time into a field).
\<close>

inductive monitor_step ::
  "('a \<Rightarrow> 'a \<Rightarrow> bool) \<Rightarrow> 'a monitor_state \<Rightarrow> 'a monitor_event \<Rightarrow> 'a monitor_state \<Rightarrow> bool"
  for mutates where
  start_push:
    "threads s t = Outside \<Longrightarrow>
     monitor_step mutates s (Starts_Push t m x) (s\<lparr>threads := (threads s)(t := Push_Ready m x)\<rparr>)"
| push_sleeps:
    "threads s t = Push_Ready m x \<Longrightarrow> mutex_push x (the_queue s) = None \<Longrightarrow>
     monitor_step mutates s Internal (s\<lparr>threads := (threads s)(t := Push_Asleep m x)\<rparr>)"
| push_closed:
    "threads s t = Push_Ready m x \<Longrightarrow> mutex_push x (the_queue s) = Some (False, q) \<Longrightarrow>
     monitor_step mutates s (Ends_Push t False)
       (s\<lparr>the_queue := q, threads := (threads s)(t := Outside)\<rparr>)"
| push_queues:
    "threads s t = Push_Ready m x \<Longrightarrow> (if m then mutates x x' else x' = x) \<Longrightarrow>
     mutex_push_with_mutation x (\<lambda>_. x') (the_queue s) = Some (True, q) \<Longrightarrow>
     notify_one on_not_empty ((threads s)(t := Outside)) ths \<Longrightarrow>
     monitor_step mutates s (Ends_Push t True)
       (s\<lparr>the_queue := q, threads := ths, accepted := accepted s @ [x']\<rparr>)"
| start_pop:
    "threads s t = Outside \<Longrightarrow>
     monitor_step mutates s (Starts_Pop t) (s\<lparr>threads := (threads s)(t := Pop_Ready)\<rparr>)"
| pop_sleeps:
    "threads s t = Pop_Ready \<Longrightarrow> mutex_pop (the_queue s) = None \<Longrightarrow>
     monitor_step mutates s Internal (s\<lparr>threads := (threads s)(t := Pop_Asleep)\<rparr>)"
| pop_drained:
    "threads s t = Pop_Ready \<Longrightarrow> mutex_pop (the_queue s) = Some (None, q) \<Longrightarrow>
     monitor_step mutates s (Ends_Pop t None)
       (s\<lparr>the_queue := q, threads := (threads s)(t := Outside)\<rparr>)"
| pop_takes:
    "threads s t = Pop_Ready \<Longrightarrow> mutex_pop (the_queue s) = Some (Some x, q) \<Longrightarrow>
     notify_one on_not_full ((threads s)(t := Outside)) ths \<Longrightarrow>
     monitor_step mutates s (Ends_Pop t (Some x))
       (s\<lparr>the_queue := q, threads := ths, delivered := delivered s @ [x]\<rparr>)"
| start_close:
    "threads s t = Outside \<Longrightarrow>
     monitor_step mutates s (Starts_Close t)
       (s\<lparr>the_queue := mutex_close (the_queue s),
          threads := (threads s)(t := Close_Notify_Empty)\<rparr>)"
| close_notify_empty:
    "threads s t = Close_Notify_Empty \<Longrightarrow>
     monitor_step mutates s Internal
       (s\<lparr>threads := (notify_all on_not_empty (threads s))(t := Close_Notify_Full)\<rparr>)"
| close_notify_full:
    "threads s t = Close_Notify_Full \<Longrightarrow>
     monitor_step mutates s (Ends_Close t)
       (s\<lparr>threads := (notify_all on_not_full (threads s))(t := Outside)\<rparr>)"
| spurious:
    "monitor_step mutates s Internal (s\<lparr>threads := (threads s)(t := wake (threads s t))\<rparr>)"

inductive monitor_reachable :: "('a \<Rightarrow> 'a \<Rightarrow> bool) \<Rightarrow> u64 \<Rightarrow> 'a monitor_state \<Rightarrow> bool"
  for mutates capacity where
  start: "monitor_reachable mutates capacity (monitor_new capacity)"
| step: "monitor_reachable mutates capacity s \<Longrightarrow> monitor_step mutates s e s' \<Longrightarrow>
    monitor_reachable mutates capacity s'"

inductive_cases monitor_stepE: "monitor_step mutates s e s'"

section \<open>First in, first out, within the bound\<close>

definition queue_inv :: "u64 \<Rightarrow> 'a monitor_state \<Rightarrow> bool" where
  "queue_inv capacity s \<longleftrightarrow> mq_capacity (the_queue s) = capacity \<and>
     length (mq_items (the_queue s)) \<le> unat capacity \<and>
     accepted s = delivered s @ mq_items (the_queue s)"

lemma monitor_step_queue_inv: "monitor_step mutates s e s' \<Longrightarrow> queue_inv capacity s \<Longrightarrow> queue_inv capacity s'"
  by (induction rule: monitor_step.induct)
     (auto simp: queue_inv_def mutex_push_def mutex_push_with_mutation_def mutex_pop_def mutex_close_def
       not_full_predicate_def Let_def neq_Nil_conv split: if_splits)

lemma monitor_new_queue_inv: "queue_inv capacity (monitor_new capacity)"
  by (simp add: monitor_new_def mutex_queue_new_def queue_inv_def)

lemma monitor_reachable_queue_inv: "monitor_reachable mutates capacity s \<Longrightarrow> queue_inv capacity s"
  by (induction rule: monitor_reachable.induct)
     (blast intro: monitor_new_queue_inv monitor_step_queue_inv)+

section \<open>No lost wake-up\<close>

fun push_runs :: "'a thread \<Rightarrow> bool" where
  "push_runs (Push_Ready m x) = True"
| "push_runs _ = False"

fun pop_runs :: "'a thread \<Rightarrow> bool" where
  "pop_runs Pop_Ready = True"
| "pop_runs _ = False"

definition thread_count :: "('a thread \<Rightarrow> bool) \<Rightarrow> (nat \<Rightarrow> 'a thread) \<Rightarrow> nat" where
  "thread_count P ths = card {t. P (ths t)}"

fun closes_empty :: "'a thread \<Rightarrow> bool" where
  "closes_empty Close_Notify_Empty = True"
| "closes_empty _ = False"

fun closes :: "'a thread \<Rightarrow> bool" where
  "closes Close_Notify_Empty = True"
| "closes Close_Notify_Full = True"
| "closes _ = False"

definition some_thread :: "('a thread \<Rightarrow> bool) \<Rightarrow> (nat \<Rightarrow> 'a thread) \<Rightarrow> bool" where
  "some_thread P ths \<longleftrightarrow> (\<exists>t. P (ths t))"

text \<open>
  The invariant: while the queue is open, sleeping consumers imply that every queued item has a
  consumer already on its way, and sleeping producers that every free slot has a producer on its
  way; once it is closed, a sleeper implies that a notification of \<open>close\<close> is still to come.
\<close>

definition threads_inv :: "bool \<Rightarrow> nat \<Rightarrow> nat \<Rightarrow> (nat \<Rightarrow> 'a thread) \<Rightarrow> bool" where
  "threads_inv closed capacity n ths \<longleftrightarrow> finite {t. ths t \<noteq> Outside} \<and>
     (some_thread on_not_empty ths \<longrightarrow>
        (if closed then some_thread closes_empty ths else n \<le> thread_count pop_runs ths)) \<and>
     (some_thread on_not_full ths \<longrightarrow>
        (if closed then some_thread closes ths else capacity \<le> n + thread_count push_runs ths))"

definition wakeup_inv :: "'a monitor_state \<Rightarrow> bool" where
  "wakeup_inv s \<longleftrightarrow> threads_inv (mq_closed (the_queue s)) (unat (mq_capacity (the_queue s)))
     (length (mq_items (the_queue s))) (threads s)"

lemma finite_running:
  "finite {t. ths t \<noteq> Outside} \<Longrightarrow> \<not> P Outside \<Longrightarrow> finite {t. P (ths t)}"
  by (erule rev_finite_subset) auto

lemma finite_upd: "finite {u. ths u \<noteq> Outside} \<Longrightarrow> finite {u. (ths(t := th)) u \<noteq> Outside}"
  by (rule finite_subset [of _ "insert t {u. ths u \<noteq> Outside}"]) auto

lemma thread_count_upd:
  assumes "finite {u. ths u \<noteq> Outside}" and "\<not> P Outside"
  shows "thread_count P (ths(t := th)) + of_bool (P (ths t)) = thread_count P ths + of_bool (P th)"
proof -
  let ?R = "{u. P (ths u)}"
  have fin: "finite ?R" using assms by (rule finite_running)
  have "{u. P ((ths(t := th)) u)} = (if P th then insert t (?R - {t}) else ?R - {t})" by auto
  moreover have "card (insert t (?R - {t})) = Suc (card (?R - {t}))"
    using fin by (intro card_insert_disjoint) simp_all
  ultimately have "thread_count P (ths(t := th)) = of_bool (P th) + card (?R - {t})"
    unfolding thread_count_def by (simp del: insert_Diff_single)
  moreover have "card (?R - {t}) + of_bool (P (ths t)) = card ?R"
    using card_Suc_Diff1 [OF fin, of t] by (cases "P (ths t)") simp_all
  ultimately show ?thesis by (simp add: thread_count_def)
qed

lemmas runner_counts = thread_count_upd [where P = pop_runs] thread_count_upd [where P = push_runs]

text \<open>What a notification changes.\<close>

lemma notify_one_cases:
  assumes "notify_one on ths ths'"
  obtains (none) "\<And>u. \<not> on (ths u)" and "ths' = ths"
    | (woken) u where "on (ths u)" and "ths' = ths(u := wake (ths u))"
  using assms by (auto simp: notify_one_def)

lemma some_updD: "some_thread P (ths(t := th)) \<Longrightarrow> \<not> P th \<Longrightarrow> some_thread P ths"
  by (auto simp: some_thread_def split: if_splits)

lemma some_updI: "some_thread P ths \<Longrightarrow> \<not> P (ths t) \<Longrightarrow> some_thread P (ths(t := th))"
  unfolding some_thread_def by (metis fun_upd_apply)

lemma some_updI': "P th \<Longrightarrow> some_thread P (ths(t := th))"
  unfolding some_thread_def by (metis fun_upd_apply)

lemma no_sleeper_upd: "\<not> some_thread P ths \<Longrightarrow> \<not> P th \<Longrightarrow> \<not> some_thread P (ths(t := th))"
  using some_updD by blast

text \<open>A thread that was counted on by nobody and does not fall asleep keeps the invariant.\<close>

lemma threads_inv_upd:
  assumes "threads_inv c k n ths"
    and "\<not> pop_runs (ths t)" and "\<not> push_runs (ths t)" and "\<not> closes (ths t)"
    and "\<not> on_not_empty th" and "\<not> on_not_full th"
  shows "threads_inv c k n (ths(t := th))"
proof -
  have fin: "finite {u. ths u \<noteq> Outside}" using assms(1) by (simp add: threads_inv_def)
  have "\<not> closes_empty (ths t)" using assms(4) by (cases "ths t") simp_all
  with assms runner_counts [OF fin, of t th] finite_upd [OF fin, of t th]
    some_updD [of on_not_empty ths t th] some_updD [of on_not_full ths t th]
    some_updI [of closes_empty ths t th] some_updI [of closes ths t th]
  show ?thesis unfolding threads_inv_def by (auto split: if_splits)
qed

text \<open>A runner whose predicate is false may sleep, and on a closed queue a runner may return.\<close>

lemma threads_inv_pop_sleeps:
  assumes "threads_inv False k 0 ths" and "ths t = Pop_Ready"
  shows "threads_inv False k 0 (ths(t := Pop_Asleep))"
proof -
  have fin: "finite {u. ths u \<noteq> Outside}" using assms(1) by (simp add: threads_inv_def)
  with assms runner_counts [OF fin, of t Pop_Asleep] finite_upd [OF fin, of t Pop_Asleep]
    some_updD [of on_not_full ths t Pop_Asleep]
  show ?thesis unfolding threads_inv_def by simp
qed

lemma threads_inv_push_sleeps:
  assumes "threads_inv False k n ths" and "ths t = Push_Ready m x" and "k \<le> n"
  shows "threads_inv False k n (ths(t := Push_Asleep m x))"
proof -
  have fin: "finite {u. ths u \<noteq> Outside}" using assms(1) by (simp add: threads_inv_def)
  with assms runner_counts [OF fin, of t "Push_Asleep m x"] finite_upd [OF fin, of t "Push_Asleep m x"]
    some_updD [of on_not_empty ths t "Push_Asleep m x"]
  show ?thesis unfolding threads_inv_def by simp
qed

lemma threads_inv_returns:
  assumes "threads_inv True k n ths" and "\<not> closes (ths t)"
  shows "threads_inv True k n (ths(t := Outside))"
proof -
  have fin: "finite {u. ths u \<noteq> Outside}" using assms(1) by (simp add: threads_inv_def)
  have "\<not> closes_empty (ths t)" using assms(2) by (cases "ths t") simp_all
  with assms finite_upd [OF fin, of t Outside]
    some_updD [of on_not_empty ths t Outside] some_updD [of on_not_full ths t Outside]
    some_updI [of closes_empty ths t Outside] some_updI [of closes ths t Outside]
  show ?thesis unfolding threads_inv_def by auto
qed

lemma notify_one_not_empty:
  assumes "notify_one on_not_empty ths ths'" and fin: "finite {t. ths t \<noteq> Outside}"
  shows "finite {t. ths' t \<noteq> Outside}"
    and "some_thread on_not_empty ths' \<Longrightarrow> some_thread on_not_empty ths"
    and "some_thread on_not_empty ths' \<Longrightarrow> thread_count pop_runs ths' = Suc (thread_count pop_runs ths)"
    and "some_thread on_not_full ths' = some_thread on_not_full ths"
    and "thread_count push_runs ths' = thread_count push_runs ths"
proof -
  have asleep: "th = Pop_Asleep" if "on_not_empty th" for th :: "'a thread"
    using that by (cases th) simp_all
  have "finite {t. ths' t \<noteq> Outside} \<and>
     (some_thread on_not_empty ths' \<longrightarrow> some_thread on_not_empty ths \<and>
        thread_count pop_runs ths' = Suc (thread_count pop_runs ths)) \<and>
     some_thread on_not_full ths' = some_thread on_not_full ths \<and>
     thread_count push_runs ths' = thread_count push_runs ths"
    using assms(1)
  proof (cases rule: notify_one_cases)
    case none
    with fin show ?thesis by (simp add: some_thread_def)
  next
    case (woken u)
    then have u: "ths u = Pop_Asleep" "ths' = ths(u := Pop_Ready)"
      using asleep [OF woken(1)] by simp_all
    have "some_thread on_not_full ths' = some_thread on_not_full ths"
      unfolding u(2) some_thread_def by (metis fun_upd_apply on_not_full.simps(4,5) u(1))
    then show ?thesis
      using runner_counts [OF fin, of u Pop_Ready] woken(1) u(1) finite_upd [OF fin, of u Pop_Ready]
      by (auto simp: u(2) some_thread_def)
  qed
  then show "finite {t. ths' t \<noteq> Outside}"
    and "some_thread on_not_empty ths' \<Longrightarrow> some_thread on_not_empty ths"
    and "some_thread on_not_empty ths' \<Longrightarrow> thread_count pop_runs ths' = Suc (thread_count pop_runs ths)"
    and "some_thread on_not_full ths' = some_thread on_not_full ths"
    and "thread_count push_runs ths' = thread_count push_runs ths"
    by blast+
qed

lemma notify_one_not_full:
  assumes "notify_one on_not_full ths ths'" and fin: "finite {t. ths t \<noteq> Outside}"
  shows "finite {t. ths' t \<noteq> Outside}"
    and "some_thread on_not_full ths' \<Longrightarrow> some_thread on_not_full ths"
    and "some_thread on_not_full ths' \<Longrightarrow> thread_count push_runs ths' = Suc (thread_count push_runs ths)"
    and "some_thread on_not_empty ths' = some_thread on_not_empty ths"
    and "thread_count pop_runs ths' = thread_count pop_runs ths"
proof -
  have asleep: "\<exists>m x. th = Push_Asleep m x" if "on_not_full th" for th :: "'a thread"
    using that by (cases th) simp_all
  have "finite {t. ths' t \<noteq> Outside} \<and>
     (some_thread on_not_full ths' \<longrightarrow> some_thread on_not_full ths \<and>
        thread_count push_runs ths' = Suc (thread_count push_runs ths)) \<and>
     some_thread on_not_empty ths' = some_thread on_not_empty ths \<and>
     thread_count pop_runs ths' = thread_count pop_runs ths"
    using assms(1)
  proof (cases rule: notify_one_cases)
    case none
    with fin show ?thesis by (simp add: some_thread_def)
  next
    case (woken u)
    then obtain m x where u: "ths u = Push_Asleep m x" "ths' = ths(u := Push_Ready m x)"
      using asleep by fastforce
    have "some_thread on_not_empty ths' = some_thread on_not_empty ths"
      unfolding u(2) some_thread_def by (metis fun_upd_apply on_not_empty.simps(3,4) u(1))
    then show ?thesis
      using runner_counts [OF fin, of u "Push_Ready m x"] woken(1) u(1)
        finite_upd [OF fin, of u "Push_Ready m x"]
      by (auto simp: u(2) some_thread_def)
  qed
  then show "finite {t. ths' t \<noteq> Outside}"
    and "some_thread on_not_full ths' \<Longrightarrow> some_thread on_not_full ths"
    and "some_thread on_not_full ths' \<Longrightarrow> thread_count push_runs ths' = Suc (thread_count push_runs ths)"
    and "some_thread on_not_empty ths' = some_thread on_not_empty ths"
    and "thread_count pop_runs ths' = thread_count pop_runs ths"
    by blast+
qed

lemma notify_one_closers:
  assumes "notify_one on ths ths'" and "\<And>th. on th \<Longrightarrow> on_not_empty th \<or> on_not_full th"
  shows "some_thread closes ths \<Longrightarrow> some_thread closes ths'"
    and "some_thread closes_empty ths \<Longrightarrow> some_thread closes_empty ths'"
proof -
  have asleep: "\<not> closes (ths u)" "\<not> closes_empty (ths u)" if "on (ths u)" for u
    using assms(2) [OF that] by (cases "ths u"; simp)+
  show "some_thread closes ths \<Longrightarrow> some_thread closes ths'"
    and "some_thread closes_empty ths \<Longrightarrow> some_thread closes_empty ths'"
    using assms(1) by (auto simp: notify_one_def intro: some_updI dest: asleep)
qed

lemma notify_all_facts:
  shows "(notify_all on ths u \<noteq> Outside) = (ths u \<noteq> Outside)"
    and "\<not> some_thread on_not_empty (notify_all on_not_empty ths)"
    and "\<not> some_thread on_not_full (notify_all on_not_full ths)"
    and "some_thread on_not_full (notify_all on_not_empty ths) = some_thread on_not_full ths"
    and "some_thread on_not_empty (notify_all on_not_full ths) = some_thread on_not_empty ths"
    and "thread_count push_runs (notify_all on_not_empty ths) = thread_count push_runs ths"
    and "thread_count pop_runs (notify_all on_not_full ths) = thread_count pop_runs ths"
    and "some_thread closes_empty (notify_all on ths) = some_thread closes_empty ths"
proof -
  have w: "(wake th = Outside) = (th = Outside)" "closes_empty (wake th) = closes_empty th"
    for th :: "'a thread"
    by (cases th; simp)+
  have e: "on_not_full (if on_not_empty th then wake th else th) = on_not_full th"
      "push_runs (if on_not_empty th then wake th else th) = push_runs th"
      "\<not> on_not_empty (if on_not_empty th then wake th else th)" for th :: "'a thread"
    by (cases th; simp)+
  have f: "on_not_empty (if on_not_full th then wake th else th) = on_not_empty th"
      "pop_runs (if on_not_full th then wake th else th) = pop_runs th"
      "\<not> on_not_full (if on_not_full th then wake th else th)" for th :: "'a thread"
    by (cases th; simp)+
  show "(notify_all on ths u \<noteq> Outside) = (ths u \<noteq> Outside)" by (simp add: notify_all_def w)
  show "some_thread closes_empty (notify_all on ths) = some_thread closes_empty ths"
    by (simp add: some_thread_def notify_all_def w if_distrib [of closes_empty])
  show "\<not> some_thread on_not_empty (notify_all on_not_empty ths)"
    and "\<not> some_thread on_not_full (notify_all on_not_full ths)"
    and "some_thread on_not_full (notify_all on_not_empty ths) = some_thread on_not_full ths"
    and "some_thread on_not_empty (notify_all on_not_full ths) = some_thread on_not_empty ths"
    and "thread_count push_runs (notify_all on_not_empty ths) = thread_count push_runs ths"
    and "thread_count pop_runs (notify_all on_not_full ths) = thread_count pop_runs ths"
    by (simp_all only: some_thread_def thread_count_def notify_all_def e f simp_thms)
qed

lemma threads_inv_queued:
  assumes inv: "threads_inv False k n ths" and t: "ths t = Push_Ready m x"
    and n: "notify_one on_not_empty (ths(t := Outside)) ths'"
  shows "threads_inv False k (Suc n) ths'"
proof -
  have fin: "finite {u. ths u \<noteq> Outside}" using inv by (simp add: threads_inv_def)
  define g where "g = ths(t := Outside)"
  note woken = notify_one_not_empty [OF n finite_upd [OF fin], folded g_def]
    and upd = runner_counts [OF fin, of t Outside, folded g_def]
      some_updD [of on_not_empty ths t Outside, folded g_def]
      some_updD [of on_not_full ths t Outside, folded g_def]
  show ?thesis using inv t woken upd unfolding threads_inv_def by auto
qed

lemma threads_inv_taken:
  assumes inv: "threads_inv c k (Suc n) ths" and t: "ths t = Pop_Ready"
    and n: "notify_one on_not_full (ths(t := Outside)) ths'"
  shows "threads_inv c k n ths'"
proof -
  have fin: "finite {u. ths u \<noteq> Outside}" using inv by (simp add: threads_inv_def)
  define g where "g = ths(t := Outside)"
  note woken = notify_one_not_full [OF n finite_upd [OF fin], folded g_def]
      notify_one_closers [OF n, folded g_def]
    and upd = runner_counts [OF fin, of t Outside, folded g_def]
      some_updD [of on_not_empty ths t Outside, folded g_def]
      some_updD [of on_not_full ths t Outside, folded g_def]
      some_updI [of closes_empty ths t Outside, folded g_def]
      some_updI [of closes ths t Outside, folded g_def]
  show ?thesis using inv t woken upd unfolding threads_inv_def by (cases c) auto
qed

lemma threads_inv_notify_empty:
  assumes inv: "threads_inv c k n ths" and t: "ths t = Close_Notify_Empty"
  shows "threads_inv c k n ((notify_all on_not_empty ths)(t := Close_Notify_Full))"
proof -
  let ?ths = "notify_all on_not_empty ths"
  have fin: "finite {u. ?ths u \<noteq> Outside}" using inv by (simp add: threads_inv_def notify_all_facts)
  have "\<not> push_runs (?ths t)" using t by (simp add: notify_all_def)
  with inv notify_all_facts(2,4,6) [of ths] finite_upd [OF fin, of t Close_Notify_Full]
    runner_counts(2) [OF fin, of t Close_Notify_Full]
    some_updD [of on_not_empty ?ths t Close_Notify_Full]
    some_updD [of on_not_full ?ths t Close_Notify_Full]
    some_updI' [of closes Close_Notify_Full ?ths t]
  show ?thesis unfolding threads_inv_def by auto
qed

lemma threads_inv_notify_full:
  assumes inv: "threads_inv c k n ths" and t: "ths t = Close_Notify_Full"
  shows "threads_inv c k n ((notify_all on_not_full ths)(t := Outside))"
proof -
  let ?ths = "notify_all on_not_full ths"
  have fin: "finite {u. ?ths u \<noteq> Outside}" using inv by (simp add: threads_inv_def notify_all_facts)
  have "\<not> pop_runs (?ths t)" "\<not> closes_empty (?ths t)" using t by (simp_all add: notify_all_def)
  with inv notify_all_facts(3,5,7) [of ths] notify_all_facts(8) [of on_not_full ths]
    finite_upd [OF fin, of t Outside] runner_counts(1) [OF fin, of t Outside]
    some_updD [of on_not_empty ?ths t Outside] some_updD [of on_not_full ?ths t Outside]
    some_updI [of closes_empty ?ths t Outside]
  show ?thesis unfolding threads_inv_def by auto
qed

lemma threads_inv_close:
  assumes inv: "threads_inv c k n ths" and t: "ths t = Outside"
  shows "threads_inv True k n (ths(t := Close_Notify_Empty))"
  using assms finite_upd [of ths t Close_Notify_Empty]
    some_updI' [of closes_empty Close_Notify_Empty ths t]
    some_updI' [of closes Close_Notify_Empty ths t]
  unfolding threads_inv_def by simp

lemma monitor_step_wakeup_inv: "monitor_step mutates s e s' \<Longrightarrow> wakeup_inv s \<Longrightarrow> wakeup_inv s'"
proof (induction rule: monitor_step.induct)
  case (spurious s t)
  show ?case
  proof (cases "wake (threads s t) = threads s t")
    case True
    with spurious show ?thesis by (simp add: wakeup_inv_def)
  next
    case False
    with spurious show ?thesis
      unfolding wakeup_inv_def by (cases "threads s t") (auto intro: threads_inv_upd)
  qed
next
  case (push_sleeps s t m x)
  then show ?case
    using threads_inv_push_sleeps [of _ _ "threads s" t m x]
    by (auto simp: wakeup_inv_def mutex_push_def not_full_predicate_def split: if_splits)
next
  case (push_closed s t m x q)
  then show ?case
    using threads_inv_returns [of _ _ "threads s" t]
    by (auto simp: wakeup_inv_def mutex_push_def split: if_splits)
next
  case (push_queues s t m x x' q ths)
  then show ?case
    using threads_inv_queued [of _ _ "threads s" t m x ths]
    by (auto simp: wakeup_inv_def mutex_push_with_mutation_def Let_def split: if_splits)
next
  case (pop_sleeps s t)
  then show ?case
    using threads_inv_pop_sleeps [of _ "threads s" t]
    by (auto simp: wakeup_inv_def mutex_pop_def not_empty_predicate_def split: if_splits)
next
  case (pop_drained s t q)
  then show ?case
    using threads_inv_returns [of _ _ "threads s" t]
    by (auto simp: wakeup_inv_def mutex_pop_def not_empty_predicate_def split: if_splits)
next
  case (pop_takes s t x q ths)
  then show ?case
    using threads_inv_taken [of _ _ "length (tl (mq_items (the_queue s)))" "threads s" t ths]
    by (auto simp: wakeup_inv_def mutex_pop_def split: if_splits)
next
  case (start_close s t)
  then show ?case using threads_inv_close [of _ _ _ "threads s" t]
    by (simp add: wakeup_inv_def mutex_close_def)
qed (auto simp: wakeup_inv_def intro: threads_inv_upd threads_inv_notify_empty threads_inv_notify_full)

lemma monitor_reachable_wakeup_inv: "monitor_reachable mutates capacity s \<Longrightarrow> wakeup_inv s"
proof (induction rule: monitor_reachable.induct)
  case start
  show ?case by (simp add: wakeup_inv_def threads_inv_def monitor_new_def some_thread_def)
qed (rule monitor_step_wakeup_inv)

lemma runner_exists: "0 < thread_count P ths \<Longrightarrow> \<exists>t. P (ths t)"
  by (auto simp: thread_count_def card_gt_0_iff)

lemma sleeping_pop:
  assumes "wakeup_inv s" and "threads s t = Pop_Asleep" and "not_empty_predicate (the_queue s)"
  shows "\<exists>u. threads s u = Pop_Ready \<or> threads s u = Close_Notify_Empty"
proof -
  have "some_thread on_not_empty (threads s)" using assms(2) by (auto simp: some_thread_def intro: exI [of _ t])
  with assms(1) have "if mq_closed (the_queue s) then some_thread closes_empty (threads s)
      else length (mq_items (the_queue s)) \<le> thread_count pop_runs (threads s)"
    by (simp add: wakeup_inv_def threads_inv_def)
  with assms(3) have "some_thread closes_empty (threads s) \<or> 0 < thread_count pop_runs (threads s)"
    by (auto simp: not_empty_predicate_def split: if_splits)
  then obtain u where "closes_empty (threads s u) \<or> pop_runs (threads s u)"
    using runner_exists by (auto simp: some_thread_def)
  then show ?thesis by (intro exI [of _ u], cases "threads s u") simp_all
qed

lemma sleeping_push:
  assumes "wakeup_inv s" and "threads s t = Push_Asleep m x" and "not_full_predicate (the_queue s)"
  shows "\<exists>u. (\<exists>m x. threads s u = Push_Ready m x) \<or> threads s u = Close_Notify_Empty \<or>
     threads s u = Close_Notify_Full"
proof -
  have "some_thread on_not_full (threads s)" using assms(2) by (auto simp: some_thread_def intro: exI [of _ t])
  with assms(1) have "if mq_closed (the_queue s) then some_thread closes (threads s)
      else unat (mq_capacity (the_queue s)) \<le>
        length (mq_items (the_queue s)) + thread_count push_runs (threads s)"
    by (simp add: wakeup_inv_def threads_inv_def)
  with assms(3) have "some_thread closes (threads s) \<or> 0 < thread_count push_runs (threads s)"
    by (auto simp: not_full_predicate_def split: if_splits)
  then obtain u where "closes (threads s u) \<or> push_runs (threads s u)"
    using runner_exists by (auto simp: some_thread_def)
  then show ?thesis by (intro exI [of _ u], cases "threads s u") simp_all
qed

lemma monitor_step_closed:
  "monitor_step mutates s e s' \<Longrightarrow> mq_closed (the_queue s) \<Longrightarrow>
   mq_closed (the_queue s') \<and> accepted s' = accepted s"
  by (induction rule: monitor_step.induct)
     (auto simp: mutex_push_def mutex_push_with_mutation_def mutex_pop_def mutex_close_def
       Let_def split: if_splits)

lemma monitor_step_drained:
  "monitor_step mutates s e s' \<Longrightarrow> e = Ends_Pop t None \<Longrightarrow> queue_inv capacity s \<Longrightarrow>
   mq_closed (the_queue s') \<and> delivered s' = accepted s'"
  by (induction rule: monitor_step.induct)
     (auto simp: queue_inv_def mutex_pop_def not_empty_predicate_def split: if_splits)

section \<open>Properties\<close>

lemma sample_monitor:
  "monitor_reachable (=) 1 ((monitor_new 1)\<lparr>threads := (\<lambda>_. Outside)(0 := Pop_Asleep)\<rparr>)"
proof -
  let ?s0 = "monitor_new 1 :: 'a monitor_state"
  let ?s1 = "?s0\<lparr>threads := (threads ?s0)(0 := Pop_Ready)\<rparr>"
  have "monitor_step (=) ?s0 (Starts_Pop 0) ?s1" by (rule start_pop) (simp add: monitor_new_def)
  then have "monitor_reachable (=) 1 ?s1" by (rule monitor_reachable.step [OF monitor_reachable.start])
  moreover have "monitor_step (=) ?s1 Internal (?s1\<lparr>threads := (threads ?s1)(0 := Pop_Asleep)\<rparr>)"
    by (rule pop_sleeps)
       (simp_all add: monitor_new_def mutex_queue_new_def mutex_pop_def not_empty_predicate_def)
  ultimately have "monitor_reachable (=) 1 (?s1\<lparr>threads := (threads ?s1)(0 := Pop_Asleep)\<rparr>)"
    by (rule monitor_reachable.step)
  then show ?thesis by (simp add: monitor_new_def)
qed

text \<open>
  Property C18. With any number of threads, what \<open>pop\<close> delivered followed by what is queued is
  exactly what \<open>push\<close> accepted, in order, and never more than the capacity is queued.
\<close>

theorem mutex_queue_fifo:
  assumes "monitor_reachable mutates capacity s"
  shows "accepted s = delivered s @ mq_items (the_queue s) \<and>
     length (mq_items (the_queue s)) \<le> unat capacity"
  using monitor_reachable_queue_inv [OF assms] by (simp add: queue_inv_def)

theorem mutex_queue_fifo_witness:
  "accepted ((monitor_new 1 :: nat monitor_state)\<lparr>threads := (\<lambda>_. Outside)(0 := Pop_Asleep)\<rparr>) = []"
  using mutex_queue_fifo [OF sample_monitor] by (simp add: monitor_new_def mutex_queue_new_def)

text \<open>
  Property C17. No lost wake-up: whenever a thread sleeps in \<open>pop\<close> although the queue has an item
  or is closed, some consumer is already awake or \<open>close\<close> has still to notify; whenever a thread
  sleeps in \<open>push\<close> although there is room or the queue is closed, some producer is already awake or
  \<open>close\<close> has still to notify.
\<close>

theorem mutex_queue_no_lost_wakeup:
  assumes "monitor_reachable mutates capacity s"
  shows "(threads s t = Pop_Asleep \<and> not_empty_predicate (the_queue s) \<longrightarrow>
       (\<exists>u. threads s u = Pop_Ready \<or> threads s u = Close_Notify_Empty)) \<and>
     (threads s t = Push_Asleep m x \<and> not_full_predicate (the_queue s) \<longrightarrow>
       (\<exists>u. (\<exists>m x. threads s u = Push_Ready m x) \<or> threads s u = Close_Notify_Empty \<or>
          threads s u = Close_Notify_Full))"
  using sleeping_pop [OF monitor_reachable_wakeup_inv [OF assms]]
    sleeping_push [OF monitor_reachable_wakeup_inv [OF assms]] by blast

theorem mutex_queue_no_lost_wakeup_witness:
  "\<exists>s :: nat monitor_state. monitor_reachable (=) 1 s \<and> threads s 0 = Pop_Asleep \<and>
     not_empty_predicate (the_queue s) \<and> (\<exists>u. threads s u = Pop_Ready \<or> threads s u = Close_Notify_Empty)"
proof -
  let ?s = "(monitor_new 1 :: nat monitor_state)\<lparr>threads := (\<lambda>_. Outside)(0 := Pop_Asleep)\<rparr>"
  let ?s' = "?s\<lparr>the_queue := mutex_close (the_queue ?s),
      threads := (threads ?s)(1 := Close_Notify_Empty)\<rparr>"
  have "monitor_step (=) ?s (Starts_Close 1) ?s'" by (rule start_close) simp
  then have reach: "monitor_reachable (=) 1 ?s'"
    by (rule monitor_reachable.step [OF sample_monitor])
  have pre: "threads ?s' 0 = Pop_Asleep" "not_empty_predicate (the_queue ?s')"
    by (simp_all add: mutex_close_def not_empty_predicate_def)
  with mutex_queue_no_lost_wakeup [OF reach, of 0] have
    "\<exists>u. threads ?s' u = Pop_Ready \<or> threads ?s' u = Close_Notify_Empty" by blast
  with reach pre show ?thesis by blast
qed

text \<open>
  Property C20. Deadlock: if no thread can run, every sleeping consumer waits for an item of an open
  and empty queue and every sleeping producer for room in an open and full one, so producers and
  consumers can only be asleep together when the capacity is 0.
\<close>

theorem mutex_queue_deadlock:
  assumes "monitor_reachable mutates capacity s"
    and "\<And>u. threads s u = Outside \<or> on_not_empty (threads s u) \<or> on_not_full (threads s u)"
    and "threads s t1 = Pop_Asleep" and "threads s t2 = Push_Asleep m x"
  shows "\<not> mq_closed (the_queue s) \<and> mq_items (the_queue s) = [] \<and> capacity = 0"
proof -
  have idle: "threads s u \<noteq> Pop_Ready \<and> threads s u \<noteq> Close_Notify_Empty \<and>
      threads s u \<noteq> Close_Notify_Full \<and> threads s u \<noteq> Push_Ready m x" for u m x
    using assms(2) [of u] by (cases "threads s u") simp_all
  have "\<not> not_empty_predicate (the_queue s)" "\<not> not_full_predicate (the_queue s)"
    using sleeping_pop [OF monitor_reachable_wakeup_inv [OF assms(1)] assms(3)]
      sleeping_push [OF monitor_reachable_wakeup_inv [OF assms(1)] assms(4)] idle by blast+
  with monitor_reachable_queue_inv [OF assms(1)] show ?thesis
    by (simp add: not_empty_predicate_def not_full_predicate_def queue_inv_def unat_eq_zero)
qed

theorem mutex_queue_deadlock_witness:
  "\<exists>s :: nat monitor_state. monitor_reachable (=) 0 s \<and> threads s 0 = Pop_Asleep \<and>
     threads s 1 = Push_Asleep False 7 \<and> \<not> mq_closed (the_queue s) \<and> mq_items (the_queue s) = []"
proof -
  let ?upd = "\<lambda>ths. (monitor_new 0 :: nat monitor_state)\<lparr>threads := ths\<rparr>"
  let ?t1 = "(\<lambda>_. Outside)(0 := Pop_Ready)"
  let ?t2 = "?t1(0 := Pop_Asleep)"
  let ?t3 = "?t2(1 := Push_Ready False 7)"
  let ?t4 = "?t3(1 := Push_Asleep False 7)"
  note defs = monitor_new_def mutex_queue_new_def mutex_pop_def mutex_push_def
    not_empty_predicate_def not_full_predicate_def
  have "monitor_step (=) (monitor_new 0) (Starts_Pop 0) (?upd ?t1)"
    using start_pop [of "monitor_new 0 :: nat monitor_state" 0 "(=)"] by (simp add: defs)
  then have r1: "monitor_reachable (=) 0 (?upd ?t1)"
    by (rule monitor_reachable.step [OF monitor_reachable.start])
  have "monitor_step (=) (?upd ?t1) Internal (?upd ?t2)"
    using pop_sleeps [of "?upd ?t1" 0 "(=)"] by (simp add: defs)
  with r1 have r2: "monitor_reachable (=) 0 (?upd ?t2)" by (rule monitor_reachable.step)
  have "monitor_step (=) (?upd ?t2) (Starts_Push 1 False 7) (?upd ?t3)"
    using start_push [of "?upd ?t2" 1 "(=)" False 7] by (simp add: defs)
  with r2 have r3: "monitor_reachable (=) 0 (?upd ?t3)" by (rule monitor_reachable.step)
  have "monitor_step (=) (?upd ?t3) Internal (?upd ?t4)"
    using push_sleeps [of "?upd ?t3" 1 False 7 "(=)"] by (simp add: defs)
  with r3 have r4: "monitor_reachable (=) 0 (?upd ?t4)" by (rule monitor_reachable.step)
  have "threads (?upd ?t4) u = Outside \<or> on_not_empty (threads (?upd ?t4) u) \<or>
      on_not_full (threads (?upd ?t4) u)" for u by simp
  from mutex_queue_deadlock [OF r4 this, of 0 1 False 7] r4 show ?thesis
    by (intro exI [of _ "?upd ?t4"]) simp
qed

text \<open>
  Property C19. Closing drains: \<open>pop\<close> returns \<open>false\<close> only when the queue is closed and everything
  ever accepted has been delivered, and once it is closed nothing more is accepted.
\<close>

theorem mutex_queue_drains:
  assumes "monitor_reachable mutates capacity s" and "monitor_step mutates s e s'"
  shows "(e = Ends_Pop t None \<longrightarrow> mq_closed (the_queue s') \<and> delivered s' = accepted s') \<and>
     (mq_closed (the_queue s) \<longrightarrow> mq_closed (the_queue s') \<and> accepted s' = accepted s)"
  using monitor_step_closed [OF assms(2)] monitor_step_drained [OF assms(2)]
    monitor_reachable_queue_inv [OF assms(1)] by blast

theorem mutex_queue_drains_witness:
  "\<exists>s s' :: nat monitor_state. monitor_reachable (=) 1 s \<and> monitor_step (=) s (Ends_Pop 0 None) s' \<and>
     mq_closed (the_queue s') \<and> delivered s' = accepted s'"
proof -
  let ?s0 = "monitor_new 1 :: nat monitor_state"
  let ?s1 = "?s0\<lparr>the_queue := mutex_close (the_queue ?s0), threads := (threads ?s0)(1 := Close_Notify_Empty)\<rparr>"
  let ?s2 = "?s1\<lparr>threads := (threads ?s1)(0 := Pop_Ready)\<rparr>"
  let ?s3 = "?s2\<lparr>the_queue := the_queue ?s2, threads := (threads ?s2)(0 := Outside)\<rparr>"
  have "monitor_step (=) ?s0 (Starts_Close 1) ?s1" by (rule start_close) (simp add: monitor_new_def)
  with monitor_reachable.start have "monitor_reachable (=) 1 ?s1" by (rule monitor_reachable.step)
  moreover have "monitor_step (=) ?s1 (Starts_Pop 0) ?s2"
    by (rule start_pop) (simp add: monitor_new_def)
  ultimately have reach: "monitor_reachable (=) 1 ?s2" by (rule monitor_reachable.step)
  have last: "monitor_step (=) ?s2 (Ends_Pop 0 None) ?s3"
    by (rule pop_drained)
       (simp_all add: mutex_pop_def not_empty_predicate_def mutex_close_def monitor_new_def
         mutex_queue_new_def)
  from mutex_queue_drains [OF reach last, of 0] reach last show ?thesis by blast
qed

end
