(* ===== verification/Mutex_Pipeline.thy ===== *)
theory Mutex_Pipeline
  imports Mutex_Queue Spsc_Pipeline
begin

text \<open>
  The two-thread pipeline over the blocking queue, \<open>benchmark_producer_consumer.cpp\<close>: the producer
  (thread 0) pushes every message with \<open>push_with_mutation\<close>, which stamps the push time under the
  lock, and closes the queue; the consumer (thread 1) pops until \<open>pop\<close> returns \<open>false\<close>.
\<close>

section \<open>State and steps\<close>

datatype blocking_producer =
    Take_Message
  | Pushing envelope
  | Closing
  | Closed

datatype blocking_consumer =
    Call_Pop
  | Popping
  | Processing envelope
  | Drained

record 'b blocking_pipeline =
  bqueue :: "envelope monitor_state"
  btodo :: "market_message list"
  bproducer :: blocking_producer
  bconsumer :: blocking_consumer
  bbook :: 'b
  bqueue_wait :: latency_recorder
  bbook_time :: latency_recorder
  bpipeline_time :: latency_recorder
  bproduced :: u64
  bconsumed :: u64
  bproducer_cpu :: int
  bconsumer_cpu :: int
  bproducer_migrations :: u64
  bconsumer_migrations :: u64

definition blocking_new :: "u64 \<Rightarrow> market_message list \<Rightarrow> 'b \<Rightarrow> int \<Rightarrow> int \<Rightarrow> 'b blocking_pipeline" where
  "blocking_new capacity messages b first_producer_cpu first_consumer_cpu =
     \<lparr>bqueue = monitor_new capacity, btodo = messages, bproducer = Take_Message, bconsumer = Call_Pop,
      bbook = b, bqueue_wait = recorder_new, bbook_time = recorder_new, bpipeline_time = recorder_new,
      bproduced = 0, bconsumed = 0,
      bproducer_cpu = first_producer_cpu, bconsumer_cpu = first_consumer_cpu,
      bproducer_migrations = 0, bconsumer_migrations = 0\<rparr>"

text \<open>The lambda given to \<open>push_with_mutation\<close>.\<close>

definition stamps_push :: "envelope \<Rightarrow> envelope \<Rightarrow> bool" where
  "stamps_push env env' \<longleftrightarrow> (\<exists>now. env' = env\<lparr>env_push_ns := now\<rparr>)"

definition process_popped ::
  "('b \<Rightarrow> market_message \<Rightarrow> 'b cpp) \<Rightarrow> u64 \<Rightarrow> u64 \<Rightarrow> u64 \<Rightarrow> u64 \<Rightarrow> int \<Rightarrow> envelope \<Rightarrow>
   'b blocking_pipeline \<Rightarrow> 'b blocking_pipeline cpp" where
  "process_popped on_msg pop_ns book_start book_end end_ns cpu env s =
     cpp_map (\<lambda>b.
         s\<lparr>bqueue_wait := recorder_record (pop_ns - env_push_ns env) (bqueue_wait s),
           bbook := b,
           bbook_time := recorder_record (book_end - book_start) (bbook_time s),
           bpipeline_time := recorder_record (end_ns - env_producer_ns env) (bpipeline_time s),
           bconsumed := bconsumed s + 1,
           bconsumer_migrations := count_migration (bconsumer_cpu s) cpu (bconsumer_migrations s),
           bconsumer_cpu := cpu\<rparr>)
       (on_msg (bbook s) (env_message env))"

inductive blocking_step ::
  "('b \<Rightarrow> market_message \<Rightarrow> 'b cpp) \<Rightarrow> 'b blocking_pipeline \<Rightarrow> 'b blocking_pipeline \<Rightarrow> bool"
  for on_msg where
  b_push:
    "bproducer s = Take_Message \<Longrightarrow> btodo s = message # rest \<Longrightarrow>
     env = \<lparr>env_message = message, env_producer_ns = now, env_push_ns = 0\<rparr> \<Longrightarrow>
     monitor_step stamps_push (bqueue s) (Starts_Push 0 True env) q \<Longrightarrow>
     blocking_step on_msg s (s\<lparr>bqueue := q, bproducer := Pushing env\<rparr>)"
| b_pushed:
    "bproducer s = Pushing env \<Longrightarrow> monitor_step stamps_push (bqueue s) (Ends_Push 0 ok) q \<Longrightarrow>
     blocking_step on_msg s
       (s\<lparr>bqueue := q, bproducer := Take_Message, btodo := tl (btodo s), bproduced := bproduced s + 1,
          bproducer_migrations := count_migration (bproducer_cpu s) cpu (bproducer_migrations s),
          bproducer_cpu := cpu\<rparr>)"
| b_close:
    "bproducer s = Take_Message \<Longrightarrow> btodo s = [] \<Longrightarrow>
     monitor_step stamps_push (bqueue s) (Starts_Close 0) q \<Longrightarrow>
     blocking_step on_msg s (s\<lparr>bqueue := q, bproducer := Closing\<rparr>)"
| b_closed:
    "bproducer s = Closing \<Longrightarrow> monitor_step stamps_push (bqueue s) (Ends_Close 0) q \<Longrightarrow>
     blocking_step on_msg s (s\<lparr>bqueue := q, bproducer := Closed\<rparr>)"
| b_internal:
    "monitor_step stamps_push (bqueue s) Internal q \<Longrightarrow> blocking_step on_msg s (s\<lparr>bqueue := q\<rparr>)"
| b_pop:
    "bconsumer s = Call_Pop \<Longrightarrow> monitor_step stamps_push (bqueue s) (Starts_Pop 1) q \<Longrightarrow>
     blocking_step on_msg s (s\<lparr>bqueue := q, bconsumer := Popping\<rparr>)"
| b_popped:
    "bconsumer s = Popping \<Longrightarrow> monitor_step stamps_push (bqueue s) (Ends_Pop 1 (Some env)) q \<Longrightarrow>
     blocking_step on_msg s (s\<lparr>bqueue := q, bconsumer := Processing env\<rparr>)"
| b_drained:
    "bconsumer s = Popping \<Longrightarrow> monitor_step stamps_push (bqueue s) (Ends_Pop 1 None) q \<Longrightarrow>
     blocking_step on_msg s (s\<lparr>bqueue := q, bconsumer := Drained\<rparr>)"
| b_process:
    "bconsumer s = Processing env \<Longrightarrow>
     process_popped on_msg pop_ns book_start book_end end_ns cpu env s = Inr s' \<Longrightarrow>
     blocking_step on_msg s (s'\<lparr>bconsumer := Call_Pop\<rparr>)"

inductive blocking_reachable ::
  "('b \<Rightarrow> market_message \<Rightarrow> 'b cpp) \<Rightarrow> u64 \<Rightarrow> market_message list \<Rightarrow> 'b \<Rightarrow> 'b blocking_pipeline \<Rightarrow> bool"
  for on_msg capacity messages b where
  b_start: "blocking_reachable on_msg capacity messages b
    (blocking_new capacity messages b first_producer_cpu first_consumer_cpu)"
| b_step: "blocking_reachable on_msg capacity messages b s \<Longrightarrow> blocking_step on_msg s s' \<Longrightarrow>
    blocking_reachable on_msg capacity messages b s'"

definition producer_consumer_benchmark ::
  "(u64 \<Rightarrow> u64) \<Rightarrow> u64 \<Rightarrow> u64 \<Rightarrow> order_book blocking_pipeline \<Rightarrow> bool" where
  "producer_consumer_benchmark wall num_messages queue_capacity =
     blocking_reachable on_message queue_capacity
       (generated wall num_messages (map of_char ''AAPL'')) empty_book"

section \<open>What the events of the monitor do\<close>

fun push_item :: "'a thread \<Rightarrow> (bool \<times> 'a) option" where
  "push_item (Push_Ready m x) = Some (m, x)"
| "push_item (Push_Asleep m x) = Some (m, x)"
| "push_item _ = None"

lemma push_item_wake [simp]: "push_item (wake th) = push_item th"
  by (cases th) simp_all

lemma push_item_notify_one:
  "notify_one on ths ths' \<Longrightarrow> push_item (ths' u) = push_item (ths u)"
  by (auto simp: notify_one_def)

lemma push_item_notify_all [simp]: "push_item (notify_all on ths u) = push_item (ths u)"
  by (simp add: notify_all_def)

lemma monitor_step_history:
  assumes "monitor_step mutates s e s'"
  shows "delivered s' = (case e of Ends_Pop t (Some x) \<Rightarrow> delivered s @ [x] | _ \<Rightarrow> delivered s)"
    and "mq_closed (the_queue s') = (case e of Starts_Close t \<Rightarrow> True | _ \<Rightarrow> mq_closed (the_queue s))"
    and "push_item (threads s' u) =
      (case e of Starts_Push t m x \<Rightarrow> if u = t then Some (m, x) else push_item (threads s u)
       | Ends_Push t ok \<Rightarrow> if u = t then None else push_item (threads s u)
       | _ \<Rightarrow> push_item (threads s u))"
  using assms
  by (induction rule: monitor_step.induct)
     (auto simp: mutex_push_def mutex_push_with_mutation_def mutex_pop_def mutex_close_def Let_def
       push_item_notify_one split: if_splits)

lemma monitor_step_accepted:
  assumes "monitor_step mutates s e s'"
  shows "case e of
      Ends_Push t True \<Rightarrow> \<exists>m x x'. push_item (threads s t) = Some (m, x) \<and>
        (if m then mutates x x' else x' = x) \<and> accepted s' = accepted s @ [x'] \<and>
        \<not> mq_closed (the_queue s)
    | Ends_Push t False \<Rightarrow> accepted s' = accepted s \<and> mq_closed (the_queue s)
    | _ \<Rightarrow> accepted s' = accepted s"
  using assms
  by (induction rule: monitor_step.induct)
     (auto simp: mutex_push_def mutex_push_with_mutation_def Let_def split: if_splits)

section \<open>Invariant\<close>

definition blocking_producer_inv :: "market_message list \<Rightarrow> 'b blocking_pipeline \<Rightarrow> bool" where
  "blocking_producer_inv messages s \<longleftrightarrow>
     map env_message (accepted (bqueue s)) @ btodo s = messages \<and>
     bproduced s = of_nat (length (accepted (bqueue s))) \<and>
     (\<forall>u m x. push_item (threads (bqueue s) u) = Some (m, x) \<longrightarrow>
        u = 0 \<and> m \<and> bproducer s = Pushing x) \<and>
     (\<forall>env. bproducer s = Pushing env \<longrightarrow> btodo s \<noteq> [] \<and> hd (btodo s) = env_message env) \<and>
     (mq_closed (the_queue (bqueue s)) \<longrightarrow>
        btodo s = [] \<and> (bproducer s = Closing \<or> bproducer s = Closed))"

definition blocking_consumer_inv ::
  "('b \<Rightarrow> market_message \<Rightarrow> 'b cpp) \<Rightarrow> 'b \<Rightarrow> 'b blocking_pipeline \<Rightarrow> bool" where
  "blocking_consumer_inv on_msg b s \<longleftrightarrow>
     (\<exists>processed. feed on_msg (map env_message processed) b = Inr (bbook s) \<and>
        delivered (bqueue s) = processed @ (case bconsumer s of Processing env \<Rightarrow> [env] | _ \<Rightarrow> []) \<and>
        bconsumed s = of_nat (length processed) \<and>
        (\<forall>r \<in> {bqueue_wait s, bbook_time s, bpipeline_time s}. length (samples r) = length processed)) \<and>
     (bconsumer s = Drained \<longrightarrow> mq_closed (the_queue (bqueue s)) \<and>
        delivered (bqueue s) = accepted (bqueue s))"

definition blocking_inv ::
  "('b \<Rightarrow> market_message \<Rightarrow> 'b cpp) \<Rightarrow> u64 \<Rightarrow> market_message list \<Rightarrow> 'b \<Rightarrow> 'b blocking_pipeline \<Rightarrow> bool"
where
  "blocking_inv on_msg capacity messages b s \<longleftrightarrow> queue_inv capacity (bqueue s) \<and>
     wakeup_inv (bqueue s) \<and> blocking_producer_inv messages s \<and> blocking_consumer_inv on_msg b s"

lemmas blocking_inv_defs = blocking_inv_def blocking_producer_inv_def blocking_consumer_inv_def

lemma blocking_inv_new: "blocking_inv on_msg capacity messages b (blocking_new capacity messages b c1 c2)"
proof -
  have "wakeup_inv (monitor_new capacity :: envelope monitor_state)"
    by (rule monitor_reachable_wakeup_inv [OF monitor_reachable.start])
  then show ?thesis
    using monitor_new_queue_inv [of capacity]
    by (auto simp: recorder_new_def blocking_inv_defs blocking_new_def monitor_new_def mutex_queue_new_def)
qed

text \<open>A step of the queue that only the queue sees.\<close>

lemma blocking_inv_queue:
  assumes "blocking_inv on_msg capacity messages b s"
    and "monitor_step stamps_push (bqueue s) e q"
    and "e = Internal \<or> (\<exists>t. e = Starts_Pop t) \<or> (\<exists>t. e = Ends_Close t)"
  shows "blocking_inv on_msg capacity messages b (s\<lparr>bqueue := q\<rparr>)"
proof -
  have same: "accepted q = accepted (bqueue s)" "delivered q = delivered (bqueue s)"
      "mq_closed (the_queue q) = mq_closed (the_queue (bqueue s))"
      "push_item (threads q u) = push_item (threads (bqueue s) u)" for u
    using assms(3) monitor_step_history [OF assms(2)] monitor_step_accepted [OF assms(2)] by auto
  have "queue_inv capacity q" "wakeup_inv q"
    using assms(1) monitor_step_queue_inv [OF assms(2)] monitor_step_wakeup_inv [OF assms(2)]
    by (simp_all add: blocking_inv_def)
  with assms(1) show ?thesis
    unfolding blocking_inv_defs by (auto simp: same)
qed

lemma blocking_step_inv:
  assumes "blocking_step on_msg s s'" and "blocking_inv on_msg capacity messages b s"
  shows "blocking_inv on_msg capacity messages b s'"
  using assms
proof (induction rule: blocking_step.induct)
  case (b_push s message rest env now q)
  note h = monitor_step_history [OF b_push(4)] monitor_step_accepted [OF b_push(4)]
    monitor_step_queue_inv [OF b_push(4), of capacity] monitor_step_wakeup_inv [OF b_push(4)]
  show ?case using b_push h by (auto simp: blocking_inv_defs)
next
  case (b_pushed s env ok q cpu)
  note h = monitor_step_history [OF b_pushed(2)] monitor_step_accepted [OF b_pushed(2)]
    monitor_step_queue_inv [OF b_pushed(2), of capacity] monitor_step_wakeup_inv [OF b_pushed(2)]
  have open_queue: "\<not> mq_closed (the_queue (bqueue s))"
    using b_pushed(1,3) by (auto simp: blocking_inv_defs)
  with h(4) have ok by (cases ok) simp_all
  then obtain m x x' where x: "push_item (threads (bqueue s) 0) = Some (m, x)"
      "if m then stamps_push x x' else x' = x" "accepted q = accepted (bqueue s) @ [x']"
    using h(4) by auto
  then have "m" "bproducer s = Pushing x" using b_pushed(3) by (auto simp: blocking_inv_defs)
  then have "env_message x' = env_message env" using x(2) b_pushed(1) by (auto simp: stamps_push_def)
  have "btodo s = env_message env # tl (btodo s)"
    using b_pushed(1,3) by (cases "btodo s") (auto simp: blocking_inv_defs)
  have split: "map env_message (accepted q) @ tl (btodo s) = messages"
  proof -
    have "map env_message (accepted (bqueue s)) @ btodo s = messages"
      using b_pushed(3) by (simp add: blocking_inv_defs)
    moreover have "map env_message (accepted q) @ tl (btodo s) =
        map env_message (accepted (bqueue s)) @ env_message env # tl (btodo s)"
      using x(3) \<open>env_message x' = env_message env\<close> by simp
    ultimately show ?thesis using \<open>btodo s = env_message env # tl (btodo s)\<close> by simp
  qed
  have "push_item (threads q u) = None" for u
    using h(3) [of u] b_pushed(3) by (cases "push_item (threads (bqueue s) u)") (auto simp: blocking_inv_defs)
  with b_pushed h(1,2) x(3) split open_queue monitor_step_queue_inv [OF b_pushed(2), of capacity]
    monitor_step_wakeup_inv [OF b_pushed(2)]
  show ?case by (auto simp: blocking_inv_defs)
next
  case (b_close s q)
  note h = monitor_step_history [OF b_close(3)] monitor_step_accepted [OF b_close(3)]
    monitor_step_queue_inv [OF b_close(3), of capacity] monitor_step_wakeup_inv [OF b_close(3)]
  show ?case using b_close h by (auto simp: blocking_inv_defs)
next
  case (b_closed s q)
  from blocking_inv_queue [OF b_closed(3,2)] b_closed show ?case by (auto simp: blocking_inv_defs)
next
  case (b_internal s q)
  from blocking_inv_queue [OF b_internal(2,1)] show ?case by simp
next
  case (b_pop s q)
  from blocking_inv_queue [OF b_pop(3,2)] b_pop show ?case by (auto simp: blocking_inv_defs)
next
  case (b_popped s env q)
  note h = monitor_step_history [OF b_popped(2)] monitor_step_accepted [OF b_popped(2)]
    monitor_step_queue_inv [OF b_popped(2), of capacity] monitor_step_wakeup_inv [OF b_popped(2)]
  show ?case using b_popped h by (auto simp: blocking_inv_defs)
next
  case (b_drained s q)
  note h = monitor_step_history [OF b_drained(2)] monitor_step_accepted [OF b_drained(2)]
    monitor_step_queue_inv [OF b_drained(2), of capacity] monitor_step_wakeup_inv [OF b_drained(2)]
    monitor_step_drained [OF b_drained(2) refl, of capacity]
  show ?case using b_drained h by (auto simp: blocking_inv_defs)
next
  case (b_process s env pop_ns book_start book_end end_ns cpu s')
  then obtain pr b' where pr: "feed on_msg (map env_message pr) b = Inr (bbook s)"
      "delivered (bqueue s) = pr @ [env]" "bconsumed s = of_nat (length pr)"
      "\<forall>r \<in> {bqueue_wait s', bbook_time s', bpipeline_time s'}. length (samples r) = length (pr @ [env])"
      "on_msg (bbook s) (env_message env) = Inr b'" "bbook s' = b'" "bconsumed s' = bconsumed s + 1"
      "bqueue s' = bqueue s" "btodo s' = btodo s" "bproducer s' = bproducer s"
      "bproduced s' = bproduced s"
    by (auto simp: blocking_inv_defs process_popped_def cpp_map_Inr_iff recorder_record_def)
  then have "feed on_msg (map env_message (pr @ [env])) b = Inr b'" by (simp add: feed_append)
  with pr have "blocking_consumer_inv on_msg b (s'\<lparr>bconsumer := Call_Pop\<rparr>)"
    unfolding blocking_consumer_inv_def by (auto intro!: exI [of _ "pr @ [env]"])
  with b_process(3) pr show ?case by (auto simp: blocking_inv_def blocking_producer_inv_def)
qed

lemma blocking_reachable_inv:
  "blocking_reachable on_msg capacity messages b s \<Longrightarrow> blocking_inv on_msg capacity messages b s"
  by (induction rule: blocking_reachable.induct) (auto intro: blocking_inv_new blocking_step_inv)

lemma blocking_drained:
  assumes "blocking_inv on_msg capacity messages b s" and "bconsumer s = Drained"
  shows "feed on_msg messages b = Inr (bbook s)" and "bconsumed s = of_nat (length messages)"
    and "bproduced s = of_nat (length messages)"
    and "\<forall>r \<in> {bqueue_wait s, bbook_time s, bpipeline_time s}. length (samples r) = length messages"
proof -
  have "btodo s = []" using assms by (auto simp: blocking_inv_defs)
  then have m: "map env_message (accepted (bqueue s)) = messages"
    using assms(1) by (simp add: blocking_inv_defs)
  then have len: "length (accepted (bqueue s)) = length messages" by auto
  show "feed on_msg messages b = Inr (bbook s)" "bconsumed s = of_nat (length messages)"
    "bproduced s = of_nat (length messages)"
    "\<forall>r \<in> {bqueue_wait s, bbook_time s, bpipeline_time s}. length (samples r) = length messages"
    using assms m len by (auto simp: blocking_inv_defs)
qed

lemma blocking_prefix:
  assumes "blocking_inv on_msg capacity messages b s" and "bconsumer s = Processing env"
  obtains pr rest where "messages = pr @ env_message env # rest" and "feed on_msg pr b = Inr (bbook s)"
proof -
  obtain pr where pr: "feed on_msg (map env_message pr) b = Inr (bbook s)"
      "delivered (bqueue s) = pr @ [env]"
    using assms by (auto simp: blocking_inv_defs)
  have "messages = map env_message (delivered (bqueue s) @ mq_items (the_queue (bqueue s))) @ btodo s"
    using assms(1) by (auto simp: blocking_inv_defs queue_inv_def)
  then have "messages = map env_message pr @ env_message env #
      (map env_message (mq_items (the_queue (bqueue s))) @ btodo s)" using pr(2) by simp
  with pr(1) show thesis by (intro that)
qed

section \<open>A complete run exists\<close>

definition quiet :: "envelope mutex_queue \<Rightarrow> envelope monitor_state \<Rightarrow> bool" where
  "quiet q m \<longleftrightarrow> the_queue m = q \<and> threads m = (\<lambda>_. Outside)"

lemma quiet_push:
  assumes "quiet q m" and "\<not> mq_closed q" and "mq_items q = []" and "0 < unat (mq_capacity q)"
  obtains m1 m2 where "monitor_step stamps_push m (Starts_Push 0 True env) m1"
    and "monitor_step stamps_push m1 (Ends_Push 0 True) m2"
    and "quiet (q\<lparr>mq_items := [env\<lparr>env_push_ns := 0\<rparr>]\<rparr>) m2"
proof -
  let ?m1 = "m\<lparr>threads := (threads m)(0 := Push_Ready True env)\<rparr>"
  let ?q = "q\<lparr>mq_items := [env\<lparr>env_push_ns := 0\<rparr>]\<rparr>"
  have "monitor_step stamps_push m (Starts_Push 0 True env) ?m1"
    by (rule monitor_step.start_push) (use assms in \<open>simp add: quiet_def\<close>)
  moreover have "monitor_step stamps_push ?m1 (Ends_Push 0 True)
      (?m1\<lparr>the_queue := ?q, threads := (\<lambda>_. Outside), accepted := accepted ?m1 @ [env\<lparr>env_push_ns := 0\<rparr>]\<rparr>)"
    by (rule push_queues [of _ _ True env])
       (use assms in \<open>auto simp: quiet_def stamps_push_def mutex_push_with_mutation_def
         not_full_predicate_def notify_one_def fun_eq_iff\<close>)
  ultimately show thesis by (rule that) (simp add: quiet_def)
qed

lemma quiet_pop:
  assumes "quiet q m" and "mq_items q = [env]"
  obtains m1 m2 where "monitor_step stamps_push m (Starts_Pop 1) m1"
    and "monitor_step stamps_push m1 (Ends_Pop 1 (Some env)) m2" and "quiet (q\<lparr>mq_items := []\<rparr>) m2"
proof -
  let ?m1 = "m\<lparr>threads := (threads m)(1 := Pop_Ready)\<rparr>"
  have "monitor_step stamps_push m (Starts_Pop 1) ?m1"
    by (rule monitor_step.start_pop) (use assms in \<open>simp add: quiet_def\<close>)
  moreover have "monitor_step stamps_push ?m1 (Ends_Pop 1 (Some env))
      (?m1\<lparr>the_queue := q\<lparr>mq_items := []\<rparr>, threads := (\<lambda>_. Outside), delivered := delivered ?m1 @ [env]\<rparr>)"
    by (rule pop_takes)
       (use assms in \<open>auto simp: quiet_def mutex_pop_def not_empty_predicate_def notify_one_def fun_eq_iff\<close>)
  ultimately show thesis by (rule that) (simp add: quiet_def)
qed

lemma quiet_close:
  assumes "quiet q m" and "mq_items q = []"
  obtains m1 m2 m3 m4 m5 where "monitor_step stamps_push m (Starts_Close 0) m1"
    and "monitor_step stamps_push m1 Internal m2" and "monitor_step stamps_push m2 (Ends_Close 0) m3"
    and "monitor_step stamps_push m3 (Starts_Pop 1) m4"
    and "monitor_step stamps_push m4 (Ends_Pop 1 None) m5"
proof -
  let ?m1 = "m\<lparr>the_queue := mutex_close (the_queue m), threads := (threads m)(0 := Close_Notify_Empty)\<rparr>"
  let ?m2 = "?m1\<lparr>threads := (notify_all on_not_empty (threads ?m1))(0 := Close_Notify_Full)\<rparr>"
  let ?m3 = "?m2\<lparr>threads := (notify_all on_not_full (threads ?m2))(0 := Outside)\<rparr>"
  let ?m4 = "?m3\<lparr>threads := (threads ?m3)(1 := Pop_Ready)\<rparr>"
  have "monitor_step stamps_push m (Starts_Close 0) ?m1"
    by (rule start_close) (use assms in \<open>simp add: quiet_def\<close>)
  moreover have "monitor_step stamps_push ?m1 Internal ?m2" by (rule close_notify_empty) simp
  moreover have "monitor_step stamps_push ?m2 (Ends_Close 0) ?m3" by (rule close_notify_full) simp
  moreover have "monitor_step stamps_push ?m3 (Starts_Pop 1) ?m4"
    by (rule monitor_step.start_pop) (use assms in \<open>simp add: quiet_def notify_all_def\<close>)
  moreover have "monitor_step stamps_push ?m4 (Ends_Pop 1 None)
      (?m4\<lparr>the_queue := the_queue ?m4, threads := (threads ?m4)(1 := Outside)\<rparr>)"
    by (rule pop_drained)
       (use assms in \<open>simp_all add: quiet_def mutex_pop_def not_empty_predicate_def mutex_close_def\<close>)
  ultimately show thesis by (rule that)
qed

definition blocking_rest :: "u64 \<Rightarrow> 'b blocking_pipeline \<Rightarrow> bool" where
  "blocking_rest capacity s \<longleftrightarrow> bproducer s = Take_Message \<and> bconsumer s = Call_Pop \<and>
     quiet (mutex_queue_new capacity) (bqueue s) \<and>
     (\<forall>r \<in> {bqueue_wait s, bbook_time s, bpipeline_time s}. all_zero r)"

lemma blocking_round:
  assumes "blocking_rest capacity s" and "0 < unat capacity" and "btodo s = message # rest"
    and "on_msg (bbook s) message = Inr b"
    and "blocking_reachable on_msg capacity messages b0 s"
  obtains s' where "blocking_reachable on_msg capacity messages b0 s'" and "blocking_rest capacity s'"
    and "btodo s' = rest" and "bbook s' = b"
proof -
  let ?q = "mutex_queue_new capacity :: envelope mutex_queue"
  define env where "env = \<lparr>env_message = message, env_producer_ns = 0, env_push_ns = 0\<rparr>"
  have q: "quiet ?q (bqueue s)" and open_queue: "\<not> mq_closed ?q" "mq_items ?q = []"
    "0 < unat (mq_capacity ?q)"
    using assms(1,2) by (simp_all add: blocking_rest_def mutex_queue_new_def)
  obtain m1 m2 where m: "monitor_step stamps_push (bqueue s) (Starts_Push 0 True env) m1"
      "monitor_step stamps_push m1 (Ends_Push 0 True) m2"
      "quiet (?q\<lparr>mq_items := [env\<lparr>env_push_ns := 0\<rparr>]\<rparr>) m2"
    using quiet_push [OF q open_queue] .
  have env: "env\<lparr>env_push_ns := 0\<rparr> = env" by (simp add: env_def)
  obtain m3 m4 where n: "monitor_step stamps_push m2 (Starts_Pop 1) m3"
      "monitor_step stamps_push m3 (Ends_Pop 1 (Some env)) m4"
      "quiet (?q\<lparr>mq_items := [env]\<rparr>\<lparr>mq_items := []\<rparr>) m4"
    using quiet_pop [OF m(3) [unfolded env], of env] by auto
  define s1 where "s1 = s\<lparr>bqueue := m1, bproducer := Pushing env\<rparr>"
  define s2 where "s2 = s1\<lparr>bqueue := m2, bproducer := Take_Message, btodo := tl (btodo s1),
      bproduced := bproduced s1 + 1,
      bproducer_migrations := count_migration (bproducer_cpu s1) 0 (bproducer_migrations s1),
      bproducer_cpu := 0\<rparr>"
  define s3 where "s3 = s2\<lparr>bqueue := m3, bconsumer := Popping\<rparr>"
  define s4 where "s4 = s3\<lparr>bqueue := m4, bconsumer := Processing env\<rparr>"
  have r1: "blocking_step on_msg s s1"
    unfolding s1_def by (rule b_push [OF _ assms(3) env_def m(1)]) (use assms(1) in \<open>simp add: blocking_rest_def\<close>)
  have r2: "blocking_step on_msg s1 s2"
    unfolding s2_def by (rule b_pushed [where ok = True and env = env]) (use m(2) in \<open>simp_all add: s1_def\<close>)
  have r3: "blocking_step on_msg s2 s3"
    unfolding s3_def
    by (rule b_pop) (use n(1) assms(1) in \<open>simp_all add: s2_def s1_def blocking_rest_def\<close>)
  have r4: "blocking_step on_msg s3 s4"
    unfolding s4_def by (rule b_popped) (use n(2) in \<open>simp_all add: s3_def\<close>)
  have book: "bbook s4 = bbook s" "bconsumer s4 = Processing env" "bqueue s4 = m4"
      "btodo s4 = rest" "bproducer s4 = Take_Message"
      "\<forall>r \<in> {bqueue_wait s4, bbook_time s4, bpipeline_time s4}. all_zero r"
    using assms(1,3) by (simp_all add: s4_def s3_def s2_def s1_def blocking_rest_def)
  obtain s5 where s5: "process_popped on_msg 0 0 0 0 0 env s4 = Inr s5" "bbook s5 = b"
      "bqueue s5 = m4" "btodo s5 = rest" "bproducer s5 = Take_Message"
      "\<forall>r \<in> {bqueue_wait s5, bbook_time s5, bpipeline_time s5}. all_zero r"
    using assms(4) book by (auto simp: process_popped_def env_def cpp_map_Inr_iff)
  have r5: "blocking_step on_msg s4 (s5\<lparr>bconsumer := Call_Pop\<rparr>)" by (rule b_process [OF book(2) s5(1)])
  note reach = b_step [OF b_step [OF b_step [OF b_step [OF b_step [OF assms(5) r1] r2] r3] r4] r5]
  have "quiet ?q m4" using n(3) by (simp add: mutex_queue_new_def)
  then show thesis by (intro that [OF reach]) (use s5 in \<open>simp_all add: blocking_rest_def\<close>)
qed

lemma blocking_rounds:
  "blocking_rest capacity s \<Longrightarrow> 0 < unat capacity \<Longrightarrow> feed on_msg (btodo s) (bbook s) = Inr b \<Longrightarrow>
   blocking_reachable on_msg capacity messages b0 s \<Longrightarrow>
   \<exists>s'. blocking_reachable on_msg capacity messages b0 s' \<and> blocking_rest capacity s' \<and>
     btodo s' = [] \<and> bbook s' = b"
proof (induction "btodo s" arbitrary: s)
  case (Cons message rest)
  obtain b1 where b1: "on_msg (bbook s) message = Inr b1" "feed on_msg rest b1 = Inr b"
    using Cons.prems(3) unfolding Cons.hyps(2) [symmetric] by (auto simp: cpp_bind_Inr_iff)
  obtain s1 where "blocking_reachable on_msg capacity messages b0 s1" "blocking_rest capacity s1"
      "btodo s1 = rest" "bbook s1 = b1"
    using blocking_round [OF Cons.prems(1,2) Cons.hyps(2) [symmetric] b1(1) Cons.prems(4)] .
  with Cons.hyps(1) [of s1] b1(2) Cons.prems(2) show ?case by auto
qed auto

lemma blocking_complete_run:
  assumes "0 < unat capacity" and "feed on_msg messages b0 = Inr b"
  obtains s where "blocking_reachable on_msg capacity messages b0 s" and "bconsumer s = Drained"
    and "bbook s = b" and "bproducer s = Closed"
    and "\<forall>r \<in> {bqueue_wait s, bbook_time s, bpipeline_time s}. all_zero r"
proof -
  define s0 where "s0 = blocking_new capacity messages b0 0 0"
  have s0: "blocking_reachable on_msg capacity messages b0 s0" unfolding s0_def by (rule b_start)
  have "blocking_rest capacity s0" "feed on_msg (btodo s0) (bbook s0) = Inr b"
    using assms(2) by (simp_all add: s0_def blocking_rest_def blocking_new_def quiet_def monitor_new_def)
  from blocking_rounds [OF this(1) assms(1) this(2) s0] obtain s1 where
    s1: "blocking_reachable on_msg capacity messages b0 s1" "blocking_rest capacity s1"
      "btodo s1 = []" "bbook s1 = b" by blast
  have q: "quiet (mutex_queue_new capacity) (bqueue s1)"
      "mq_items (mutex_queue_new capacity :: envelope mutex_queue) = []"
    and pc: "bproducer s1 = Take_Message" "bconsumer s1 = Call_Pop"
    and zero: "\<forall>r \<in> {bqueue_wait s1, bbook_time s1, bpipeline_time s1}. all_zero r"
    using s1(2) by (simp_all add: blocking_rest_def mutex_queue_new_def)
  obtain m1 m2 m3 m4 m5 where m: "monitor_step stamps_push (bqueue s1) (Starts_Close 0) m1"
      "monitor_step stamps_push m1 Internal m2" "monitor_step stamps_push m2 (Ends_Close 0) m3"
      "monitor_step stamps_push m3 (Starts_Pop 1) m4" "monitor_step stamps_push m4 (Ends_Pop 1 None) m5"
    using quiet_close [OF q] .
  let ?s2 = "s1\<lparr>bqueue := m1, bproducer := Closing\<rparr>"
  let ?s3 = "?s2\<lparr>bqueue := m2\<rparr>"
  let ?s4 = "?s3\<lparr>bqueue := m3, bproducer := Closed\<rparr>"
  let ?s5 = "?s4\<lparr>bqueue := m4, bconsumer := Popping\<rparr>"
  let ?s6 = "?s5\<lparr>bqueue := m5, bconsumer := Drained\<rparr>"
  have r1: "blocking_step on_msg s1 ?s2" by (rule b_close [OF pc(1) s1(3) m(1)])
  have r2: "blocking_step on_msg ?s2 ?s3" by (rule b_internal) (use m(2) in simp)
  have r3: "blocking_step on_msg ?s3 ?s4" by (rule b_closed) (use m(3) in simp_all)
  have r4: "blocking_step on_msg ?s4 ?s5" by (rule b_pop) (use pc m(4) in simp_all)
  have r5: "blocking_step on_msg ?s5 ?s6" by (rule b_drained) (use m(5) in simp_all)
  from b_step [OF b_step [OF b_step [OF b_step [OF b_step [OF s1(1) r1] r2] r3] r4] r5]
  show thesis by (rule that) (use s1(4) zero in simp_all)
qed

section \<open>Properties\<close>

text \<open>
  Property C4. The blocking pipeline loses, repeats and reorders nothing: under every interleaving
  and every wake-up, when the consumer's loop ends it has processed exactly the generated messages in
  order, and both counters say so; on the way no message is undefined behaviour in the book.
\<close>

theorem producer_consumer_delivers:
  assumes "producer_consumer_benchmark wall n capacity s"
  shows "(bconsumer s = Drained \<longrightarrow>
        feed on_message (generated wall n (map of_char ''AAPL'')) empty_book = Inr (bbook s) \<and>
        bproduced s = n \<and> bconsumed s = n) \<and>
     (\<forall>env. bconsumer s = Processing env \<longrightarrow>
        (\<exists>b. on_message (bbook s) (env_message env) = Inr b))"
proof -
  let ?ms = "generated wall n (map of_char ''AAPL'')"
  have inv: "blocking_inv on_message capacity ?ms empty_book s"
    by (rule blocking_reachable_inv [OF assms [unfolded producer_consumer_benchmark_def]])
  obtain b' where all: "feed on_message ?ms empty_book = Inr b'"
    using base.feed_ok [OF book_rel_empty replay_shallow [OF order_refl]] by blast
  have "\<exists>b. on_message (bbook s) (env_message env) = Inr b" if pc: "bconsumer s = Processing env" for env
  proof -
    obtain pr rest where "?ms = pr @ env_message env # rest" "feed on_message pr empty_book = Inr (bbook s)"
      using blocking_prefix [OF inv pc] .
    with all show ?thesis by (metis feed_prefix_defined)
  qed
  moreover have "feed on_message ?ms empty_book = Inr (bbook s)" "bproduced s = n" "bconsumed s = n"
    if "bconsumer s = Drained"
    using blocking_drained [OF inv that] unfolding generated_ok(1) by simp_all
  ultimately show ?thesis by blast
qed

theorem producer_consumer_delivers_witness:
  "\<exists>s. producer_consumer_benchmark (\<lambda>_. 7) 3 1 s \<and> bconsumer s = Drained \<and> bconsumed s = 3"
proof -
  obtain b where "feed on_message (generated (\<lambda>_. 7) 3 (map of_char ''AAPL'')) empty_book = Inr b"
    using base.feed_ok [OF book_rel_empty replay_shallow [OF order_refl]] by blast
  from blocking_complete_run [OF _ this, of 1]
  obtain s where s: "producer_consumer_benchmark (\<lambda>_. 7) 3 1 s" "bconsumer s = Drained"
    unfolding producer_consumer_benchmark_def by auto
  with producer_consumer_delivers [OF s(1)] show ?thesis by auto
qed

end
