(* ===== verification/Mutex_Progress.thy ===== *)
theory Mutex_Progress
  imports Mutex_Pipeline
begin

text \<open>
  \<open>benchmark_producer_consumer.cpp\<close> terminates under every scheduler: each step that is not a spurious
  wake-up uses up some of a bounded amount of work, and until both threads have left there is such a step.
  No fairness is needed, since a thread that waits for the other sleeps and takes no steps.
\<close>

section \<open>Which call each thread is in\<close>

datatype call =
    No_Call
  | Push_Call
  | Pop_Call
  | Close_Call

fun call_of :: "'a thread \<Rightarrow> call" where
  "call_of Outside = No_Call"
| "call_of (Push_Ready m x) = Push_Call"
| "call_of (Push_Asleep m x) = Push_Call"
| "call_of Pop_Ready = Pop_Call"
| "call_of Pop_Asleep = Pop_Call"
| "call_of Close_Notify_Empty = Close_Call"
| "call_of Close_Notify_Full = Close_Call"

lemma call_of_wake [simp]: "call_of (wake th) = call_of th"
  by (cases th) simp_all

lemma call_of_notify_one: "notify_one on ths ths' \<Longrightarrow> call_of (ths' u) = call_of (ths u)"
  by (auto simp: notify_one_def)

lemma call_of_notify_all [simp]: "call_of (notify_all on ths u) = call_of (ths u)"
  by (simp add: notify_all_def)

fun event_call :: "'a monitor_event \<Rightarrow> (nat \<times> call) option" where
  "event_call Internal = None"
| "event_call (Starts_Push t m x) = Some (t, Push_Call)"
| "event_call (Ends_Push t ok) = Some (t, No_Call)"
| "event_call (Starts_Pop t) = Some (t, Pop_Call)"
| "event_call (Ends_Pop t r) = Some (t, No_Call)"
| "event_call (Starts_Close t) = Some (t, Close_Call)"
| "event_call (Ends_Close t) = Some (t, No_Call)"

lemma monitor_step_calls:
  assumes "monitor_step mutates s e s'"
  shows "call_of (threads s' u) =
    (case event_call e of Some (t, c) \<Rightarrow> if u = t then c else call_of (threads s u)
     | None \<Rightarrow> call_of (threads s u))"
  using assms
  by (induction rule: monitor_step.induct) (auto simp: call_of_notify_one)

text \<open>Thread 0 is the producer, thread 1 the consumer, and there are no others.\<close>

definition calls_of :: "'b blocking_pipeline \<Rightarrow> nat \<Rightarrow> call" where
  "calls_of s u =
     (if u = 0 then (case bproducer s of Pushing env \<Rightarrow> Push_Call | Closing \<Rightarrow> Close_Call | _ \<Rightarrow> No_Call)
      else if u = 1 \<and> bconsumer s = Popping then Pop_Call else No_Call)"

definition blocking_calls :: "'b blocking_pipeline \<Rightarrow> bool" where
  "blocking_calls s \<longleftrightarrow> (\<forall>u. call_of (threads (bqueue s) u) = calls_of s u) \<and>
     (bproducer s = Closing \<or> bproducer s = Closed \<longrightarrow> mq_closed (the_queue (bqueue s)))"

lemma blocking_calls_new: "blocking_calls (blocking_new capacity messages b c1 c2)"
  by (simp add: blocking_calls_def calls_of_def blocking_new_def monitor_new_def)

lemma blocking_calls_step:
  assumes "blocking_step on_msg s s'" and "blocking_calls s"
  shows "blocking_calls s'"
  using assms
proof (induction rule: blocking_step.induct)
  case (b_process s env pop_ns book_start book_end end_ns cpu s')
  then show ?case by (auto simp: blocking_calls_def calls_of_def process_popped_def cpp_map_Inr_iff)
qed (auto simp: blocking_calls_def calls_of_def monitor_step_calls monitor_step_history(2))

section \<open>Work\<close>

fun call_work :: "'a thread \<Rightarrow> nat" where
  "call_work (Push_Ready m x) = 1"
| "call_work Pop_Ready = 1"
| "call_work Close_Notify_Empty = 2"
| "call_work _ = 0"

text \<open>An item in the queue is worth the pop and the processing it will cause, and a wake-up.\<close>

definition queue_work :: "'a monitor_state \<Rightarrow> nat" where
  "queue_work m = 4 * length (mq_items (the_queue m)) + call_work (threads m 0) + call_work (threads m 1)"

definition blocking_work :: "'b blocking_pipeline \<Rightarrow> nat" where
  "blocking_work s = 8 * length (btodo s) + queue_work (bqueue s) +
     (case bproducer s of Take_Message \<Rightarrow> 5 | Pushing env \<Rightarrow> 3 | Closing \<Rightarrow> 2 | Closed \<Rightarrow> 0) +
     (case bconsumer s of Call_Pop \<Rightarrow> 3 | Popping \<Rightarrow> 1 | Processing env \<Rightarrow> 4 | Drained \<Rightarrow> 0)"

lemma call_work_wake: "call_work (wake th) \<le> call_work th + 1"
  by (cases th) simp_all

lemma notify_work:
  "notify_one on ths ths' \<Longrightarrow> call_work (ths' u) \<le> call_work (ths u) + of_bool (on (ths u))"
  "call_work (notify_all on ths u) \<le> call_work (ths u) + of_bool (on (ths u))"
  using call_work_wake [of "ths u"] by (auto simp: notify_one_def notify_all_def)

text \<open>Two threads, one that pushes and closes and one that pops.\<close>

definition two_threads :: "'a monitor_state \<Rightarrow> bool" where
  "two_threads m \<longleftrightarrow> call_of (threads m 0) \<noteq> Pop_Call \<and> call_of (threads m 1) \<in> {No_Call, Pop_Call} \<and>
     (\<forall>u. 1 < u \<longrightarrow> call_of (threads m u) = No_Call)"

lemma blocking_two_threads: "blocking_calls s \<Longrightarrow> two_threads (bqueue s)"
  by (auto simp: blocking_calls_def two_threads_def calls_of_def split: blocking_producer.splits)

lemma two_threadsD:
  assumes "two_threads m"
  shows "\<not> on_not_empty (threads m 0)" and "\<not> on_not_full (threads m 1)"
    and "threads m t = Push_Ready b x \<Longrightarrow> t = 0" and "threads m t = Pop_Ready \<Longrightarrow> t = 1"
    and "threads m t = Close_Notify_Empty \<Longrightarrow> t = 0"
proof -
  show "\<not> on_not_empty (threads m 0)" and "\<not> on_not_full (threads m 1)"
    using assms by (cases "threads m 0"; cases "threads m 1"; simp add: two_threads_def)+
  have high: "call_of (threads m t) = No_Call" if "t \<noteq> 0" "t \<noteq> 1" using assms that by (simp add: two_threads_def)
  show "threads m t = Push_Ready b x \<Longrightarrow> t = 0" and "threads m t = Pop_Ready \<Longrightarrow> t = 1"
    and "threads m t = Close_Notify_Empty \<Longrightarrow> t = 0"
    using assms high unfolding two_threads_def
    by (metis call_of.simps(2) call.distinct insert_iff empty_iff,
        metis call_of.simps(4) call.distinct, metis call_of.simps(6) call.distinct insert_iff empty_iff)
qed

definition queue_wakes :: "'a monitor_state \<Rightarrow> 'a monitor_state \<Rightarrow> bool" where
  "queue_wakes m m' \<longleftrightarrow> (\<exists>t. m' = m\<lparr>threads := (threads m)(t := wake (threads m t))\<rparr>)"

lemma queue_wakes_work:
  assumes "queue_wakes m m'" and "two_threads m"
  shows "queue_work m' \<le> queue_work m + 1"
proof -
  obtain t where "m' = m\<lparr>threads := (threads m)(t := wake (threads m t))\<rparr>"
    using assms(1) by (auto simp: queue_wakes_def)
  then show ?thesis using call_work_wake [of "threads m t"] by (auto simp: queue_work_def)
qed

lemma internal_work:
  assumes "monitor_step mutates m Internal m'" and "two_threads m"
  shows "queue_work m' < queue_work m \<or> queue_wakes m m'"
  using assms(1)
proof cases
  case (push_sleeps t b x)
  then show ?thesis using two_threadsD(3) [OF assms(2) push_sleeps(2)] by (simp add: queue_work_def)
next
  case (pop_sleeps t)
  then show ?thesis using two_threadsD(4) [OF assms(2) pop_sleeps(2)] by (simp add: queue_work_def)
next
  case (close_notify_empty t)
  then have t: "t = 0" using two_threadsD(5) [OF assms(2)] by blast
  then show ?thesis
    using notify_work(2) [of on_not_empty "threads m" 1] close_notify_empty
    by (cases "on_not_empty (threads m 1)") (auto simp: queue_work_def)
next
  case (spurious t)
  then show ?thesis by (auto simp: queue_wakes_def)
qed

lemma start_work:
  "monitor_step mutates m (Starts_Push 0 b x) m' \<Longrightarrow> queue_work m' = queue_work m + 1"
  "monitor_step mutates m (Starts_Pop 1) m' \<Longrightarrow> queue_work m' = queue_work m + 1"
  "monitor_step mutates m (Starts_Close 0) m' \<Longrightarrow> queue_work m' = queue_work m + 2"
  by (auto elim!: monitor_stepE simp: queue_work_def mutex_close_def)

lemma push_work:
  assumes "monitor_step mutates m (Ends_Push 0 ok) m'" and "two_threads m"
  shows "queue_work m' \<le> queue_work m + 4"
  using assms(1)
proof cases
  case (push_closed b x q)
  then show ?thesis by (auto simp: queue_work_def mutex_push_def split: if_splits)
next
  case (push_queues b x x' q ths)
  have one: "of_bool (on_not_empty (((threads m)(0 := Outside)) 1)) \<le> (1 :: nat)" by simp
  have items: "length (mq_items q) = length (mq_items (the_queue m)) + 1"
    using push_queues(5) by (auto simp: mutex_push_with_mutation_def Let_def split: if_splits)
  have "call_work (ths 0) = 0" "call_work (ths 1) \<le> call_work (threads m 1) + 1"
    using notify_work(1) [OF push_queues(6), of 0] notify_work(1) [OF push_queues(6), of 1] one by simp_all
  moreover have "call_work (threads m 0) = 1" using push_queues by simp
  ultimately show ?thesis unfolding queue_work_def push_queues(2) by (simp add: items)
qed

lemma pop_work:
  assumes "monitor_step mutates m (Ends_Pop 1 r) m'" and "two_threads m"
  shows "queue_work m' + (case r of Some x \<Rightarrow> 4 | None \<Rightarrow> 1) \<le> queue_work m"
  using assms(1)
proof cases
  case (pop_drained q)
  then show ?thesis by (auto simp: queue_work_def mutex_pop_def split: if_splits)
next
  case (pop_takes x q ths)
  have one: "of_bool (on_not_full (((threads m)(1 := Outside)) 0)) \<le> (1 :: nat)" by simp
  have items: "length (mq_items (the_queue m)) = length (mq_items q) + 1"
    using pop_takes(4) by (auto simp: mutex_pop_def split: if_splits)
  have "call_work (ths 1) = 0" "call_work (ths 0) \<le> call_work (threads m 0) + 1"
    using notify_work(1) [OF pop_takes(5), of 0] notify_work(1) [OF pop_takes(5), of 1] one by simp_all
  moreover have "call_work (threads m 1) = 1" using pop_takes by simp
  ultimately show ?thesis using pop_takes(1) unfolding queue_work_def pop_takes(2) by (simp add: items)
qed

lemma close_work:
  assumes "monitor_step mutates m (Ends_Close 0) m'" and "two_threads m"
  shows "queue_work m' \<le> queue_work m"
  using assms(1)
proof cases
  case close_notify_full
  then show ?thesis
    using notify_work(2) [of on_not_full "threads m" 1] two_threadsD(2) [OF assms(2)] by (simp add: queue_work_def)
qed

section \<open>Every step works or is a spurious wake-up\<close>

definition wakes_spuriously :: "'b blocking_pipeline \<Rightarrow> 'b blocking_pipeline \<Rightarrow> bool" where
  "wakes_spuriously s s' \<longleftrightarrow> (\<exists>m. queue_wakes (bqueue s) m \<and> s' = s\<lparr>bqueue := m\<rparr>)"

lemma blocking_step_work:
  assumes "blocking_step on_msg s s'" and "blocking_calls s" and "blocking_producer_inv messages s"
  shows "blocking_work s' < blocking_work s \<or> wakes_spuriously s s'"
  using assms
proof (induction rule: blocking_step.induct)
  case (b_push s message rest env now q)
  with start_work(1) [OF b_push(4)] show ?case by (simp add: blocking_work_def)
next
  case (b_pushed s env ok q cpu)
  have "btodo s \<noteq> []" using b_pushed(1,4) by (simp add: blocking_producer_inv_def)
  with b_pushed(1) push_work [OF b_pushed(2) blocking_two_threads [OF b_pushed(3)]] show ?case
    by (cases "btodo s") (simp_all add: blocking_work_def)
next
  case (b_close s q)
  with start_work(3) [OF b_close(3)] show ?case by (simp add: blocking_work_def)
next
  case (b_closed s q)
  with close_work [OF b_closed(2) blocking_two_threads [OF b_closed(3)]] show ?case
    by (simp add: blocking_work_def)
next
  case (b_internal s q)
  from internal_work [OF b_internal(1) blocking_two_threads [OF b_internal(2)]] show ?case
    by (auto simp: blocking_work_def wakes_spuriously_def)
next
  case (b_pop s q)
  with start_work(2) [OF b_pop(2)] show ?case by (simp add: blocking_work_def)
next
  case (b_popped s env q)
  with pop_work [OF b_popped(2) blocking_two_threads [OF b_popped(3)]] show ?case
    by (simp add: blocking_work_def)
next
  case (b_drained s q)
  with pop_work [OF b_drained(2) blocking_two_threads [OF b_drained(3)]] show ?case
    by (simp add: blocking_work_def)
next
  case (b_process s env pop_ns book_start book_end end_ns cpu s')
  then show ?case by (auto simp: blocking_work_def process_popped_def cpp_map_Inr_iff)
qed

lemma wakes_spuriously_work:
  assumes "wakes_spuriously s s'"
  shows "blocking_work s \<le> blocking_work s'" and "blocking_work s' \<le> blocking_work s + 1"
proof -
  obtain t where s': "s' = s\<lparr>bqueue := (bqueue s)
      \<lparr>threads := (threads (bqueue s))(t := wake (threads (bqueue s) t))\<rparr>\<rparr>"
    using assms by (auto simp: wakes_spuriously_def queue_wakes_def)
  have "call_work (threads (bqueue s) t) \<le> call_work (wake (threads (bqueue s) t))"
    by (cases "threads (bqueue s) t") simp_all
  with call_work_wake [of "threads (bqueue s) t"]
  show "blocking_work s \<le> blocking_work s'" and "blocking_work s' \<le> blocking_work s + 1"
    by (auto simp: s' blocking_work_def queue_work_def)
qed

section \<open>A thread that is awake can work\<close>

lemma step_worksI:
  assumes "blocking_step on_msg s s'" and "blocking_calls s" and "blocking_producer_inv messages s"
    and "bproducer s' \<noteq> bproducer s \<or> bconsumer s' \<noteq> bconsumer s"
  shows "\<exists>s'. blocking_step on_msg s s' \<and> blocking_work s' < blocking_work s"
proof -
  have "\<not> wakes_spuriously s s'" using assms(4) by (auto simp: wakes_spuriously_def)
  then show ?thesis using blocking_step_work [OF assms(1-3)] assms(1) by blast
qed

lemma notify_one_exists: "\<exists>ths'. notify_one on ths ths'"
  by (auto simp: notify_one_def)

lemma producer_works:
  assumes calls: "blocking_calls s" and inv: "blocking_producer_inv messages s"
    and "bproducer s \<noteq> Closed" and awake: "\<not> on_not_full (threads (bqueue s) 0)"
  shows "\<exists>s'. blocking_step on_msg s s' \<and> blocking_work s' < blocking_work s"
proof -
  let ?m = "bqueue s"
  have call: "call_of (threads ?m 0) = calls_of s 0" using calls by (simp add: blocking_calls_def)
  note works = step_worksI [OF _ calls inv, of on_msg]
  show ?thesis
  proof (cases "bproducer s")
    case Take_Message
    then have out: "threads ?m 0 = Outside"
      using call by (cases "threads ?m 0") (simp_all add: calls_of_def)
    show ?thesis
    proof (cases "btodo s")
      case Nil
      show ?thesis
        by (rule works [OF b_close [OF Take_Message Nil start_close [OF out]]]) (simp add: Take_Message)
    next
      case (Cons message rest)
      show ?thesis
        by (rule works [OF b_push [OF Take_Message Cons refl monitor_step.start_push [OF out], of on_msg 0]])
          (simp add: Take_Message)
    qed
  next
    case (Pushing env)
    then obtain m x where ready: "threads ?m 0 = Push_Ready m x"
      using call awake by (cases "threads ?m 0") (simp_all add: calls_of_def)
    then have "push_item (threads ?m 0) = Some (m, x)" by simp
    then have m: m and "bproducer s = Pushing x" using inv unfolding blocking_producer_inv_def by blast+
    then have x: "x = env" using Pushing by simp
    have open_queue: "\<not> mq_closed (the_queue ?m)" using inv Pushing by (auto simp: blocking_producer_inv_def)
    show ?thesis
    proof (cases "mutex_push x (the_queue ?m)")
      case None
      from b_internal [OF push_sleeps [OF ready None], of on_msg] show ?thesis
        by (intro exI conjI) (auto simp: blocking_work_def queue_work_def ready)
    next
      case (Some r)
      let ?x = "env\<lparr>env_push_ns := 0\<rparr>"
      obtain q where q: "mutex_push_with_mutation x (\<lambda>_. ?x) (the_queue ?m) = Some (True, q)"
        using Some open_queue by (auto simp: mutex_push_def mutex_push_with_mutation_def Let_def split: if_splits)
      obtain ths where ths: "notify_one on_not_empty ((threads ?m)(0 := Outside)) ths"
        using notify_one_exists by blast
      have "if m then stamps_push x ?x else ?x = x" using m by (auto simp: stamps_push_def x)
      from b_pushed [OF Pushing push_queues [where mutates = stamps_push, OF ready this q ths], of on_msg 0]
      show ?thesis by (rule works) (simp add: Pushing)
    qed
  next
    case Closing
    then consider "threads ?m 0 = Close_Notify_Empty" | "threads ?m 0 = Close_Notify_Full"
      using call by (cases "threads ?m 0") (simp_all add: calls_of_def)
    then show ?thesis
    proof cases
      case 1
      from b_internal [OF close_notify_empty [OF 1], of on_msg] show ?thesis
        using notify_work(2) [of on_not_empty "threads ?m" 1]
        by (intro exI conjI)
          (auto simp: blocking_work_def queue_work_def 1 of_bool_def split: if_splits)
    next
      case 2
      show ?thesis by (rule works [OF b_closed [OF Closing close_notify_full [OF 2]]]) (simp add: Closing)
    qed
  qed (use assms(3) in simp)
qed

lemma consumer_works:
  assumes inv: "blocking_inv on_msg capacity messages b0 s" and calls: "blocking_calls s"
    and feed: "feed on_msg messages b0 = Inr b"
    and "bconsumer s \<noteq> Drained" and awake: "\<not> on_not_empty (threads (bqueue s) 1)"
  shows "\<exists>s'. blocking_step on_msg s s' \<and> blocking_work s' < blocking_work s"
proof -
  let ?m = "bqueue s"
  have call: "call_of (threads ?m 1) = calls_of s 1" using calls by (simp add: blocking_calls_def)
  have pinv: "blocking_producer_inv messages s" using inv by (simp add: blocking_inv_def)
  note works = step_worksI [OF _ calls pinv, of on_msg]
  show ?thesis
  proof (cases "bconsumer s")
    case Call_Pop
    then have out: "threads ?m 1 = Outside"
      using call by (cases "threads ?m 1") (simp_all add: calls_of_def)
    show ?thesis by (rule works [OF b_pop [OF Call_Pop monitor_step.start_pop [OF out]]]) (simp add: Call_Pop)
  next
    case Popping
    then have ready: "threads ?m 1 = Pop_Ready"
      using call awake by (cases "threads ?m 1") (simp_all add: calls_of_def)
    show ?thesis
    proof (cases "mutex_pop (the_queue ?m)")
      case None
      from b_internal [OF pop_sleeps [OF ready None], of on_msg] show ?thesis
        by (intro exI conjI) (auto simp: blocking_work_def queue_work_def ready [unfolded One_nat_def])
    next
      case (Some r)
      obtain x q where r: "r = (x, q)" by (cases r)
      show ?thesis
      proof (cases x)
        case None
        from b_drained [OF Popping pop_drained [OF ready Some [unfolded r None]], of on_msg] show ?thesis
          by (rule works) (simp add: Popping)
      next
        case (Some env)
        obtain ths where "notify_one on_not_full ((threads ?m)(1 := Outside)) ths"
          using notify_one_exists by blast
        from b_popped [OF Popping pop_takes [OF ready \<open>mutex_pop (the_queue ?m) = Some r\<close> [unfolded r Some] this], of on_msg]
        show ?thesis by (rule works) (simp add: Popping)
      qed
    qed
  next
    case (Processing env)
    obtain pr rest where "messages = pr @ env_message env # rest" "feed on_msg pr b0 = Inr (bbook s)"
      using blocking_prefix [OF inv Processing] .
    with feed obtain b2 where "on_msg (bbook s) (env_message env) = Inr b2" using feed_prefix_defined by metis
    then obtain s' where "process_popped on_msg 0 0 0 0 0 env s = Inr s'" by (auto simp: process_popped_def)
    from b_process [OF Processing this] show ?thesis by (rule works) (simp add: Processing)
  qed (use assms(4) in simp)
qed

text \<open>Two sleepers: the queue would have to be full and empty at once.\<close>

lemma blocking_works:
  assumes inv: "blocking_inv on_msg capacity messages b0 s" and calls: "blocking_calls s"
    and feed: "feed on_msg messages b0 = Inr b" and "0 < capacity"
    and "\<not> (bproducer s = Closed \<and> bconsumer s = Drained)"
  shows "\<exists>s'. blocking_step on_msg s s' \<and> blocking_work s' < blocking_work s"
proof (rule ccontr)
  assume stuck: "\<not> ?thesis"
  let ?m = "bqueue s"
  have pinv: "blocking_producer_inv messages s" and wake: "wakeup_inv ?m" and qinv: "queue_inv capacity ?m"
    using inv by (simp_all add: blocking_inv_def)
  have call: "call_of (threads ?m u) = calls_of s u" for u using calls by (simp add: blocking_calls_def)
  have p: "bproducer s = Closed \<or> on_not_full (threads ?m 0)" using producer_works [OF calls pinv] stuck by blast
  have c: "bconsumer s = Drained \<or> on_not_empty (threads ?m 1)"
    using consumer_works [OF inv calls feed] stuck by blast
  have idle: "threads ?m u \<noteq> Pop_Ready \<and> threads ?m u \<noteq> Close_Notify_Empty \<and>
      threads ?m u \<noteq> Close_Notify_Full \<and> threads ?m u \<noteq> Push_Ready b x" for u b x
  proof -
    have "call_of (threads ?m u) = No_Call \<or> on_not_full (threads ?m u) \<or> on_not_empty (threads ?m u)"
      using p c call [of u] by (cases "u = 0"; cases "u = 1") (auto simp: calls_of_def)
    then show ?thesis by (cases "threads ?m u") simp_all
  qed
  have pop: "\<not> not_empty_predicate (the_queue ?m)" if "on_not_empty (threads ?m 1)"
  proof -
    have "threads ?m 1 = Pop_Asleep" using that by (cases "threads ?m 1") simp_all
    then show ?thesis using sleeping_pop [OF wake] idle by blast
  qed
  have push: "\<not> not_full_predicate (the_queue ?m)" if "on_not_full (threads ?m 0)"
  proof -
    have "\<exists>b x. threads ?m 0 = Push_Asleep b x" using that by (cases "threads ?m 0") simp_all
    then show ?thesis using sleeping_push [OF wake] idle by blast
  qed
  have closed: "mq_closed (the_queue ?m)" if "bproducer s = Closed \<or> bconsumer s = Drained"
    using that calls inv by (auto simp: blocking_calls_def blocking_inv_defs)
  have "0 < unat capacity" using assms(4) by (simp add: word_less_nat_alt)
  then show False
    using p c assms(5) pop push closed qinv
    by (auto simp: not_empty_predicate_def not_full_predicate_def queue_inv_def)
qed

section \<open>Runs\<close>

text \<open>A run of \<open>steps\<close> steps, \<open>spurious\<close> of them spurious wake-ups.\<close>

inductive blocking_run ::
  "('b \<Rightarrow> market_message \<Rightarrow> 'b cpp) \<Rightarrow> 'b blocking_pipeline \<Rightarrow> nat \<Rightarrow> nat \<Rightarrow> 'b blocking_pipeline \<Rightarrow> bool"
  for on_msg s where
  no_step: "blocking_run on_msg s 0 0 s"
| one_step:
    "blocking_run on_msg s steps wakeups s1 \<Longrightarrow> blocking_step on_msg s1 s2 \<Longrightarrow>
     blocking_run on_msg s (steps + 1) (if wakes_spuriously s1 s2 then wakeups + 1 else wakeups) s2"

lemma blocking_run_inv:
  assumes "blocking_run on_msg s steps wakeups s'"
    and "blocking_inv on_msg capacity messages b s" and "blocking_calls s"
  shows "blocking_inv on_msg capacity messages b s' \<and> blocking_calls s' \<and>
    steps + blocking_work s' \<le> blocking_work s + 2 * wakeups"
  using assms(1)
proof induction
  case no_step
  with assms(2,3) show ?case by simp
next
  case (one_step steps wakeups s1 s2)
  then have inv: "blocking_inv on_msg capacity messages b s1" "blocking_calls s1"
    and bound: "steps + blocking_work s1 \<le> blocking_work s + 2 * wakeups" by simp_all
  have "blocking_work s2 < blocking_work s1 \<or> wakes_spuriously s1 s2"
    by (rule blocking_step_work [OF one_step(2) inv(2), of messages]) (use inv(1) in \<open>simp add: blocking_inv_def\<close>)
  then show ?case
    using blocking_step_inv [OF one_step(2) inv(1)] blocking_calls_step [OF one_step(2) inv(2)] bound
      wakes_spuriously_work [of s1 s2] by auto
qed

lemma blocking_work_bound:
  assumes "blocking_inv on_msg capacity messages b s"
  shows "blocking_work s \<le> 8 * length messages + 13"
proof -
  have "length (mq_items (the_queue (bqueue s))) + length (btodo s) \<le> length messages"
    using assms by (auto simp: blocking_inv_defs queue_inv_def)
  moreover have "call_work th \<le> 2" for th :: "envelope thread" by (cases th) simp_all
  then have "call_work (threads (bqueue s) 0) + call_work (threads (bqueue s) 1) \<le> 4"
    by (metis add_mono numeral_Bit0)
  ultimately show ?thesis
    by (simp add: blocking_work_def queue_work_def split: blocking_producer.split blocking_consumer.split)
qed

lemma blocking_reachable_calls:
  "blocking_reachable on_msg capacity messages b s \<Longrightarrow> blocking_calls s"
  by (induction rule: blocking_reachable.induct) (auto intro: blocking_calls_new blocking_calls_step)

section \<open>Properties\<close>

text \<open>
  Property C21. The blocking program terminates under every scheduler, with no assumption of fairness: with
  a capacity above 0, from any state it can reach, a run of more than 8n + 13 steps has spurious wake-ups
  in it, at least one for every two of the steps in excess; and as long as the producer has not closed the
  queue and the consumer not drained it, some step that is not a spurious wake-up is possible.
\<close>

theorem producer_consumer_terminates:
  assumes "producer_consumer_benchmark wall n capacity s" and "0 < capacity"
    and "blocking_run on_message s steps wakeups s'"
  shows "steps \<le> 8 * unat n + 13 + 2 * wakeups \<and>
     (bproducer s' = Closed \<and> bconsumer s' = Drained \<or>
      (\<exists>s''. blocking_step on_message s' s'' \<and> \<not> wakes_spuriously s' s''))"
proof -
  let ?ms = "generated wall n (map of_char ''AAPL'')"
  note reach = assms(1) [unfolded producer_consumer_benchmark_def]
  note inv = blocking_reachable_inv [OF reach]
  obtain b where b: "feed on_message ?ms empty_book = Inr b"
    using base.feed_ok [OF book_rel_empty replay_shallow [OF order_refl]] by blast
  note run = blocking_run_inv [OF assms(3) inv blocking_reachable_calls [OF reach]]
  have "blocking_work s \<le> 8 * unat n + 13"
    using blocking_work_bound [OF inv] unfolding generated_ok(1) .
  with run have "steps \<le> 8 * unat n + 13 + 2 * wakeups" by linarith
  moreover have "\<exists>s''. blocking_step on_message s' s'' \<and> \<not> wakes_spuriously s' s''"
    if "\<not> (bproducer s' = Closed \<and> bconsumer s' = Drained)"
    using blocking_works [OF _ _ b assms(2) that] run wakes_spuriously_work(1) [of s'] by (meson not_less)
  ultimately show ?thesis by blast
qed

theorem producer_consumer_terminates_witness:
  "\<exists>s s''. producer_consumer_benchmark (\<lambda>_. 7) 3 1 s \<and> blocking_step on_message s s'' \<and>
     \<not> wakes_spuriously s s''"
proof -
  let ?s = "blocking_new 1 (generated (\<lambda>_. 7) 3 (map of_char ''AAPL'')) empty_book 0 0"
  have "producer_consumer_benchmark (\<lambda>_. 7) 3 1 ?s"
    unfolding producer_consumer_benchmark_def by (rule b_start)
  with producer_consumer_terminates [OF this _ no_step] show ?thesis
    by (auto simp: blocking_new_def)
qed

end
