(* ===== verification/Sockets.thy ===== *)
theory Sockets
  imports Prelude "HOL-Library.Signed_Division"
begin

unbundle bit_operations_syntax

text \<open>
  The socket helpers of \<open>src/socket_utils.cpp\<close>, the thread helpers of \<open>src/thread_utils.cpp\<close> and
  the functions of the two feed programs that open sockets. The kernel is a parameter: a record of
  the system calls the sources use, each a function of the kernel's state as the calling thread sees
  it. What the code relies on is stated by the predicates of the section on contracts.
\<close>

section \<open>System calls\<close>

datatype errno = EINTR | Other_Errno nat

datatype sock_type = SOCK_STREAM | SOCK_DGRAM

text \<open>A socket option with the value passed for it; a \<open>timeval\<close> is seconds and microseconds.\<close>

datatype sock_option =
    TCP_NODELAY int
  | SO_SNDBUF int
  | SO_RCVBUF int
  | SO_REUSEADDR int
  | SO_RCVTIMEO int int

text \<open>An IPv4 address; the port is in network byte order, as in \<open>sockaddr_in\<close>.\<close>

record sockaddr_in =
  sin_addr :: u32
  sin_port :: u16

record 'k os =
  os_socket :: "sock_type \<Rightarrow> 'k \<Rightarrow> int \<times> 'k"
  os_setsockopt :: "int \<Rightarrow> sock_option \<Rightarrow> 'k \<Rightarrow> int \<times> 'k"
  os_bind :: "int \<Rightarrow> sockaddr_in \<Rightarrow> 'k \<Rightarrow> int \<times> 'k"
  os_listen :: "int \<Rightarrow> int \<Rightarrow> 'k \<Rightarrow> int \<times> 'k"
  os_connect :: "int \<Rightarrow> sockaddr_in \<Rightarrow> 'k \<Rightarrow> int \<times> 'k"
  os_accept :: "int \<Rightarrow> 'k \<Rightarrow> int \<times> 'k"
  os_getsockname :: "int \<Rightarrow> 'k \<Rightarrow> (int \<times> sockaddr_in) \<times> 'k"
  os_getfl :: "int \<Rightarrow> 'k \<Rightarrow> u32 \<times> 'k"
  os_setfl :: "int \<Rightarrow> u32 \<Rightarrow> 'k \<Rightarrow> int \<times> 'k"
  os_send :: "int \<Rightarrow> u8 list \<Rightarrow> 'k \<Rightarrow> int \<times> 'k"
  os_sendto :: "int \<Rightarrow> u8 list \<Rightarrow> sockaddr_in \<Rightarrow> 'k \<Rightarrow> int \<times> 'k"
  os_recv :: "int \<Rightarrow> nat \<Rightarrow> 'k \<Rightarrow> (int \<times> u8 list) \<times> 'k"
  os_shutdown :: "int \<Rightarrow> 'k \<Rightarrow> 'k"
  os_close :: "int \<Rightarrow> 'k \<Rightarrow> 'k"
  os_errno :: "'k \<Rightarrow> errno"
  os_setaffinity :: "1024 word \<Rightarrow> 'k \<Rightarrow> int \<times> 'k"
  os_getcpu :: "'k \<Rightarrow> int \<times> 'k"

text \<open>\<open>htons\<close> and \<open>ntohs\<close> on a little-endian machine.\<close>

definition swap_bytes :: "u16 \<Rightarrow> u16" where
  "swap_bytes w = push_bit 8 w OR drop_bit 8 w"

lemma swap_bytes_inv [simp]: "swap_bytes (swap_bytes w) = w"
  by (rule bit_word_eqI) (auto simp: swap_bytes_def bit_simps dest: bit_imp_le_length)

section \<open>Options\<close>

definition set_tcp_no_delay :: "'k os \<Rightarrow> int \<Rightarrow> bool \<Rightarrow> 'k \<Rightarrow> bool \<times> 'k" where
  "set_tcp_no_delay os fd enabled k =
     (let (r, k') = os_setsockopt os fd (TCP_NODELAY (if enabled then 1 else 0)) k
      in (r = 0, k'))"

definition set_socket_send_buffer :: "'k os \<Rightarrow> int \<Rightarrow> int \<Rightarrow> 'k \<Rightarrow> bool \<times> 'k" where
  "set_socket_send_buffer os fd bytes k =
     (if bytes \<le> 0 then (True, k)
      else let (r, k') = os_setsockopt os fd (SO_SNDBUF bytes) k in (r = 0, k'))"

definition set_socket_receive_buffer :: "'k os \<Rightarrow> int \<Rightarrow> int \<Rightarrow> 'k \<Rightarrow> bool \<times> 'k" where
  "set_socket_receive_buffer os fd bytes k =
     (if bytes \<le> 0 then (True, k)
      else let (r, k') = os_setsockopt os fd (SO_RCVBUF bytes) k in (r = 0, k'))"

definition O_NONBLOCK :: u32 where
  "O_NONBLOCK = 2048"

definition set_non_blocking :: "'k os \<Rightarrow> int \<Rightarrow> bool \<Rightarrow> 'k \<Rightarrow> bool \<times> 'k" where
  "set_non_blocking os fd enabled k =
     (let (flags, k1) = os_getfl os fd k
      in if sint flags < 0 then (False, k1)
         else let updated_flags = (if enabled then flags OR O_NONBLOCK else flags AND NOT O_NONBLOCK);
                  (r, k2) = os_setfl os fd updated_flags k1
              in (r = 0, k2))"

section \<open>Whole transfers\<close>

text \<open>
  The loop of \<open>send_all\<close>, from \<open>sent\<close> bytes on; \<open>None\<close> is a loop that never ends. A buffer is
  shorter than \<open>2 ^ 64\<close> bytes, so \<open>sent\<close> does not wrap.
\<close>

partial_function (option) send_loop ::
  "'k os \<Rightarrow> int \<Rightarrow> u8 list \<Rightarrow> nat \<Rightarrow> 'k \<Rightarrow> (bool \<times> 'k) option" where
  "send_loop os fd data sent k =
     (if sent < length data
      then (case os_send os fd (drop sent data) k of (r, k') \<Rightarrow>
        if r > 0 then send_loop os fd data (sent + nat r) k'
        else if r < 0 \<and> os_errno os k' = EINTR then send_loop os fd data sent k'
        else Some (False, k'))
      else Some (True, k))"

definition send_all :: "'k os \<Rightarrow> int \<Rightarrow> u8 list \<Rightarrow> 'k \<Rightarrow> (bool \<times> 'k) option" where
  "send_all os fd data k = send_loop os fd data 0 k"

text \<open>The loop of \<open>recv_all\<close>: the received bytes overwrite the buffer from \<open>received\<close> on.\<close>

partial_function (option) recv_loop ::
  "'k os \<Rightarrow> int \<Rightarrow> u8 list \<Rightarrow> nat \<Rightarrow> 'k \<Rightarrow> ((bool \<times> u8 list) \<times> 'k) option" where
  "recv_loop os fd data received k =
     (if received < length data
      then (case os_recv os fd (length data - received) k of ((r, bs), k') \<Rightarrow>
        if r > 0
        then recv_loop os fd (take received data @ bs @ drop (received + length bs) data)
               (received + nat r) k'
        else if r < 0 \<and> os_errno os k' = EINTR then recv_loop os fd data received k'
        else Some ((False, data), k'))
      else Some ((True, data), k))"

definition recv_all :: "'k os \<Rightarrow> int \<Rightarrow> u8 list \<Rightarrow> 'k \<Rightarrow> ((bool \<times> u8 list) \<times> 'k) option" where
  "recv_all os fd data k = recv_loop os fd data 0 k"

definition get_bound_port :: "'k os \<Rightarrow> int \<Rightarrow> 'k \<Rightarrow> int \<times> 'k" where
  "get_bound_port os fd k =
     (let ((r, address), k') = os_getsockname os fd k
      in (if r \<noteq> 0 then - 1 else uint (swap_bytes (sin_port address)), k'))"

definition close_socket :: "'k os \<Rightarrow> int \<Rightarrow> 'k \<Rightarrow> 'k" where
  "close_socket os fd k = (if fd \<ge> 0 then os_close os fd k else k)"

section \<open>Threads\<close>

text \<open>\<open>CPU_SET\<close> sets one bit of a mask of 1024 and ignores a CPU beyond it.\<close>

definition pin_thread_to_cpu :: "'k os \<Rightarrow> int \<Rightarrow> 'k \<Rightarrow> bool \<times> 'k" where
  "pin_thread_to_cpu os cpu_id k =
     (if cpu_id < 0 then (False, k)
      else let (r, k') = os_setaffinity os (set_bit (nat cpu_id) 0) k in (r = 0, k'))"

definition get_current_cpu :: "'k os \<Rightarrow> 'k \<Rightarrow> int \<times> 'k" where
  "get_current_cpu os k = os_getcpu os k"

section \<open>Opening sockets\<close>

text \<open>\<open>127.0.0.1\<close>, in network byte order on a little-endian machine; a \<open>throw\<close> is the left side.\<close>

definition loopback :: "u16 \<Rightarrow> sockaddr_in" where
  "loopback port = \<lparr>sin_addr = 0x0100007F, sin_port = swap_bytes port\<rparr>"

definition loopback_port_auto :: u16 where
  "loopback_port_auto = 0"

definition create_tcp_listener :: "'k os \<Rightarrow> int \<Rightarrow> 'k \<Rightarrow> (string + int) \<times> 'k" where
  "create_tcp_listener os receive_buffer_bytes k0 =
     (let (listen_fd, k1) = os_socket os SOCK_STREAM k0
      in if listen_fd < 0 then (Inl ''socket(AF_INET, SOCK_STREAM) failed'', k1)
         else let k2 = snd (os_setsockopt os listen_fd (SO_REUSEADDR 1) k1);
                  k3 = snd (set_socket_receive_buffer os listen_fd receive_buffer_bytes k2);
                  (b, k4) = os_bind os listen_fd (loopback loopback_port_auto) k3
              in if b \<noteq> 0 then (Inl ''bind() failed'', close_socket os listen_fd k4)
                 else let (l, k5) = os_listen os listen_fd 1 k4
                      in if l \<noteq> 0 then (Inl ''listen() failed'', close_socket os listen_fd k5)
                         else (Inr listen_fd, k5))"

definition connect_tcp_client :: "'k os \<Rightarrow> int \<Rightarrow> bool \<Rightarrow> int \<Rightarrow> 'k \<Rightarrow> (string + int) \<times> 'k" where
  "connect_tcp_client os port tcp_no_delay send_buffer_bytes k0 =
     (let (fd, k1) = os_socket os SOCK_STREAM k0
      in if fd < 0 then (Inl ''client socket() failed'', k1)
         else let k2 = snd (set_tcp_no_delay os fd tcp_no_delay k1);
                  k3 = snd (set_socket_send_buffer os fd send_buffer_bytes k2);
                  (c, k4) = os_connect os fd (loopback (of_int port)) k3
              in if c \<noteq> 0 then (Inl ''connect() failed'', close_socket os fd k4)
                 else (Inr fd, k4))"

text \<open>\<open>int\<close> division and remainder truncate towards zero.\<close>

definition create_udp_receiver :: "'k os \<Rightarrow> int \<Rightarrow> int \<Rightarrow> 'k \<Rightarrow> (string + int) \<times> 'k" where
  "create_udp_receiver os receive_buffer_bytes timeout_ms k0 =
     (let (fd, k1) = os_socket os SOCK_DGRAM k0
      in if fd < 0 then (Inl ''socket(AF_INET, SOCK_DGRAM) failed'', k1)
         else let k2 = snd (set_socket_receive_buffer os fd receive_buffer_bytes k1);
                  k3 = snd (os_setsockopt os fd
                    (SO_RCVTIMEO (timeout_ms sdiv 1000) ((timeout_ms smod 1000) * 1000)) k2);
                  (b, k4) = os_bind os fd (loopback loopback_port_auto) k3
              in if b \<noteq> 0 then (Inl ''UDP bind() failed'', close_socket os fd k4)
                 else (Inr fd, k4))"

definition create_udp_sender :: "'k os \<Rightarrow> int \<Rightarrow> 'k \<Rightarrow> (string + int) \<times> 'k" where
  "create_udp_sender os send_buffer_bytes k0 =
     (let (fd, k1) = os_socket os SOCK_DGRAM k0
      in if fd < 0 then (Inl ''UDP sender socket() failed'', k1)
         else (Inr fd, snd (set_socket_send_buffer os fd send_buffer_bytes k1)))"

text \<open>The main threads: open the receiving socket and find the port it was given.\<close>

definition open_receiver :: "'k os \<Rightarrow> string \<Rightarrow> (string + int) \<times> 'k \<Rightarrow> (string + int \<times> int) \<times> 'k" where
  "open_receiver os failure opened =
     (case opened of
        (Inl e, k) \<Rightarrow> (Inl e, k)
      | (Inr fd, k) \<Rightarrow>
          let (port, k') = get_bound_port os fd k
          in if port \<le> 0 then (Inl failure, close_socket os fd k') else (Inr (fd, port), k'))"

definition open_tcp_feed :: "'k os \<Rightarrow> int \<Rightarrow> 'k \<Rightarrow> (string + int \<times> int) \<times> 'k" where
  "open_tcp_feed os receive_buffer_bytes k =
     open_receiver os ''failed to discover listener port''
       (create_tcp_listener os receive_buffer_bytes k)"

definition open_udp_feed :: "'k os \<Rightarrow> int \<Rightarrow> int \<Rightarrow> 'k \<Rightarrow> (string + int \<times> int) \<times> 'k" where
  "open_udp_feed os receive_buffer_bytes timeout_ms k =
     open_receiver os ''failed to discover UDP receiver port''
       (create_udp_receiver os receive_buffer_bytes timeout_ms k)"

section \<open>Contracts of the system calls\<close>

text \<open>
  A connected stream socket to send on: \<open>out\<close> is what the kernel has accepted on it. As \<open>send\<close> documents,
  a positive result is a number of bytes taken from the front of the buffer, and any other result takes
  none.
\<close>

definition takes_front :: "'k os \<Rightarrow> int \<Rightarrow> ('k \<Rightarrow> u8 list) \<Rightarrow> bool" where
  "takes_front os fd out \<longleftrightarrow>
     (\<forall>buf k r k'. buf \<noteq> [] \<longrightarrow> os_send os fd buf k = (r, k') \<longrightarrow>
        (if 0 < r then nat r \<le> length buf \<and> out k' = out k @ take (nat r) buf else out k' = out k))"

text \<open>
  No manual promises that signals stop: that only finitely many calls in a row are interrupted is an
  assumption of its own, and what makes the retry loops end.
\<close>

definition signals_end :: "'k os \<Rightarrow> int \<Rightarrow> ('k \<Rightarrow> nat) \<Rightarrow> bool" where
  "signals_end os fd interrupts \<longleftrightarrow>
     (\<forall>buf k r k'. buf \<noteq> [] \<longrightarrow> os_send os fd buf k = (r, k') \<longrightarrow> r < 0 \<longrightarrow> os_errno os k' = EINTR \<longrightarrow>
        interrupts k' < interrupts k)"

text \<open>Both together.\<close>

definition stream_sender :: "'k os \<Rightarrow> int \<Rightarrow> ('k \<Rightarrow> u8 list) \<Rightarrow> ('k \<Rightarrow> nat) \<Rightarrow> bool" where
  "stream_sender os fd out interrupts \<longleftrightarrow>
     (\<forall>buf k r k'. buf \<noteq> [] \<longrightarrow> os_send os fd buf k = (r, k') \<longrightarrow>
        (if 0 < r then nat r \<le> length buf \<and> out k' = out k @ take (nat r) buf
         else out k' = out k \<and> (r < 0 \<and> os_errno os k' = EINTR \<longrightarrow> interrupts k' < interrupts k)))"

text \<open>
  A stream socket to receive from: \<open>inbox\<close> is what is still to come on it. A positive result is a
  number of bytes, at most the requested one, from the front of the stream. Again only finitely many
  calls in a row are interrupted.
\<close>

definition stream_receiver :: "'k os \<Rightarrow> int \<Rightarrow> ('k \<Rightarrow> u8 list) \<Rightarrow> ('k \<Rightarrow> nat) \<Rightarrow> bool" where
  "stream_receiver os fd inbox interrupts \<longleftrightarrow>
     (\<forall>n k r bs k'. 0 < n \<longrightarrow> os_recv os fd n k = ((r, bs), k') \<longrightarrow>
        (if 0 < r then nat r \<le> n \<and> length bs = nat r \<and> inbox k = bs @ inbox k'
         else inbox k' = inbox k \<and> (r < 0 \<and> os_errno os k' = EINTR \<longrightarrow> interrupts k' < interrupts k)))"

text \<open>The connection does not break: a \<open>recv\<close> without data is interrupted or at the end of the stream.\<close>

definition unbroken :: "'k os \<Rightarrow> int \<Rightarrow> ('k \<Rightarrow> u8 list) \<Rightarrow> bool" where
  "unbroken os fd inbox \<longleftrightarrow>
     (\<forall>n k r bs k'. 0 < n \<longrightarrow> os_recv os fd n k = ((r, bs), k') \<longrightarrow>
        r \<le> 0 \<longrightarrow> \<not> (r < 0 \<and> os_errno os k' = EINTR) \<longrightarrow> inbox k = [])"

text \<open>File descriptors: \<open>socket\<close> and \<open>accept\<close> open a new one, \<open>close\<close> closes one, no other call does.\<close>

definition new_descriptor :: "('k \<Rightarrow> int set) \<Rightarrow> 'k \<Rightarrow> int \<times> 'k \<Rightarrow> bool" where
  "new_descriptor fds k r \<longleftrightarrow>
     (if fst r < 0 then fds (snd r) = fds k
      else fst r \<notin> fds k \<and> fds (snd r) = insert (fst r) (fds k))"

definition descriptors :: "'k os \<Rightarrow> ('k \<Rightarrow> int set) \<Rightarrow> bool" where
  "descriptors os fds \<longleftrightarrow>
     (\<forall>ty k. new_descriptor fds k (os_socket os ty k)) \<and>
     (\<forall>l k. new_descriptor fds k (os_accept os l k)) \<and>
     (\<forall>fd k. fds (os_close os fd k) = fds k - {fd}) \<and>
     (\<forall>fd opt k. fds (snd (os_setsockopt os fd opt k)) = fds k) \<and>
     (\<forall>fd a k. fds (snd (os_bind os fd a k)) = fds k) \<and>
     (\<forall>fd n k. fds (snd (os_listen os fd n k)) = fds k) \<and>
     (\<forall>fd a k. fds (snd (os_connect os fd a k)) = fds k) \<and>
     (\<forall>fd k. fds (snd (os_getsockname os fd k)) = fds k) \<and>
     (\<forall>fd bs k. fds (snd (os_send os fd bs k)) = fds k) \<and>
     (\<forall>fd bs a k. fds (snd (os_sendto os fd bs a k)) = fds k) \<and>
     (\<forall>fd n k. fds (snd (os_recv os fd n k)) = fds k) \<and>
     (\<forall>fd k. fds (os_shutdown os fd k) = fds k) \<and>
     (\<forall>m k. fds (snd (os_setaffinity os m k)) = fds k) \<and>
     (\<forall>k. fds (snd (os_getcpu os k)) = fds k)"

section \<open>Transfers are whole\<close>

lemma stream_senderD:
  assumes "stream_sender os fd out interrupts" and "buf \<noteq> []" and "os_send os fd buf k = (r, k')"
  shows "if 0 < r then nat r \<le> length buf \<and> out k' = out k @ take (nat r) buf
    else out k' = out k \<and> (r < 0 \<and> os_errno os k' = EINTR \<longrightarrow> interrupts k' < interrupts k)"
  using assms unfolding stream_sender_def by blast

lemma stream_receiverD:
  assumes "stream_receiver os fd inbox interrupts" and "0 < n" and "os_recv os fd n k = ((r, bs), k')"
  shows "if 0 < r then nat r \<le> n \<and> length bs = nat r \<and> inbox k = bs @ inbox k'
    else inbox k' = inbox k \<and> (r < 0 \<and> os_errno os k' = EINTR \<longrightarrow> interrupts k' < interrupts k)"
  using assms unfolding stream_receiver_def by blast

lemma unbrokenD:
  "unbroken os fd inbox \<Longrightarrow> 0 < n \<Longrightarrow> os_recv os fd n k = ((r, bs), k') \<Longrightarrow> r \<le> 0 \<Longrightarrow>
   \<not> (r < 0 \<and> os_errno os k' = EINTR) \<Longrightarrow> inbox k = []"
  unfolding unbroken_def by blast

lemma stream_sender_parts:
  "stream_sender os fd out interrupts \<longleftrightarrow> takes_front os fd out \<and> signals_end os fd interrupts"
  unfolding stream_sender_def takes_front_def signals_end_def by (smt (verit) linorder_not_less order_less_asym)

lemma takes_frontD:
  "takes_front os fd out \<Longrightarrow> buf \<noteq> [] \<Longrightarrow> os_send os fd buf k = (r, k') \<Longrightarrow>
   if 0 < r then nat r \<le> length buf \<and> out k' = out k @ take (nat r) buf else out k' = out k"
  unfolding takes_front_def by blast

lemma signals_endD:
  "signals_end os fd interrupts \<Longrightarrow> buf \<noteq> [] \<Longrightarrow> os_send os fd buf k = (r, k') \<Longrightarrow> r < 0 \<Longrightarrow>
   os_errno os k' = EINTR \<Longrightarrow> interrupts k' < interrupts k"
  unfolding signals_end_def by blast

text \<open>The last call was a \<open>send\<close> of \<open>rest\<close> that failed for good.\<close>

definition gave_up :: "'k os \<Rightarrow> int \<Rightarrow> u8 list \<Rightarrow> 'k \<Rightarrow> bool" where
  "gave_up os fd rest k' \<longleftrightarrow>
     (\<exists>k r. os_send os fd rest k = (r, k') \<and> r \<le> 0 \<and> \<not> (r < 0 \<and> os_errno os k' = EINTR))"

definition sent_part :: "'k os \<Rightarrow> int \<Rightarrow> ('k \<Rightarrow> u8 list) \<Rightarrow> u8 list \<Rightarrow> nat \<Rightarrow> 'k \<Rightarrow> bool \<times> 'k \<Rightarrow> bool" where
  "sent_part os fd out data sent k r \<longleftrightarrow>
     (\<exists>n. sent \<le> n \<and> n \<le> length data \<and> out (snd r) = out k @ take (n - sent) (drop sent data) \<and>
        (fst r \<longleftrightarrow> n = length data) \<and> (\<not> fst r \<longrightarrow> gave_up os fd (drop n data) (snd r)))"

lemma sent_part_more:
  assumes "sent_part os fd out data (sent + m) k' r" and "out k' = out k @ take m (drop sent data)"
  shows "sent_part os fd out data sent k r"
proof -
  obtain n where n: "sent + m \<le> n" "n \<le> length data"
      "out (snd r) = out k' @ take (n - (sent + m)) (drop (sent + m) data)"
      "fst r \<longleftrightarrow> n = length data" "\<not> fst r \<longrightarrow> gave_up os fd (drop n data) (snd r)"
    using assms(1) unfolding sent_part_def by blast
  have "take (n - sent) (drop sent data) =
      take m (drop sent data) @ take (n - (sent + m)) (drop (sent + m) data)"
    using n(1) take_add [of m "n - (sent + m)" "drop sent data"] by (simp add: add.commute)
  with n assms(2) show ?thesis unfolding sent_part_def by (intro exI [of _ n]) simp
qed

lemma send_loop_partial:
  assumes "takes_front os fd out" and "sent \<le> length data" and "send_loop os fd data sent k = Some r"
  shows "sent_part os fd out data sent k r"
proof -
  have "takes_front os fd out \<longrightarrow> sent \<le> length data \<longrightarrow> sent_part os fd out data sent k r"
  proof (rule send_loop.raw_induct [where P = "\<lambda>os fd data sent k r. takes_front os fd out \<longrightarrow>
      sent \<le> length data \<longrightarrow> sent_part os fd out data sent k r", OF _ assms(3)])
    fix f :: "'a os \<Rightarrow> int \<Rightarrow> u8 list \<Rightarrow> nat \<Rightarrow> 'a \<Rightarrow> (bool \<times> 'a) option" and os fd data sent k r
    assume IH: "\<And>os fd data sent k r. f os fd data sent k = Some r \<Longrightarrow>
        takes_front os fd out \<longrightarrow> sent \<le> length data \<longrightarrow> sent_part os fd out data sent k r"
      and eq: "(if sent < length data
        then (case os_send os fd (drop sent data) k of (r, k') \<Rightarrow>
          if r > 0 then f os fd data (sent + nat r) k'
          else if r < 0 \<and> os_errno os k' = EINTR then f os fd data sent k'
          else Some (False, k'))
        else Some (True, k)) = Some r"
    obtain n k' where call: "os_send os fd (drop sent data) k = (n, k')" by fastforce
    show "takes_front os fd out \<longrightarrow> sent \<le> length data \<longrightarrow> sent_part os fd out data sent k r"
    proof (intro impI)
      assume os: "takes_front os fd out" and le: "sent \<le> length data"
      have law: "sent < length data \<Longrightarrow> if 0 < n then nat n \<le> length data - sent \<and>
          out k' = out k @ take (nat n) (drop sent data) else out k' = out k"
        using takes_frontD [OF os _ call] by (auto split: if_splits)
      consider "sent = length data" "r = (True, k)"
        | "sent < length data" "0 < n" "f os fd data (sent + nat n) k' = Some r"
        | "sent < length data" "n < 0" "f os fd data (sent + 0) k' = Some r"
        | "sent < length data" "n \<le> 0" "\<not> (n < 0 \<and> os_errno os k' = EINTR)" "r = (False, k')"
        using eq le unfolding call prod.case by (force split: if_splits)
      then show "sent_part os fd out data sent k r"
      proof cases
        case 2
        then have "nat n \<le> length data - sent" using law by simp
        then have "sent + nat n \<le> length data" using le by linarith
        from sent_part_more [OF IH [OF 2(3), THEN mp, THEN mp, OF os this]] law 2 show ?thesis by simp
      next
        case 3
        from sent_part_more [OF IH [OF 3(3), THEN mp, THEN mp, OF os]] law 3 le show ?thesis by simp
      next
        case 4
        then have "gave_up os fd (drop sent data) k'" using call unfolding gave_up_def by blast
        with law 4 show ?thesis unfolding sent_part_def by (intro exI [of _ sent]) simp
      qed (auto simp: sent_part_def)
    qed
  qed
  with assms(1,2) show ?thesis by blast
qed

lemma send_loop_returns:
  assumes "takes_front os fd out" and "signals_end os fd interrupts"
  shows "\<exists>r. send_loop os fd data sent k = Some r"
proof (induction "(length data - sent, interrupts k)" arbitrary: sent k
    rule: wf_induct_rule [OF wf_lex_prod [OF wf_less_than wf_less_than]])
  case 1
  obtain r k' where r: "os_send os fd (drop sent data) k = (r, k')" by fastforce
  have "interrupts k' < interrupts k" if "sent < length data" "r < 0" "os_errno os k' = EINTR"
    using signals_endD [OF assms(2) _ r that(2,3)] that(1) by simp
  then have "\<exists>x. send_loop os fd data sent k' = Some x" if "sent < length data" "r < 0" "os_errno os k' = EINTR"
    using 1 [of sent k'] that by simp
  moreover have "\<exists>x. send_loop os fd data (sent + nat r) k' = Some x" if "sent < length data" "0 < r"
  proof -
    have "0 < nat r" using that(2) by simp
    with that(1) have "length data - (sent + nat r) < length data - sent" by linarith
    then show ?thesis by (intro 1) simp
  qed
  ultimately show ?case by (subst send_loop.simps) (auto simp: r)
qed

lemma send_all_spec:
  assumes "stream_sender os fd out interrupts"
  obtains ok n k' where "send_all os fd data k = Some (ok, k')" and "n \<le> length data"
    and "out k' = out k @ take n data" and "ok \<longleftrightarrow> n = length data"
proof -
  have os: "takes_front os fd out" "signals_end os fd interrupts" using assms by (simp_all add: stream_sender_parts)
  obtain ok k' where r: "send_loop os fd data 0 k = Some (ok, k')"
    using send_loop_returns [OF os, of data 0 k] by auto
  from send_loop_partial [OF os(1) _ r] that r show thesis by (auto simp: sent_part_def send_all_def)
qed

lemma recv_loop_spec:
  assumes "stream_receiver os fd inbox interrupts" and "received \<le> length data"
  shows "\<exists>ok got data' k'. recv_loop os fd data received k = Some ((ok, data'), k') \<and>
     inbox k = got @ inbox k' \<and> received + length got \<le> length data \<and>
     data' = take received data @ got @ drop (received + length got) data \<and>
     (ok \<longleftrightarrow> received + length got = length data) \<and>
     (unbroken os fd inbox \<longrightarrow> \<not> ok \<longrightarrow> inbox k' = [])"
  using assms(2)
proof (induction "(length data - received, interrupts k)" arbitrary: received data k
    rule: wf_induct_rule [OF wf_lex_prod [OF wf_less_than wf_less_than]])
  case 1
  show ?case
  proof (cases "received < length data")
    case False
    then show ?thesis using 1(2) by (subst recv_loop.simps) auto
  next
    case True
    obtain r bs k' where r: "os_recv os fd (length data - received) k = ((r, bs), k')"
      by (metis surj_pair)
    have law: "if 0 < r then nat r \<le> length data - received \<and> length bs = nat r \<and> inbox k = bs @ inbox k'
        else inbox k' = inbox k \<and> (r < 0 \<and> os_errno os k' = EINTR \<longrightarrow> interrupts k' < interrupts k)"
      using stream_receiverD [OF assms(1) _ r] True by (simp split: if_splits)
    show ?thesis
    proof (cases "0 < r")
      case pos: True
      let ?data = "take received data @ bs @ drop (received + length bs) data"
      have bs: "length bs = nat r" "inbox k = bs @ inbox k'" "received + nat r \<le> length data"
        using law pos True by auto
      then have len: "length ?data = length data" by simp
      have "((length ?data - (received + nat r), interrupts k'), (length data - received, interrupts k))
          \<in> less_than <*lex*> less_than" using len pos True by auto
      moreover have "received + nat r \<le> length ?data" using len bs(3) by simp
      ultimately obtain ok got data' k'' where
          rec: "recv_loop os fd ?data (received + nat r) k' = Some ((ok, data'), k'')"
          "inbox k' = got @ inbox k''" "received + nat r + length got \<le> length data"
          "data' = take (received + nat r) ?data @ got @ drop (received + nat r + length got) ?data"
          "ok \<longleftrightarrow> received + nat r + length got = length data"
          "unbroken os fd inbox \<longrightarrow> \<not> ok \<longrightarrow> inbox k'' = []"
        using 1(1) [of ?data "received + nat r" k'] unfolding len by blast
      have "data' = take received data @ (bs @ got) @ drop (received + length (bs @ got)) data"
        using rec(4) bs by (simp add: ac_simps)
      moreover have "recv_loop os fd data received k = recv_loop os fd ?data (received + nat r) k'"
        using True r pos by (subst recv_loop.simps) simp
      ultimately show ?thesis
        using rec(1,2,3,5,6) bs by (intro exI [of _ ok] exI [of _ "bs @ got"] exI [of _ data'] exI [of _ k''])
          (simp add: add.assoc)
    next
      case neg: False
      show ?thesis
      proof (cases "r < 0 \<and> os_errno os k' = EINTR")
        case intr: True
        with law neg have "((length data - received, interrupts k'), (length data - received, interrupts k))
            \<in> less_than <*lex*> less_than" by auto
        from 1(1) [OF this 1(2)] obtain ok got data' k'' where
          "recv_loop os fd data received k' = Some ((ok, data'), k'')"
          "inbox k' = got @ inbox k''" "received + length got \<le> length data"
          "data' = take received data @ got @ drop (received + length got) data"
          "ok \<longleftrightarrow> received + length got = length data"
          "unbroken os fd inbox \<longrightarrow> \<not> ok \<longrightarrow> inbox k'' = []" by blast
        moreover have "recv_loop os fd data received k = recv_loop os fd data received k'"
          using True r neg intr by (subst recv_loop.simps) simp
        moreover have "inbox k' = inbox k" using law neg by simp
        ultimately show ?thesis by (intro exI [of _ ok] exI [of _ got] exI [of _ data'] exI [of _ k'']) simp
      next
        case False
        have "unbroken os fd inbox \<Longrightarrow> inbox k = []"
          using unbrokenD [OF _ _ r] True False neg by simp
        moreover have "recv_loop os fd data received k = Some ((False, data), k')"
          using True False r neg by (subst recv_loop.simps) auto
        moreover have "inbox k' = inbox k" using law neg by simp
        ultimately show ?thesis
          using True by (intro exI [of _ False] exI [of _ "[]"] exI [of _ data] exI [of _ k']) simp
      qed
    qed
  qed
qed

lemma recv_all_spec:
  assumes "stream_receiver os fd inbox interrupts"
  obtains ok got data' k' where "recv_all os fd data k = Some ((ok, data'), k')"
    and "inbox k = got @ inbox k'" and "length got \<le> length data"
    and "data' = got @ drop (length got) data" and "ok \<longleftrightarrow> length got = length data"
    and "unbroken os fd inbox \<longrightarrow> \<not> ok \<longrightarrow> inbox k' = []"
  using recv_loop_spec [OF assms, of 0 data k] by (auto simp: recv_all_def)

section \<open>No descriptor is lost\<close>

lemma descriptorsD:
  assumes "descriptors os fds"
  shows "new_descriptor fds k (os_socket os ty k)"
    and "new_descriptor fds k (os_accept os fd k)"
    and "fds (os_close os fd k) = fds k - {fd}"
    and "fds (snd (os_setsockopt os fd opt k)) = fds k"
    and "fds (snd (os_bind os fd a k)) = fds k"
    and "fds (snd (os_listen os fd n k)) = fds k"
    and "fds (snd (os_connect os fd a k)) = fds k"
    and "fds (snd (os_getsockname os fd k)) = fds k"
    and "fds (snd (os_send os fd bs k)) = fds k"
    and "fds (snd (os_sendto os fd bs a k)) = fds k"
    and "fds (snd (os_recv os fd m k)) = fds k"
    and "fds (os_shutdown os fd k) = fds k"
    and "fds (snd (os_setaffinity os cpus k)) = fds k"
    and "fds (snd (os_getcpu os k)) = fds k"
  using assms by (simp_all add: descriptors_def)

lemma descriptors_helpers:
  assumes "descriptors os fds"
  shows "fds (snd (set_tcp_no_delay os fd enabled k)) = fds k"
    and "fds (snd (set_socket_send_buffer os fd bytes k)) = fds k"
    and "fds (snd (set_socket_receive_buffer os fd bytes k)) = fds k"
    and "fds (snd (get_bound_port os fd k)) = fds k"
    and "fds (snd (pin_thread_to_cpu os cpu k)) = fds k"
    and "fds (snd (get_current_cpu os k)) = fds k"
    and "fds (close_socket os fd k) = (if 0 \<le> fd then fds k - {fd} else fds k)"
  by (simp_all add: set_tcp_no_delay_def set_socket_send_buffer_def set_socket_receive_buffer_def
      get_bound_port_def pin_thread_to_cpu_def get_current_cpu_def close_socket_def case_prod_beta
      Let_def descriptorsD [OF assms])

text \<open>The outcome of a call that opens a socket or throws: one new descriptor, or none.\<close>

definition opens :: "('k \<Rightarrow> int set) \<Rightarrow> 'k \<Rightarrow> (string + int) \<times> 'k \<Rightarrow> bool" where
  "opens fds k opened \<longleftrightarrow>
     (case fst opened of
        Inl e \<Rightarrow> fds (snd opened) = fds k
      | Inr fd \<Rightarrow> 0 \<le> fd \<and> fd \<notin> fds k \<and> fds (snd opened) = insert fd (fds k))"

lemma opens_socket:
  assumes "descriptors os fds"
  shows "opens fds k (create_tcp_listener os bytes k)"
    and "opens fds k (connect_tcp_client os port no_delay bytes k)"
    and "opens fds k (create_udp_receiver os bytes ms k)"
    and "opens fds k (create_udp_sender os bytes k)"
proof -
  note facts = descriptorsD [OF assms] descriptors_helpers [OF assms]
  note new = facts(1) [of k, unfolded new_descriptor_def]
  show "opens fds k (create_tcp_listener os bytes k)"
    using new [of SOCK_STREAM]
    by (simp add: opens_def create_tcp_listener_def Let_def case_prod_beta facts split: if_splits)
  show "opens fds k (connect_tcp_client os port no_delay bytes k)"
    using new [of SOCK_STREAM]
    by (simp add: opens_def connect_tcp_client_def Let_def case_prod_beta facts split: if_splits)
  show "opens fds k (create_udp_receiver os bytes ms k)"
    using new [of SOCK_DGRAM]
    by (simp add: opens_def create_udp_receiver_def Let_def case_prod_beta facts split: if_splits)
  show "opens fds k (create_udp_sender os bytes k)"
    using new [of SOCK_DGRAM]
    by (simp add: opens_def create_udp_sender_def Let_def case_prod_beta facts split: if_splits)
qed

lemma open_receiver_opens:
  assumes "descriptors os fds" and "opens fds k opened"
  shows "case open_receiver os failure opened of
      (Inl e, k') \<Rightarrow> fds k' = fds k
    | (Inr (fd, port), k') \<Rightarrow>
        0 < port \<and> port < 2 ^ 16 \<and> 0 \<le> fd \<and> fd \<notin> fds k \<and> fds k' = insert fd (fds k)"
proof (cases opened)
  case (Pair x k1)
  show ?thesis
  proof (cases x)
    case (Inl e)
    with Pair assms(2) show ?thesis by (simp add: opens_def open_receiver_def)
  next
    case (Inr fd)
    obtain port k' where port: "get_bound_port os fd k1 = (port, k')" by fastforce
    have "port < 2 ^ 16"
      using port uint_bounded [of "swap_bytes (sin_port (snd (fst (os_getsockname os fd k1))))"]
      by (auto simp: get_bound_port_def case_prod_beta Let_def split: if_splits)
    moreover have "fds k' = fds k1"
      using descriptors_helpers(4) [OF assms(1), of fd k1] port by simp
    ultimately show ?thesis
      using Pair Inr assms(2) port
      by (auto simp: opens_def open_receiver_def descriptors_helpers(7) [OF assms(1)])
  qed
qed

text \<open>The transfer loops neither open nor close a descriptor.\<close>

lemma send_loop_fds:
  assumes "descriptors os fds" and "send_loop os fd data sent k = Some r"
  shows "fds (snd r) = fds k"
proof -
  have "descriptors os fds \<longrightarrow> fds (snd r) = fds k"
  proof (rule send_loop.raw_induct [where P = "\<lambda>os fd data sent k r. descriptors os fds \<longrightarrow>
      fds (snd r) = fds k", OF _ assms(2)])
    fix f :: "'a os \<Rightarrow> int \<Rightarrow> u8 list \<Rightarrow> nat \<Rightarrow> 'a \<Rightarrow> (bool \<times> 'a) option" and os fd data sent k r
    assume IH: "\<And>os fd data sent k r. f os fd data sent k = Some r \<Longrightarrow>
        descriptors os fds \<longrightarrow> fds (snd r) = fds k"
      and eq: "(if sent < length data
        then (case os_send os fd (drop sent data) k of (r, k') \<Rightarrow>
          if r > 0 then f os fd data (sent + nat r) k'
          else if r < 0 \<and> os_errno os k' = EINTR then f os fd data sent k'
          else Some (False, k'))
        else Some (True, k)) = Some r"
    obtain n k' where call: "os_send os fd (drop sent data) k = (n, k')" by fastforce
    show "descriptors os fds \<longrightarrow> fds (snd r) = fds k"
    proof
      assume d: "descriptors os fds"
      have same: "fds k' = fds k" using descriptorsD(9) [OF d, of fd "drop sent data" k] call by simp
      consider "f os fd data (sent + nat n) k' = Some r" | "f os fd data sent k' = Some r"
        | "r = (False, k')" | "r = (True, k)"
        using eq unfolding call prod.case by (metis option.inject)
      then show "fds (snd r) = fds k"
        using same IH [THEN mp, OF _ d] by cases auto
    qed
  qed
  with assms(1) show ?thesis by blast
qed

lemma recv_loop_fds:
  assumes "descriptors os fds" and "recv_loop os fd data received k = Some r"
  shows "fds (snd r) = fds k"
proof -
  have "descriptors os fds \<longrightarrow> fds (snd r) = fds k"
  proof (rule recv_loop.raw_induct [where P = "\<lambda>os fd data received k r. descriptors os fds \<longrightarrow>
      fds (snd r) = fds k", OF _ assms(2)])
    fix f :: "'a os \<Rightarrow> int \<Rightarrow> u8 list \<Rightarrow> nat \<Rightarrow> 'a \<Rightarrow> ((bool \<times> u8 list) \<times> 'a) option"
      and os fd data received k r
    assume IH: "\<And>os fd data received k r. f os fd data received k = Some r \<Longrightarrow>
        descriptors os fds \<longrightarrow> fds (snd r) = fds k"
      and eq: "(if received < length data
        then (case os_recv os fd (length data - received) k of ((r, bs), k') \<Rightarrow>
          if r > 0
          then f os fd (take received data @ bs @ drop (received + length bs) data) (received + nat r) k'
          else if r < 0 \<and> os_errno os k' = EINTR then f os fd data received k'
          else Some ((False, data), k'))
        else Some ((True, data), k)) = Some r"
    obtain n bs k' where call: "os_recv os fd (length data - received) k = ((n, bs), k')"
      by (metis surj_pair)
    show "descriptors os fds \<longrightarrow> fds (snd r) = fds k"
    proof
      assume d: "descriptors os fds"
      have same: "fds k' = fds k"
        using descriptorsD(11) [OF d, of fd "length data - received" k] call by simp
      consider "f os fd (take received data @ bs @ drop (received + length bs) data)
            (received + nat n) k' = Some r"
        | "f os fd data received k' = Some r" | "r = ((False, data), k')" | "r = ((True, data), k)"
        using eq unfolding call prod.case by (metis option.inject)
      then show "fds (snd r) = fds k"
        using same IH [THEN mp, OF _ d] by cases auto
    qed
  qed
  with assms(1) show ?thesis by blast
qed

section \<open>A small kernel\<close>

text \<open>
  A kernel that satisfies the contracts, on which the theorems are run: it moves at most \<open>chunk\<close>
  bytes per call, interrupts the first \<open>signals\<close> calls, and hands out increasing descriptors.
\<close>

record small_kernel =
  sent_bytes :: "u8 list"
  coming_bytes :: "u8 list"
  sent_datagrams :: "u8 list list"
  coming_datagrams :: "u8 list list"
  signals :: nat
  open_fds :: "int list"

definition small_open :: "small_kernel \<Rightarrow> int \<times> small_kernel" where
  "small_open k =
     (let fd = foldr max (open_fds k) 2 + 1 in (fd, k\<lparr>open_fds := fd # open_fds k\<rparr>))"

definition small_send :: "nat \<Rightarrow> u8 list \<Rightarrow> small_kernel \<Rightarrow> int \<times> small_kernel" where
  "small_send chunk bs k =
     (if 0 < signals k then (- 1, k\<lparr>signals := signals k - 1\<rparr>)
      else (int (min chunk (length bs)), k\<lparr>sent_bytes := sent_bytes k @ take chunk bs\<rparr>))"

definition small_recv :: "nat \<Rightarrow> nat \<Rightarrow> small_kernel \<Rightarrow> (int \<times> u8 list) \<times> small_kernel" where
  "small_recv chunk n k =
     (if 0 < signals k then ((- 1, []), k\<lparr>signals := signals k - 1\<rparr>)
      else (let bs = take (min chunk n) (coming_bytes k)
            in ((int (length bs), bs), k\<lparr>coming_bytes := drop (min chunk n) (coming_bytes k)\<rparr>)))"

definition small_os :: "nat \<Rightarrow> small_kernel os" where
  "small_os chunk =
     \<lparr>os_socket = \<lambda>ty. small_open, os_setsockopt = \<lambda>fd opt k. (0, k), os_bind = \<lambda>fd a k. (0, k),
      os_listen = \<lambda>fd n k. (0, k), os_connect = \<lambda>fd a k. (0, k), os_accept = \<lambda>fd. small_open,
      os_getsockname = \<lambda>fd k. ((0, loopback 40000), k), os_getfl = \<lambda>fd k. (0, k),
      os_setfl = \<lambda>fd w k. (0, k), os_send = \<lambda>fd. small_send chunk,
      os_sendto = \<lambda>fd bs a k. (int (length bs), k\<lparr>sent_datagrams := sent_datagrams k @ [bs]\<rparr>),
      os_recv = \<lambda>fd. small_recv chunk, os_shutdown = \<lambda>fd k. k,
      os_close = \<lambda>fd k. k\<lparr>open_fds := removeAll fd (open_fds k)\<rparr>, os_errno = \<lambda>k. EINTR,
      os_setaffinity = \<lambda>m k. (0, k), os_getcpu = \<lambda>k. (0, k)\<rparr>"

definition small_new :: "u8 list \<Rightarrow> u8 list list \<Rightarrow> small_kernel" where
  "small_new bs ds = \<lparr>sent_bytes = [], coming_bytes = bs, sent_datagrams = [], coming_datagrams = ds,
     signals = 2, open_fds = []\<rparr>"

lemma small_sender: "stream_sender (small_os chunk) fd sent_bytes signals"
  by (auto simp: stream_sender_def small_os_def small_send_def min_def)

lemma small_receiver: "stream_receiver (small_os chunk) fd coming_bytes signals"
  by (auto simp: stream_receiver_def small_os_def small_recv_def Let_def)

lemma small_unbroken: "0 < chunk \<Longrightarrow> unbroken (small_os chunk) fd coming_bytes"
  by (auto simp: unbroken_def small_os_def small_recv_def Let_def min_def split: if_splits)

lemma foldr_max_ge:
  fixes a :: int
  shows "x \<in> set xs \<Longrightarrow> x \<le> foldr max xs a" and "a \<le> foldr max xs a"
  by (induction xs) auto

lemma small_descriptors: "descriptors (small_os chunk) (\<lambda>k. set (open_fds k))"
proof -
  have "new_descriptor (\<lambda>k. set (open_fds k)) k (small_open k)" for k
    using foldr_max_ge(1) [of _ "open_fds k" 2] foldr_max_ge(2) [of 2 "open_fds k"]
    by (force simp: new_descriptor_def small_open_def Let_def)
  then show ?thesis
    by (auto simp: descriptors_def small_os_def small_send_def small_recv_def Let_def)
qed

section \<open>Properties\<close>

text \<open>
  Property C26. \<open>send_all\<close> retries short writes and interruptions: whenever it returns, the bytes the
  kernel has taken are a prefix of the buffer, in order and once; it returns \<open>true\<close> exactly when they are
  all of it, and \<open>false\<close> only after a \<open>send\<close> of all that was left failed other than by an interruption. If
  only finitely many calls in a row are interrupted, which no documentation of \<open>send\<close> promises, it
  returns.
\<close>

theorem send_all_whole:
  assumes "takes_front os fd out"
  shows "(\<forall>ok k'. send_all os fd data k = Some (ok, k') \<longrightarrow>
       (\<exists>n. n \<le> length data \<and> out k' = out k @ take n data \<and> (ok \<longleftrightarrow> n = length data) \<and>
          (\<not> ok \<longrightarrow> gave_up os fd (drop n data) k'))) \<and>
     (signals_end os fd interrupts \<longrightarrow> (\<exists>r. send_all os fd data k = Some r))"
proof -
  have "\<exists>n. n \<le> length data \<and> out k' = out k @ take n data \<and> (ok \<longleftrightarrow> n = length data) \<and>
      (\<not> ok \<longrightarrow> gave_up os fd (drop n data) k')" if "send_all os fd data k = Some (ok, k')" for ok k'
    using send_loop_partial [OF assms _ that [unfolded send_all_def]] by (auto simp: sent_part_def)
  moreover have "\<exists>r. send_all os fd data k = Some r" if "signals_end os fd interrupts"
    using send_loop_returns [OF assms that] unfolding send_all_def .
  ultimately show ?thesis by blast
qed

text \<open>Two interruptions and writes of two bytes: all three bytes are sent.\<close>

theorem send_all_whole_witness:
  "\<exists>k'. send_all (small_os 2) 5 [1, 2, 3] (small_new [] []) = Some (True, k') \<and> sent_bytes k' = [1, 2, 3]"
proof -
  let ?k = "small_new [] []" and ?data = "[1, 2, 3] :: u8 list"
  have os: "takes_front (small_os 2) 5 sent_bytes" "signals_end (small_os 2) 5 signals"
    using small_sender [of 2 5] unfolding stream_sender_parts by blast+
  note sends = send_all_whole [OF os(1), of ?data ?k signals]
  obtain ok k' where r: "send_all (small_os 2) 5 ?data ?k = Some (ok, k')" using sends os(2) by auto
  then obtain n where n: "n \<le> length ?data" "sent_bytes k' = sent_bytes ?k @ take n ?data"
      "ok \<longleftrightarrow> n = length ?data" "\<not> ok \<longrightarrow> gave_up (small_os 2) 5 (drop n ?data) k'"
    using sends by blast
  have "\<not> gave_up (small_os 2) 5 rest k'" if "rest \<noteq> []" for rest
    using that by (auto simp: gave_up_def small_os_def small_send_def min_def split: if_splits)
  moreover have "drop n ?data \<noteq> []" if "n \<noteq> length ?data" using n(1) that by simp
  ultimately have "ok" using n(3,4) by blast
  with r n show ?thesis by (simp add: small_new_def)
qed

text \<open>
  Property C27. When only finitely many calls in a row are interrupted, \<open>recv_all\<close> returns; what it consumed of the stream stands at the front of the
  buffer and the rest of the buffer is unchanged, it returns \<open>true\<close> exactly when the buffer is full,
  and on a connection that does not break it fails only at the end of the stream.
\<close>

theorem recv_all_whole:
  assumes "stream_receiver os fd inbox interrupts"
  shows "\<exists>ok got k'. recv_all os fd data k = Some ((ok, got @ drop (length got) data), k') \<and>
     inbox k = got @ inbox k' \<and> length got \<le> length data \<and> (ok \<longleftrightarrow> length got = length data) \<and>
     (unbroken os fd inbox \<longrightarrow> \<not> ok \<longrightarrow> inbox k' = [])"
  by (rule recv_all_spec [OF assms, of data k]) blast

theorem recv_all_whole_witness:
  "\<exists>got k'. recv_all (small_os 2) 5 [0, 0, 0] (small_new [7, 8, 9, 10] []) =
     Some ((True, got), k') \<and> got @ coming_bytes k' = [7, 8, 9, 10] \<and> length got = 3"
proof -
  let ?k = "small_new [7, 8, 9, 10] []" and ?data = "[0, 0, 0] :: u8 list"
  obtain ok got k' where r: "recv_all (small_os 2) 5 ?data ?k =
      Some ((ok, got @ drop (length got) ?data), k')" "coming_bytes ?k = got @ coming_bytes k'"
      "length got \<le> length ?data" "ok \<longleftrightarrow> length got = length ?data"
      "unbroken (small_os 2) 5 coming_bytes \<longrightarrow> \<not> ok \<longrightarrow> coming_bytes k' = []"
    using recv_all_whole [OF small_receiver, of 2 5 ?data ?k] by blast
  have len: "length got + length (coming_bytes k') = 4" using arg_cong [OF r(2), of length] by (simp add: small_new_def)
  then have "ok" using r(3,5) small_unbroken [of 2 5] by (cases ok) auto
  with r(1,2,4) show ?thesis by (intro exI [of _ got] exI [of _ k']) (simp add: small_new_def)
qed

text \<open>
  Property C39. The feeds lose no descriptor while they start: opening the TCP listener or the UDP
  receiver either throws with every socket it opened closed again, or returns one new descriptor and a
  port between 1 and 65535; the connecting and the sending side likewise open one socket or none.
\<close>

theorem feed_sockets_no_leak:
  assumes "descriptors os fds"
  shows "(case open_tcp_feed os buffer k of
      (Inl e, k') \<Rightarrow> fds k' = fds k
    | (Inr (fd, port), k') \<Rightarrow>
        0 < port \<and> port < 2 ^ 16 \<and> 0 \<le> fd \<and> fd \<notin> fds k \<and> fds k' = insert fd (fds k)) \<and>
   (case open_udp_feed os buffer timeout k of
      (Inl e, k') \<Rightarrow> fds k' = fds k
    | (Inr (fd, port), k') \<Rightarrow>
        0 < port \<and> port < 2 ^ 16 \<and> 0 \<le> fd \<and> fd \<notin> fds k \<and> fds k' = insert fd (fds k)) \<and>
   opens fds k (connect_tcp_client os to_port no_delay buffer k) \<and>
   opens fds k (create_udp_sender os buffer k)"
  using opens_socket [OF assms] open_receiver_opens [OF assms opens_socket(1) [OF assms]]
    open_receiver_opens [OF assms opens_socket(3) [OF assms]]
  by (simp add: open_tcp_feed_def open_udp_feed_def)

theorem feed_sockets_no_leak_witness:
  "case open_tcp_feed (small_os 2) 0 (small_new [] []) of
     (Inl e, k') \<Rightarrow> set (open_fds k') = {}
   | (Inr (fd, port), k') \<Rightarrow> 0 < port \<and> set (open_fds k') = {fd}"
  using feed_sockets_no_leak [OF small_descriptors [of 2], where k = "small_new [] []" and buffer = 0,
      THEN conjunct1]
  by (auto simp: small_new_def split: prod.splits sum.splits)

end
