(* ===== verification/Wire.thy ===== *)
theory Wire
  imports Book_Client
begin

unbundle bit_operations_syntax

text \<open>
  A \<open>MarketMessage\<close> as the feeds send it: its 64 bytes in memory on a little-endian machine, each
  member at its offset (\<open>send_all(fd, &message, sizeof(message))\<close> and
  \<open>recv_all(fd, &message, sizeof(message))\<close>).
\<close>

section \<open>Integers\<close>

definition le_bytes :: "nat \<Rightarrow> 'a::len word \<Rightarrow> u8 list" where
  "le_bytes n w = map (\<lambda>i. ucast (drop_bit (8 * i) w)) [0..<n]"

fun from_le :: "u8 list \<Rightarrow> 'a::len word" where
  "from_le [] = 0"
| "from_le (b # bs) = ucast b OR push_bit 8 (from_le bs)"

lemma length_le_bytes [simp]: "length (le_bytes n w) = n"
  by (simp add: le_bytes_def)

lemma bit_from_le:
  "bit (from_le bs :: 'a::len word) n \<longleftrightarrow>
     n < LENGTH('a) \<and> n div 8 < length bs \<and> bit (bs ! (n div 8)) (n mod 8)"
proof (induction bs arbitrary: n)
  case (Cons b bs)
  have small: "\<not> bit b k" if "8 \<le> k" for k
    using that bit_imp_le_length [of b k] by auto
  show ?case
  proof (cases "n < 8")
    case True
    then show ?thesis by (auto simp: bit_or_iff bit_push_bit_iff bit_ucast_iff dest: bit_imp_le_length)
  next
    case False
    then have "n div 8 = Suc ((n - 8) div 8)" "n mod 8 = (n - 8) mod 8"
      by (simp_all add: le_div_geq le_mod_geq)
    with False Cons.IH [of "n - 8"] small [of n] show ?thesis
      by (auto simp: bit_or_iff bit_push_bit_iff bit_ucast_iff)
  qed
qed simp

lemma from_le_bytes:
  assumes "LENGTH('a::len) \<le> 8 * n"
  shows "from_le (le_bytes n (w :: 'a word)) = w"
proof (rule bit_word_eqI)
  fix k assume k: "k < LENGTH('a)"
  then have i: "k div 8 < n" using assms by auto
  then have "bit (le_bytes n w ! (k div 8)) (k mod 8) = bit w k"
    by (simp add: le_bytes_def bit_ucast_iff bit_drop_bit_eq)
  with k i show "bit (from_le (le_bytes n w) :: 'a word) k = bit w k" by (simp add: bit_from_le)
qed

section \<open>Messages\<close>

definition side_byte :: "side \<Rightarrow> u8" where
  "side_byte s = (case s of Buy \<Rightarrow> 0 | Sell \<Rightarrow> 1)"

definition type_byte :: "message_type \<Rightarrow> u8" where
  "type_byte t = (case t of Add \<Rightarrow> 0 | Modify \<Rightarrow> 1 | Cancel \<Rightarrow> 2 | Trade \<Rightarrow> 3)"

text \<open>
  Both enumerations have the underlying type \<open>std::uint8_t\<close>, so any byte is a value of them. Every
  test of a side compares it with \<open>Side::Buy\<close>, so the other bytes act as \<open>Sell\<close>; a type that is no
  enumerator matches no \<open>case\<close> of the \<open>switch\<close> in \<open>on_message\<close>.
\<close>

definition byte_side :: "u8 \<Rightarrow> side" where
  "byte_side b = (if b = 0 then Buy else Sell)"

definition byte_type :: "u8 \<Rightarrow> message_type option" where
  "byte_type b = (if b = 0 then Some Add else if b = 1 then Some Modify else if b = 2 then Some Cancel
     else if b = 3 then Some Trade else None)"

definition message_size :: nat where
  "message_size = 64"

definition message_bytes :: "market_message \<Rightarrow> u8 list" where
  "message_bytes msg =
     le_bytes 8 (msg_sequence_number msg) @ le_bytes 8 (msg_exchange_timestamp_ns msg) @
     le_bytes 8 (msg_order_id msg) @ le_bytes 8 (int64_bits (msg_price msg)) @
     le_bytes 4 (msg_quantity msg) @ [side_byte (msg_side msg), type_byte (msg_type msg)] @
     msg_symbol msg @ msg_padding msg"

definition bytes_at :: "nat \<Rightarrow> nat \<Rightarrow> u8 list \<Rightarrow> u8 list" where
  "bytes_at offset n bs = take n (drop offset bs)"

definition message_of :: "u8 list \<Rightarrow> message_type \<Rightarrow> market_message" where
  "message_of bs t =
     \<lparr>msg_sequence_number = from_le (bytes_at 0 8 bs),
      msg_exchange_timestamp_ns = from_le (bytes_at 8 8 bs),
      msg_order_id = from_le (bytes_at 16 8 bs),
      msg_price = Int64 (from_le (bytes_at 24 8 bs)),
      msg_quantity = from_le (bytes_at 32 4 bs),
      msg_side = byte_side (bs ! 36), msg_type = t,
      msg_symbol = bytes_at 38 8 bs, msg_padding = bytes_at 46 18 bs\<rparr>"

definition bytes_message :: "u8 list \<Rightarrow> market_message option" where
  "bytes_message bs = map_option (message_of bs) (byte_type (bs ! 37))"

text \<open>\<open>book.on_message(message)\<close> on a message that was received as bytes.\<close>

definition on_bytes :: "('b \<Rightarrow> market_message \<Rightarrow> 'b cpp) \<Rightarrow> 'b \<Rightarrow> u8 list \<Rightarrow> 'b cpp" where
  "on_bytes on_msg b bs =
     (case bytes_message bs of None \<Rightarrow> Inr b | Some msg \<Rightarrow> on_msg b msg)"

definition bytes_timestamp :: "u8 list \<Rightarrow> u64" where
  "bytes_timestamp bs = from_le (bytes_at 8 8 bs)"

text \<open>The two byte arrays have their declared sizes.\<close>

definition well_sized :: "market_message \<Rightarrow> bool" where
  "well_sized msg \<longleftrightarrow> length (msg_symbol msg) = 8 \<and> length (msg_padding msg) = 18"

lemma byte_side_inv [simp]: "byte_side (side_byte s) = s"
  by (cases s) (simp_all add: byte_side_def side_byte_def)

lemma byte_type_inv [simp]: "byte_type (type_byte t) = Some t"
  by (cases t) (simp_all add: byte_type_def type_byte_def)

lemma length_message_bytes: "well_sized msg \<Longrightarrow> length (message_bytes msg) = message_size"
  by (simp add: message_bytes_def well_sized_def message_size_def)

lemma bytes_message_inv:
  assumes "well_sized msg"
  shows "bytes_message (message_bytes msg) = Some msg"
proof -
  let ?bs = "message_bytes msg"
  have at: "?bs ! 36 = side_byte (msg_side msg)" "?bs ! 37 = type_byte (msg_type msg)"
    by (simp_all add: message_bytes_def nth_append)
  have parts: "bytes_at 0 8 ?bs = le_bytes 8 (msg_sequence_number msg)"
      "bytes_at 8 8 ?bs = le_bytes 8 (msg_exchange_timestamp_ns msg)"
      "bytes_at 16 8 ?bs = le_bytes 8 (msg_order_id msg)"
      "bytes_at 24 8 ?bs = le_bytes 8 (int64_bits (msg_price msg))"
      "bytes_at 32 4 ?bs = le_bytes 4 (msg_quantity msg)"
      "bytes_at 38 8 ?bs = msg_symbol msg" "bytes_at 46 18 ?bs = msg_padding msg"
    using assms by (simp_all add: bytes_at_def message_bytes_def well_sized_def)
  show ?thesis
    using at parts by (simp add: bytes_message_def message_of_def from_le_bytes)
qed

lemma bytes_timestamp_inv [simp]: "bytes_timestamp (message_bytes msg) = msg_exchange_timestamp_ns msg"
proof -
  have "bytes_at 8 8 (message_bytes msg) = le_bytes 8 (msg_exchange_timestamp_ns msg)"
    by (simp add: bytes_at_def message_bytes_def)
  then show ?thesis by (simp add: bytes_timestamp_def from_le_bytes)
qed

section \<open>Streams of messages\<close>

definition stream_bytes :: "market_message list \<Rightarrow> u8 list" where
  "stream_bytes msgs = concat (map message_bytes msgs)"

lemma stream_bytes_simps [simp]:
  "stream_bytes [] = []"
  "stream_bytes (msg # msgs) = message_bytes msg @ stream_bytes msgs"
  "stream_bytes (xs @ ys) = stream_bytes xs @ stream_bytes ys"
  by (simp_all add: stream_bytes_def)

section \<open>Properties\<close>

text \<open>
  Property C28. The wire format is faithful: every message with arrays of the declared sizes is sent
  as exactly 64 bytes, and those bytes, wherever they stand in a stream of messages, are read back as
  the same message.
\<close>

theorem wire_roundtrip:
  assumes "\<forall>msg \<in> set msgs. well_sized msg" and "k < length msgs"
  shows "length (message_bytes (msgs ! k)) = 64 \<and>
     bytes_at (64 * k) 64 (stream_bytes msgs) = message_bytes (msgs ! k) \<and>
     bytes_message (bytes_at (64 * k) 64 (stream_bytes msgs)) = Some (msgs ! k)"
proof -
  have "length (message_bytes msg) = 64" if "msg \<in> set msgs" for msg
    using assms(1) that length_message_bytes by (auto simp: message_size_def)
  then have "bytes_at (64 * k) 64 (stream_bytes msgs) = message_bytes (msgs ! k)"
    using assms(2) unfolding bytes_at_def
  proof (induction msgs arbitrary: k)
    case (Cons msg msgs)
    then show ?case by (cases k) (simp_all add: add.commute)
  qed simp
  moreover have "well_sized (msgs ! k)" using assms by simp
  ultimately show ?thesis
    using length_message_bytes bytes_message_inv by (auto simp: message_size_def)
qed

theorem wire_roundtrip_witness:
  "bytes_message (bytes_at 64 64 (stream_bytes
      [zero_message, make_message Trade 7 Sell (Int64 (- 5)) 300])) =
   Some (make_message Trade 7 Sell (Int64 (- 5)) 300)"
proof -
  have ws: "\<forall>msg \<in> set [zero_message, make_message Trade 7 Sell (Int64 (- 5)) 300]. well_sized msg"
    by (simp add: well_sized_def zero_message_def make_message_def)
  show ?thesis using wire_roundtrip [OF ws, of 1] by (auto simp del: stream_bytes_simps)
qed

end
