(* ===== verification/Feed.thy ===== *)
theory Feed
  imports Sockets Wire Benchmarks
begin

text \<open>
  What \<open>benchmark_tcp_feed.cpp\<close> and \<open>benchmark_udp_feed.cpp\<close> share: the producer stamps each
  generated message with the time it sends it, and the consumer applies each whole message it received
  to the book. Clock and CPU readings are arguments, one set per message.
\<close>

section \<open>State\<close>

record 'b feed_consumer =
  fc_book :: 'b
  fc_network :: latency_recorder
  fc_processing :: latency_recorder
  fc_consumed :: u64
  fc_cpu :: int
  fc_migrations :: u64
  fc_buffer :: "u8 list"

record feed_producer =
  fp_produced :: u64
  fp_cpu :: int
  fp_migrations :: u64

text \<open>\<open>MarketMessage message{}\<close> is the receive buffer.\<close>

definition consumer_new :: "'b \<Rightarrow> int \<Rightarrow> 'b feed_consumer" where
  "consumer_new b cpu =
     \<lparr>fc_book = b, fc_network = recorder_new, fc_processing = recorder_new, fc_consumed = 0,
      fc_cpu = cpu, fc_migrations = 0, fc_buffer = message_bytes zero_message\<rparr>"

definition producer_new :: "int \<Rightarrow> feed_producer" where
  "producer_new cpu = \<lparr>fp_produced = 0, fp_cpu = cpu, fp_migrations = 0\<rparr>"

text \<open>The clocks and the CPU as the consumer reads them around one message.\<close>

record feed_reading =
  before_book_ns :: u64
  book_start_ns :: u64
  book_end_ns :: u64
  after_cpu :: int

section \<open>One message\<close>

definition process_received ::
  "('b \<Rightarrow> market_message \<Rightarrow> 'b cpp) \<Rightarrow> feed_reading \<Rightarrow> 'b feed_consumer \<Rightarrow> 'b feed_consumer cpp" where
  "process_received on_msg rd s =
     cpp_map (\<lambda>b.
         s\<lparr>fc_network := recorder_record (before_book_ns rd - bytes_timestamp (fc_buffer s)) (fc_network s),
           fc_book := b,
           fc_processing := recorder_record (book_end_ns rd - book_start_ns rd) (fc_processing s),
           fc_consumed := fc_consumed s + 1,
           fc_migrations := count_migration (fc_cpu s) (after_cpu rd) (fc_migrations s),
           fc_cpu := after_cpu rd\<rparr>)
       (on_bytes on_msg (fc_book s) (fc_buffer s))"

text \<open>A message taken in no time, whenever it was stamped: the readings of the runs built below.\<close>

definition no_time :: "u8 list \<Rightarrow> feed_reading" where
  "no_time bs = \<lparr>before_book_ns = bytes_timestamp bs, book_start_ns = 0, book_end_ns = 0, after_cpu = 0\<rparr>"

definition instant_feed :: "'b feed_consumer \<Rightarrow> bool" where
  "instant_feed s \<longleftrightarrow> all_zero (fc_network s) \<and> all_zero (fc_processing s)"

lemma no_time_instant:
  "process_received on_msg (no_time (fc_buffer s)) s = Inr s' \<Longrightarrow> instant_feed s' \<longleftrightarrow> instant_feed s"
  by (auto simp: process_received_def no_time_def instant_feed_def cpp_map_Inr_iff)

lemma instant_feed_simps [simp]:
  "instant_feed (s\<lparr>fc_buffer := bs\<rparr>) \<longleftrightarrow> instant_feed s" "instant_feed (s\<lparr>fc_cpu := cpu\<rparr>) \<longleftrightarrow> instant_feed s"
  "instant_feed (consumer_new b cpu)"
  by (simp_all add: instant_feed_def consumer_new_def)

definition stamp :: "u64 \<Rightarrow> market_message \<Rightarrow> market_message" where
  "stamp now msg = msg\<lparr>msg_exchange_timestamp_ns := now\<rparr>"

definition note_cpu :: "int \<Rightarrow> feed_producer \<Rightarrow> feed_producer" where
  "note_cpu cpu p =
     p\<lparr>fp_migrations := count_migration (fp_cpu p) cpu (fp_migrations p), fp_cpu := cpu\<rparr>"

definition count_produced :: "feed_producer \<Rightarrow> feed_producer" where
  "count_produced p = p\<lparr>fp_produced := fp_produced p + 1\<rparr>"

lemma produced_simps [simp]:
  "fp_produced (note_cpu cpu p) = fp_produced p"
  "fp_produced (count_produced p) = fp_produced p + 1"
  by (simp_all add: note_cpu_def count_produced_def)

section \<open>The time stamp does not reach the book\<close>

lemma well_sized_stamp [simp]: "well_sized (stamp now msg) = well_sized msg"
  by (simp add: well_sized_def stamp_def)

lemma well_sized_zero [simp]: "well_sized zero_message"
  by (simp add: well_sized_def zero_message_def)

lemma stamp_simps [simp]:
  "msg_exchange_timestamp_ns (stamp now msg) = now"
  "msg_order_id (stamp now msg) = msg_order_id msg"
  "msg_price (stamp now msg) = msg_price msg"
  "msg_quantity (stamp now msg) = msg_quantity msg"
  "msg_side (stamp now msg) = msg_side msg"
  "msg_type (stamp now msg) = msg_type msg"
  by (simp_all add: stamp_def)

lemma on_message_stamp [simp]: "on_message b (stamp now msg) = on_message b msg"
proof -
  have "add_to_level c (stamp now msg) = add_to_level c msg" for c
    by (simp add: fun_eq_iff add_to_level_def Let_def cong: option.case_cong if_cong)
  moreover have "modify_level (stamp now msg) = modify_level msg"
    by (simp add: fun_eq_iff modify_level_def Let_def cong: option.case_cong if_cong)
  moreover have "cancel_level (stamp now msg) = cancel_level msg"
    by (simp add: fun_eq_iff cancel_level_def Let_def cong: option.case_cong if_cong)
  moreover have "trade_level (stamp now msg) = trade_level msg"
    by (simp add: fun_eq_iff trade_level_def Let_def cong: option.case_cong if_cong)
  moreover have "new_order (stamp now msg) = new_order msg" by (simp add: new_order_def)
  ultimately show ?thesis
    by (simp add: on_message_def handle_add_def handle_modify_def handle_cancel_def handle_trade_def
        cong: option.case_cong message_type.case_cong if_cong)
qed

text \<open>The messages as they are sent: stamped one by one.\<close>

fun stamped :: "(nat \<Rightarrow> u64) \<Rightarrow> nat \<Rightarrow> market_message list \<Rightarrow> market_message list" where
  "stamped now i [] = []"
| "stamped now i (msg # msgs) = stamp (now i) msg # stamped now (Suc i) msgs"

lemma length_stamped [simp]: "length (stamped now i msgs) = length msgs"
  by (induction msgs arbitrary: i) simp_all

lemma stamped_nth: "j < length msgs \<Longrightarrow> stamped now i msgs ! j = stamp (now (i + j)) (msgs ! j)"
  by (induction msgs arbitrary: i j) (auto simp: nth_Cons split: nat.split)

lemma take_stamped: "take m (stamped now i msgs) = stamped now i (take m msgs)"
  by (induction msgs arbitrary: i m) (simp_all add: take_Cons split: nat.split)

lemma feed_stamped [simp]: "feed on_message (stamped now i msgs) b = feed on_message msgs b"
  by (induction msgs arbitrary: i b) (simp_all add: cpp_bind_def cong: sum.case_cong)

lemma stamped_well_sized:
  "\<forall>msg \<in> set msgs. well_sized msg \<Longrightarrow> \<forall>msg \<in> set (stamped now i msgs). well_sized msg"
  by (induction msgs arbitrary: i) simp_all

lemma generated_well_sized: "msg \<in> set (generated clock n symbol) \<Longrightarrow> well_sized msg"
  using generated_arrays by (simp add: well_sized_def)

text \<open>A run is defined on every prefix of a stream it is defined on.\<close>

lemma feed_take:
  "feed step msgs b = Inr b' \<Longrightarrow> \<exists>b''. feed step (take m msgs) b = Inr b''"
  by (metis append_take_drop_id feed_append cpp_bind_Inr_iff)

text \<open>One message received whole.\<close>

lemma process_received_message:
  assumes "well_sized msg" and "on_msg (fc_book s) msg = Inr b" and "fc_buffer s = message_bytes msg"
  obtains s' where "process_received on_msg rd s = Inr s'" and "fc_book s' = b"
    and "fc_consumed s' = fc_consumed s + 1" and "fc_buffer s' = fc_buffer s"
    and "length (samples (fc_network s')) = length (samples (fc_network s)) + 1"
    and "length (samples (fc_processing s')) = length (samples (fc_processing s)) + 1"
  using assms
  by (simp add: process_received_def on_bytes_def bytes_message_inv recorder_record_def)

end
