(* ===== verification/Tcp_Feed.thy ===== *)
theory Tcp_Feed
  imports Feed "HOL-Library.Sublist"
begin

text \<open>
  \<open>benchmark_tcp_feed.cpp\<close>: the producer sends every message over a TCP connection on the loopback
  interface, 64 bytes each, and the consumer reassembles them with \<open>recv_all\<close>. Each thread runs
  against the kernel as it sees it; what joins them is that a connection delivers a prefix of the bytes
  sent on it, in order.
\<close>

section \<open>The two loops\<close>

text \<open>
  The producer's loop over the messages; \<open>sends i\<close> is the time stamp of the message \<open>i\<close> and the CPU
  read after it was sent.
\<close>

fun tcp_produce ::
  "'k os \<Rightarrow> int \<Rightarrow> (nat \<Rightarrow> u64 \<times> int) \<Rightarrow> nat \<Rightarrow> market_message list \<Rightarrow> feed_producer \<Rightarrow> 'k \<Rightarrow>
   (feed_producer \<times> 'k) option" where
  "tcp_produce os fd sends i [] p k = Some (p, k)"
| "tcp_produce os fd sends i (msg # msgs) p k =
     (case send_all os fd (message_bytes (stamp (fst (sends i)) msg)) k of
        None \<Rightarrow> None
      | Some (ok, k') \<Rightarrow>
          if \<not> ok then Some (p, k')
          else tcp_produce os fd sends (Suc i) msgs (note_cpu (snd (sends i)) (count_produced p)) k')"

text \<open>\<open>while (consumed < num_messages)\<close>, left when \<open>recv_all\<close> fails.\<close>

partial_function (option) tcp_consume ::
  "'k os \<Rightarrow> int \<Rightarrow> (nat \<Rightarrow> feed_reading) \<Rightarrow> ('b \<Rightarrow> market_message \<Rightarrow> 'b cpp) \<Rightarrow> u64 \<Rightarrow>
   'b feed_consumer \<Rightarrow> 'k \<Rightarrow> ('b feed_consumer \<times> 'k) cpp option" where
  "tcp_consume os fd readings on_msg num_messages s k =
     (if fc_consumed s < num_messages
      then (case recv_all os fd (fc_buffer s) k of
          None \<Rightarrow> None
        | Some ((ok, bs), k') \<Rightarrow>
            if \<not> ok then Some (Inr (s\<lparr>fc_buffer := bs\<rparr>, k'))
            else (case process_received on_msg (readings (unat (fc_consumed s))) (s\<lparr>fc_buffer := bs\<rparr>) of
                Inl e \<Rightarrow> Some (Inl e)
              | Inr s' \<Rightarrow> tcp_consume os fd readings on_msg num_messages s' k'))
      else Some (Inr (s, k)))"

section \<open>The two threads\<close>

definition tcp_consumer_thread ::
  "'k os \<Rightarrow> (nat \<Rightarrow> feed_reading) \<Rightarrow> ('b \<Rightarrow> market_message \<Rightarrow> 'b cpp) \<Rightarrow> u64 \<Rightarrow> int \<Rightarrow> bool \<Rightarrow> int \<Rightarrow> int \<Rightarrow>
   'b \<Rightarrow> 'k \<Rightarrow> ('b feed_consumer \<times> 'k) cpp option" where
  "tcp_consumer_thread os readings on_msg num_messages cpu tcp_no_delay receive_buffer_bytes listen_fd b k =
     (let k1 = (if cpu \<ge> 0 then snd (pin_thread_to_cpu os cpu k) else k);
          (accepted_fd, k2) = os_accept os listen_fd k1;
          k3 = close_socket os listen_fd k2
      in if accepted_fd < 0 then Some (Inr (consumer_new b (- 1), k3))
         else let k4 = snd (set_tcp_no_delay os accepted_fd tcp_no_delay k3);
                  k5 = snd (set_socket_receive_buffer os accepted_fd receive_buffer_bytes k4);
                  (last_cpu, k6) = get_current_cpu os k5
              in map_option (cpp_map (\<lambda>(s, k7). (s, close_socket os accepted_fd k7)))
                   (tcp_consume os accepted_fd readings on_msg num_messages (consumer_new b last_cpu) k6))"

text \<open>An exception of \<open>connect_tcp_client\<close> leaves the thread (and ends the program).\<close>

definition tcp_producer_thread ::
  "'k os \<Rightarrow> (nat \<Rightarrow> u64 \<times> int) \<Rightarrow> market_message list \<Rightarrow> int \<Rightarrow> bool \<Rightarrow> int \<Rightarrow> int \<Rightarrow> 'k \<Rightarrow>
   ((string + feed_producer) \<times> 'k) option" where
  "tcp_producer_thread os sends messages cpu tcp_no_delay send_buffer_bytes port k =
     (let k1 = (if cpu \<ge> 0 then snd (pin_thread_to_cpu os cpu k) else k)
      in case connect_tcp_client os port tcp_no_delay send_buffer_bytes k1 of
           (Inl e, k2) \<Rightarrow> Some (Inl e, k2)
         | (Inr fd, k2) \<Rightarrow>
             let (last_cpu, k3) = get_current_cpu os k2
             in map_option (\<lambda>(p, k4). (Inr p, close_socket os fd (os_shutdown os fd k4)))
                  (tcp_produce os fd sends 0 messages (producer_new last_cpu) k3))"

section \<open>The producer\<close>

text \<open>
  Whatever the kernel does, the producer ends; it has put the whole stamped messages it counted on the
  stream, followed by a proper part of the next one if it stopped early.
\<close>

lemma tcp_produce_spec:
  assumes "stream_sender os fd out interrupts" and "\<forall>msg \<in> set msgs. well_sized msg"
  shows "\<exists>p' k' m part. tcp_produce os fd sends i msgs p k = Some (p', k') \<and> m \<le> length msgs \<and>
     fp_produced p' = fp_produced p + of_nat m \<and> length part < 64 \<and>
     out k' = out k @ stream_bytes (take m (stamped (\<lambda>j. fst (sends j)) i msgs)) @ part \<and>
     (m = length msgs \<longrightarrow> part = [])"
  using assms(2)
proof (induction msgs arbitrary: i p k)
  case Nil
  then show ?case by simp
next
  case (Cons msg msgs)
  let ?bs = "message_bytes (stamp (fst (sends i)) msg)"
  have len: "length ?bs = 64" using Cons.prems by (simp add: length_message_bytes message_size_def)
  obtain ok n k' where s: "send_all os fd ?bs k = Some (ok, k')" "n \<le> length ?bs"
      "out k' = out k @ take n ?bs" "ok \<longleftrightarrow> n = length ?bs"
    by (rule send_all_spec [OF assms(1)])
  show ?case
  proof (cases ok)
    case False
    with s len have "n < 64" by auto
    with s False show ?thesis by (intro exI [of _ p] exI [of _ k'] exI [of _ 0] exI [of _ "take n ?bs"]) simp
  next
    case True
    let ?p = "note_cpu (snd (sends i)) (count_produced p)"
    obtain p' k'' m part where rec: "tcp_produce os fd sends (Suc i) msgs ?p k' = Some (p', k'')"
        "m \<le> length msgs" "fp_produced p' = fp_produced ?p + of_nat m" "length part < 64"
        "out k'' = out k' @ stream_bytes (take m (stamped (\<lambda>j. fst (sends j)) (Suc i) msgs)) @ part"
        "m = length msgs \<longrightarrow> part = []"
      using Cons.IH [of "Suc i" ?p k'] Cons.prems by force
    with s True show ?thesis
      by (intro exI [of _ p'] exI [of _ k''] exI [of _ "Suc m"] exI [of _ part]) simp
  qed
qed

section \<open>The consumer\<close>

text \<open>
  Receiving from a prefix of a stream of messages, whose last one may be cut: the consumer processes
  the first \<open>m\<close> messages, and all of them when the whole stream arrives on an unbroken connection.
\<close>

lemma tcp_consume_run:
  assumes "stream_receiver os fd inbox interrupts"
    and "\<forall>msg \<in> set msgs. well_sized msg" and "length part < 64"
    and "prefix (inbox k) (stream_bytes msgs @ part)" and "length (fc_buffer s) = 64"
    and "unat (fc_consumed s) + length msgs \<le> unat num"
    and "feed on_msg msgs (fc_book s) = Inr b"
  shows "\<exists>m s' k'. tcp_consume os fd readings on_msg num s k = Some (Inr (s', k')) \<and> m \<le> length msgs \<and>
     feed on_msg (take m msgs) (fc_book s) = Inr (fc_book s') \<and>
     fc_consumed s' = fc_consumed s + of_nat m \<and>
     length (samples (fc_network s')) = length (samples (fc_network s)) + m \<and>
     length (samples (fc_processing s')) = length (samples (fc_processing s)) + m \<and>
     (unbroken os fd inbox \<longrightarrow> inbox k = stream_bytes msgs @ part \<longrightarrow> m = length msgs)"
  using assms(2-7)
proof (induction msgs arbitrary: s k)
  case Nil
  obtain ok got buf k' where r: "recv_all os fd (fc_buffer s) k = Some ((ok, buf), k')"
      "inbox k = got @ inbox k'" "length got \<le> length (fc_buffer s)" "ok \<longleftrightarrow> length got = length (fc_buffer s)"
    using recv_all_spec [OF assms(1), of "fc_buffer s" k] by metis
  have "length got < 64" using r(2) Nil.prems(2,3) prefix_length_le [OF Nil.prems(3)] by simp
  with r Nil.prems(4) have "\<not> ok" by simp
  with r(1) have "tcp_consume os fd readings on_msg num s k =
      Some (Inr (if fc_consumed s < num then (s\<lparr>fc_buffer := buf\<rparr>, k') else (s, k)))"
    by (subst tcp_consume.simps) simp
  then show ?case by (cases "fc_consumed s < num") auto
next
  case (Cons msg msgs)
  have more: "fc_consumed s < num" using Cons.prems(5) by (simp add: word_less_nat_alt)
  have len: "length (message_bytes msg) = 64"
    using Cons.prems(1) by (simp add: length_message_bytes message_size_def)
  obtain ok got buf k' where r: "recv_all os fd (fc_buffer s) k = Some ((ok, buf), k')"
      "inbox k = got @ inbox k'" "length got \<le> 64" "buf = got @ drop (length got) (fc_buffer s)"
      "ok \<longleftrightarrow> length got = 64" "unbroken os fd inbox \<longrightarrow> \<not> ok \<longrightarrow> inbox k' = []"
    by (rule recv_all_spec [OF assms(1), of "fc_buffer s" k]) (simp add: Cons.prems(4))
  show ?case
  proof (cases ok)
    case False
    then have "tcp_consume os fd readings on_msg num s k = Some (Inr (s\<lparr>fc_buffer := buf\<rparr>, k'))"
      using more r(1) by (subst tcp_consume.simps) simp
    moreover have "inbox k \<noteq> stream_bytes (msg # msgs) @ part" if "unbroken os fd inbox"
    proof
      assume eq: "inbox k = stream_bytes (msg # msgs) @ part"
      have "inbox k = got" using r(2,6) that False by simp
      then show False using arg_cong [OF eq, of length] len r(3,5) False by simp
    qed
    ultimately show ?thesis by (intro exI [of _ 0]) auto
  next
    case True
    obtain tail where tail: "stream_bytes (msg # msgs) @ part = inbox k @ tail"
      using Cons.prems(3) by (auto simp: prefix_def)
    then have "message_bytes msg @ (stream_bytes msgs @ part) = got @ (inbox k' @ tail)" using r(2) by simp
    then have got: "got = message_bytes msg" "stream_bytes msgs @ part = inbox k' @ tail"
      using len r(5) True by (simp_all add: append_eq_append_conv)
    have buf: "buf = message_bytes msg" using r(4,5) True got Cons.prems(4) by simp
    obtain b' where b': "on_msg (fc_book s) msg = Inr b'" "feed on_msg msgs b' = Inr b"
      using Cons.prems(6) by (auto simp: cpp_bind_Inr_iff)
    obtain s' where s': "process_received on_msg (readings (unat (fc_consumed s))) (s\<lparr>fc_buffer := buf\<rparr>) = Inr s'"
        "fc_book s' = b'" "fc_consumed s' = fc_consumed s + 1" "fc_buffer s' = buf"
        "length (samples (fc_network s')) = length (samples (fc_network s)) + 1"
        "length (samples (fc_processing s')) = length (samples (fc_processing s)) + 1"
      using process_received_message [of msg on_msg "s\<lparr>fc_buffer := buf\<rparr>" b'
          "readings (unat (fc_consumed s))"] Cons.prems(1) b'(1) buf by auto
    have step: "tcp_consume os fd readings on_msg num s k = tcp_consume os fd readings on_msg num s' k'"
      using more r(1) True s'(1) by (subst tcp_consume.simps) simp
    have "unat (fc_consumed s') = unat (fc_consumed s) + 1"
      using Cons.prems(5) s'(3) unat_word_ariths(1) [of "fc_consumed s" 1] unsigned_less [of num, where ?'a = nat]
      by simp
    then have room: "unat (fc_consumed s') + length msgs \<le> unat num" using Cons.prems(5) by simp
    obtain m s'' k'' where rec: "tcp_consume os fd readings on_msg num s' k' = Some (Inr (s'', k''))"
        "m \<le> length msgs" "feed on_msg (take m msgs) (fc_book s') = Inr (fc_book s'')"
        "fc_consumed s'' = fc_consumed s' + of_nat m"
        "length (samples (fc_network s'')) = length (samples (fc_network s')) + m"
        "length (samples (fc_processing s'')) = length (samples (fc_processing s')) + m"
        "unbroken os fd inbox \<longrightarrow> inbox k' = stream_bytes msgs @ part \<longrightarrow> m = length msgs"
      using Cons.IH [of k' s'] Cons.prems(1,2) got(2) s'(2,4) buf len room b'(2) by (auto simp: prefix_def)
    have "inbox k = stream_bytes (msg # msgs) @ part \<longleftrightarrow> inbox k' = stream_bytes msgs @ part"
      using r(2) got(1) by simp
    with step rec s' b'(1) show ?thesis
      by (intro exI [of _ "Suc m"] exI [of _ s''] exI [of _ k'']) simp
  qed
qed

section \<open>Descriptors of the threads\<close>

lemma tcp_produce_fds:
  assumes "descriptors os fds"
  shows "tcp_produce os fd sends i msgs p k = Some r \<Longrightarrow> fds (snd r) = fds k"
proof (induction msgs arbitrary: i p k)
  case (Cons msg msgs)
  obtain ok k' where s: "send_all os fd (message_bytes (stamp (fst (sends i)) msg)) k = Some (ok, k')"
    using Cons.prems by (auto split: option.splits)
  have "fds k' = fds k" using send_loop_fds [OF assms s [unfolded send_all_def]] by simp
  with s Cons show ?case by (cases ok) auto
qed auto

lemma tcp_consume_fds:
  assumes "descriptors os fds" and "tcp_consume os fd readings on_msg num s k = Some r"
  shows "r = Inr (s', k') \<Longrightarrow> fds k' = fds k"
proof -
  have "descriptors os fds \<longrightarrow> (\<forall>s' k'. r = Inr (s', k') \<longrightarrow> fds k' = fds k)"
  proof (rule tcp_consume.raw_induct [where P = "\<lambda>os fd readings on_msg num s k r.
      descriptors os fds \<longrightarrow> (\<forall>s' k'. r = Inr (s', k') \<longrightarrow> fds k' = fds k)", OF _ assms(2)])
    fix f :: "'a os \<Rightarrow> int \<Rightarrow> (nat \<Rightarrow> feed_reading) \<Rightarrow> ('b \<Rightarrow> market_message \<Rightarrow> 'b cpp) \<Rightarrow> u64 \<Rightarrow>
        'b feed_consumer \<Rightarrow> 'a \<Rightarrow> ('b feed_consumer \<times> 'a) cpp option"
      and os fd readings on_msg num s k r
    assume IH: "\<And>os fd readings on_msg num s k r. f os fd readings on_msg num s k = Some r \<Longrightarrow>
        descriptors os fds \<longrightarrow> (\<forall>s' k'. r = Inr (s', k') \<longrightarrow> fds k' = fds k)"
      and eq: "(if fc_consumed s < num
        then (case recv_all os fd (fc_buffer s) k of
            None \<Rightarrow> None
          | Some ((ok, bs), k') \<Rightarrow>
              if \<not> ok then Some (Inr (s\<lparr>fc_buffer := bs\<rparr>, k'))
              else (case process_received on_msg (readings (unat (fc_consumed s))) (s\<lparr>fc_buffer := bs\<rparr>) of
                  Inl e \<Rightarrow> Some (Inl e)
                | Inr s' \<Rightarrow> f os fd readings on_msg num s' k'))
        else Some (Inr (s, k))) = Some r"
    show "descriptors os fds \<longrightarrow> (\<forall>s' k'. r = Inr (s', k') \<longrightarrow> fds k' = fds k)"
    proof
      assume d: "descriptors os fds"
      show "\<forall>s' k'. r = Inr (s', k') \<longrightarrow> fds k' = fds k"
      proof (cases "fc_consumed s < num")
        case True
        then obtain ok bs k1 where call: "recv_all os fd (fc_buffer s) k = Some ((ok, bs), k1)"
          using eq by (auto split: option.splits)
        have same: "fds k1 = fds k" using recv_loop_fds [OF d call [unfolded recv_all_def]] by simp
        consider e where "r = Inl e" | s1 where "r = Inr (s1, k1)"
          | s1 where "f os fd readings on_msg num s1 k1 = Some r"
          using eq True call by (auto split: if_splits sum.splits)
        then show ?thesis using same IH [THEN mp, OF _ d] by cases auto
      qed (use eq in auto)
    qed
  qed
  with assms(1) show "r = Inr (s', k') \<Longrightarrow> fds k' = fds k" by blast
qed

section \<open>Properties\<close>

text \<open>
  The TCP feed delivers: whatever short transfers and interruptions occur, the producer
  ends and has sent as many whole messages as it counts; on any part of its bytes that arrives the
  consumer ends without undefined behaviour with the book of the first \<open>m\<close> generated messages, \<open>m\<close>
  being the messages that arrived whole, each measured once; and when everything arrives on an unbroken
  connection, it consumed every message the producer counted.
\<close>

lemma tcp_feed_delivers:
  assumes "stream_sender os fd out interrupts" and "stream_receiver os' fd' inbox interrupts'"
    and "out k = []"
  shows "\<exists>p k'. tcp_produce os fd sends 0 (generated wall n symbol) (producer_new c) k = Some (p, k') \<and>
     (\<forall>kc. prefix (inbox kc) (out k') \<longrightarrow>
        (\<exists>s kc' m. tcp_consume os' fd' readings on_message n (consumer_new empty_book c') kc =
             Some (Inr (s, kc')) \<and>
           feed on_message (take m (generated wall n symbol)) empty_book = Inr (fc_book s) \<and>
           fc_consumed s = of_nat m \<and> m \<le> unat (fp_produced p) \<and> fp_produced p \<le> n \<and>
           length (samples (fc_network s)) = m \<and> length (samples (fc_processing s)) = m \<and>
           (unbroken os' fd' inbox \<longrightarrow> inbox kc = out k' \<longrightarrow> m = unat (fp_produced p))))"
proof -
  let ?ms = "generated wall n symbol"
  let ?sent = "\<lambda>j. take j (stamped (\<lambda>j. fst (sends j)) 0 ?ms)"
  have len: "length ?ms = unat n" by (rule generated_ok(1))
  have ws: "\<forall>msg \<in> set ?ms. well_sized msg" using generated_well_sized by blast
  obtain p k' j part where prod: "tcp_produce os fd sends 0 ?ms (producer_new c) k = Some (p, k')"
      "j \<le> length ?ms" "fp_produced p = of_nat j" "length part < 64"
      "out k' = stream_bytes (?sent j) @ part"
    using tcp_produce_spec [OF assms(1) ws, of sends 0 "producer_new c" k] assms(3)
    by (auto simp: producer_new_def)
  have j: "unat (fp_produced p) = j" "fp_produced p \<le> n"
  proof -
    have "j < 2 ^ 64" using prod(2) len unsigned_less [of n, where ?'a = nat] by simp
    then show "unat (fp_produced p) = j" using prod(3) by (simp add: unat_of_nat)
    then show "fp_produced p \<le> n" using prod(2) len by (simp add: word_le_nat_alt)
  qed
  have cons: "\<exists>s kc' m. tcp_consume os' fd' readings on_message n (consumer_new empty_book c') kc =
        Some (Inr (s, kc')) \<and> feed on_message (take m ?ms) empty_book = Inr (fc_book s) \<and>
      fc_consumed s = of_nat m \<and> m \<le> unat (fp_produced p) \<and> fp_produced p \<le> n \<and>
      length (samples (fc_network s)) = m \<and> length (samples (fc_processing s)) = m \<and>
      (unbroken os' fd' inbox \<longrightarrow> inbox kc = out k' \<longrightarrow> m = unat (fp_produced p))"
    if arrived: "prefix (inbox kc) (out k')" for kc
  proof -
    let ?c = "consumer_new empty_book c' :: order_book feed_consumer"
    have "set (take j ?ms) \<subseteq> set ?ms" by (rule set_take_subset)
    then obtain b where "feed on_message (take j ?ms) empty_book = Inr b"
      using base.feed_ok [OF book_rel_empty replay_shallow] by blast
    then have b: "feed on_message (?sent j) (fc_book ?c) = Inr b"
      by (simp add: take_stamped consumer_new_def)
    have buf: "length (fc_buffer ?c) = 64" "fc_consumed ?c = 0"
      by (simp_all add: consumer_new_def length_message_bytes message_size_def)
    have "\<forall>msg \<in> set (?sent j). well_sized msg" using stamped_well_sized [OF ws] in_set_takeD by fast
    from tcp_consume_run [OF assms(2) this prod(4) _ buf(1) _ b] arrived prod(2,5) buf(2) len
    obtain m s kc' where run: "tcp_consume os' fd' readings on_message n ?c kc = Some (Inr (s, kc'))"
        "m \<le> length (?sent j)" "feed on_message (take m (?sent j)) (fc_book ?c) = Inr (fc_book s)"
        "fc_consumed s = fc_consumed ?c + of_nat m"
        "length (samples (fc_network s)) = length (samples (fc_network ?c)) + m"
        "length (samples (fc_processing s)) = length (samples (fc_processing ?c)) + m"
        "unbroken os' fd' inbox \<longrightarrow> inbox kc = out k' \<longrightarrow> m = length (?sent j)"
      by fastforce
    have sent: "length (?sent j) = j" using prod(2) by simp
    with run(2) have "take m (?sent j) = stamped (\<lambda>j. fst (sends j)) 0 (take m ?ms)"
      by (simp add: take_stamped min_absorb1)
    then have "feed on_message (take m ?ms) empty_book = Inr (fc_book s)"
      using run(3) by (simp add: consumer_new_def)
    then show ?thesis
      using run sent j
      by (intro exI [of _ s] exI [of _ kc'] exI [of _ m]) (simp add: consumer_new_def recorder_new_def)
  qed
  show ?thesis using prod(1) cons by (intro exI [of _ p] exI [of _ k']) blast
qed

text \<open>
  Property C40. The threads of the TCP feed close what they open: the consumer ends with the listening
  socket and the accepted connection closed, the producer with its own socket closed, also when the
  connection is refused.
\<close>

theorem tcp_threads_close:
  assumes "descriptors os fds" and "0 \<le> listen_fd" and "listen_fd \<in> fds k"
  shows "(tcp_consumer_thread os readings on_msg n cpu no_delay buffer listen_fd b k = Some (Inr (s, k')) \<longrightarrow>
       fds k' = fds k - {listen_fd}) \<and>
     (tcp_producer_thread os sends msgs cpu no_delay buffer port k = Some (r, k'') \<longrightarrow>
       fds k'' = fds k)"
proof (intro conjI impI)
  note facts = descriptorsD [OF assms(1)] descriptors_helpers [OF assms(1)]
  let ?k1 = "if cpu \<ge> 0 then snd (pin_thread_to_cpu os cpu k) else k"
  have k1: "fds ?k1 = fds k" by (simp add: facts)
  {
    assume run: "tcp_consumer_thread os readings on_msg n cpu no_delay buffer listen_fd b k = Some (Inr (s, k'))"
    obtain fd k2 where acc: "os_accept os listen_fd ?k1 = (fd, k2)" by fastforce
    have new: "if fd < 0 then fds k2 = fds k else fd \<notin> fds k \<and> fds k2 = insert fd (fds k)"
      using facts(2) [of ?k1 listen_fd] unfolding acc new_descriptor_def k1 fst_conv snd_conv .
    let ?k3 = "close_socket os listen_fd k2"
    let ?k5 = "snd (set_socket_receive_buffer os fd buffer (snd (set_tcp_no_delay os fd no_delay ?k3)))"
    have k3: "fds ?k3 = fds k2 - {listen_fd}" using assms(2) by (simp add: facts)
    show "fds k' = fds k - {listen_fd}"
    proof (cases "fd < 0")
      case True
      with run acc new k3 show ?thesis by (simp add: tcp_consumer_thread_def Let_def)
    next
      case False
      let ?c = "consumer_new b (fst (get_current_cpu os ?k5))" and ?k6 = "snd (get_current_cpu os ?k5)"
      obtain s0 k7 where loop: "tcp_consume os fd readings on_msg n ?c ?k6 = Some (Inr (s0, k7))"
          "k' = close_socket os fd k7"
        using run acc False
        by (auto simp: tcp_consumer_thread_def Let_def case_prod_beta cpp_map_Inr_iff)
      have "fds k7 = fds ?k6" by (rule tcp_consume_fds [OF assms(1) loop(1) refl])
      then have "fds k7 = fds k2 - {listen_fd}" using k3 by (simp add: facts)
      with loop(2) new False assms(3) show ?thesis by (auto simp: facts)
    qed
  }
  assume run: "tcp_producer_thread os sends msgs cpu no_delay buffer port k = Some (r, k'')"
  obtain x k2 where con: "connect_tcp_client os port no_delay buffer ?k1 = (x, k2)" by fastforce
  have new: "opens fds ?k1 (x, k2)" using opens_socket(2) [OF assms(1), of ?k1 port no_delay buffer] con by simp
  show "fds k'' = fds k"
  proof (cases x)
    case (Inl e)
    with run con new k1 show ?thesis by (simp add: tcp_producer_thread_def Let_def opens_def)
  next
    case (Inr fd)
    let ?k3 = "snd (get_current_cpu os k2)"
    obtain p k4 where loop: "tcp_produce os fd sends 0 msgs (producer_new (fst (get_current_cpu os k2))) ?k3 =
          Some (p, k4)" "k'' = close_socket os fd (os_shutdown os fd k4)"
      using run con Inr by (auto simp: tcp_producer_thread_def Let_def case_prod_beta)
    have "fds k4 = fds k2" using tcp_produce_fds [OF assms(1) loop(1)] by (simp add: facts)
    with loop(2) new Inr k1 show ?thesis by (auto simp: opens_def facts)
  qed
qed

theorem tcp_threads_close_witness:
  "\<exists>r k'. tcp_producer_thread (small_os 7) (\<lambda>i. (9, 0)) [zero_message] 1 True 0 40000
     ((small_new [] [])\<lparr>open_fds := [3]\<rparr>) = Some (r, k') \<and> set (open_fds k') = {3}"
proof -
  let ?k = "(small_new [] [])\<lparr>open_fds := [3]\<rparr>"
  obtain fd k2 where con: "connect_tcp_client (small_os 7) 40000 True 0 ?k = (Inr fd, k2)"
    by (simp add: connect_tcp_client_def set_tcp_no_delay_def set_socket_send_buffer_def small_os_def
        small_open_def Let_def)
  have "\<forall>msg \<in> set [zero_message]. well_sized msg" by simp
  from tcp_produce_spec [OF small_sender this, of 7 fd "\<lambda>i. (9, 0)" 0 "producer_new 0" k2]
  obtain p k3 where "tcp_produce (small_os 7) fd (\<lambda>i. (9, 0)) 0 [zero_message] (producer_new 0) k2 =
      Some (p, k3)" by blast
  then obtain r k' where r: "tcp_producer_thread (small_os 7) (\<lambda>i. (9, 0)) [zero_message] 1 True 0 40000 ?k =
      Some (r, k')"
    using con by (simp add: tcp_producer_thread_def pin_thread_to_cpu_def get_current_cpu_def small_os_def)
  with tcp_threads_close [OF small_descriptors [of 7], where listen_fd = 3 and k = ?k,
      THEN conjunct2, rule_format, OF _ _ r]
  show ?thesis by simp
qed

end
