(* ===== verification/Udp_Feed.thy ===== *)
theory Udp_Feed
  imports Feed "HOL-Library.Sublist"
begin

text \<open>
  \<open>benchmark_udp_feed.cpp\<close>: one datagram per message, which the network may lose, duplicate or
  reorder. The consumer applies what arrives; when \<open>recv\<close> fails (its timeout expired) it stops if
  \<open>producer_done\<close> is set.
\<close>

section \<open>The two loops\<close>

text \<open>\<open>sends i\<close> is the time stamp of the message \<open>i\<close> and the CPU read after it was sent.\<close>

fun udp_produce ::
  "'k os \<Rightarrow> int \<Rightarrow> sockaddr_in \<Rightarrow> (nat \<Rightarrow> u64 \<times> int) \<Rightarrow> nat \<Rightarrow> market_message list \<Rightarrow> feed_producer \<Rightarrow> 'k \<Rightarrow>
   feed_producer \<times> 'k" where
  "udp_produce os fd receiver sends i [] p k = (p, k)"
| "udp_produce os fd receiver sends i (msg # msgs) p k =
     (let (sent_bytes, k') = os_sendto os fd (message_bytes (stamp (fst (sends i)) msg)) receiver k;
          p' = (if sent_bytes = int message_size then count_produced p else p)
      in udp_produce os fd receiver sends (Suc i) msgs (note_cpu (snd (sends i)) p') k')"

text \<open>
  \<open>producer_done k\<close> is what the acquire load returns after a failed \<open>recv\<close>; a failed \<open>recv\<close> leaves
  the buffer alone, a short datagram overwrites its front.
\<close>

partial_function (option) udp_consume ::
  "'k os \<Rightarrow> int \<Rightarrow> ('k \<Rightarrow> bool) \<Rightarrow> (nat \<Rightarrow> feed_reading) \<Rightarrow> ('b \<Rightarrow> market_message \<Rightarrow> 'b cpp) \<Rightarrow> u64 \<Rightarrow>
   'b feed_consumer \<Rightarrow> 'k \<Rightarrow> ('b feed_consumer \<times> 'k) cpp option" where
  "udp_consume os fd producer_done readings on_msg num_messages s k =
     (if fc_consumed s < num_messages
      then (case os_recv os fd message_size k of ((received_bytes, bs), k') \<Rightarrow>
        if received_bytes < 0
        then (if producer_done k' then Some (Inr (s, k'))
              else udp_consume os fd producer_done readings on_msg num_messages s k')
        else if received_bytes \<noteq> int message_size
        then udp_consume os fd producer_done readings on_msg num_messages
               (s\<lparr>fc_buffer := bs @ drop (length bs) (fc_buffer s)\<rparr>) k'
        else (case process_received on_msg (readings (unat (fc_consumed s))) (s\<lparr>fc_buffer := bs\<rparr>) of
            Inl e \<Rightarrow> Some (Inl e)
          | Inr s' \<Rightarrow> udp_consume os fd producer_done readings on_msg num_messages s' k'))
      else Some (Inr (s, k)))"

section \<open>The two threads\<close>

definition udp_consumer_thread ::
  "'k os \<Rightarrow> ('k \<Rightarrow> bool) \<Rightarrow> (nat \<Rightarrow> feed_reading) \<Rightarrow> ('b \<Rightarrow> market_message \<Rightarrow> 'b cpp) \<Rightarrow> u64 \<Rightarrow> int \<Rightarrow>
   int \<Rightarrow> 'b \<Rightarrow> 'k \<Rightarrow> ('b feed_consumer \<times> 'k) cpp option" where
  "udp_consumer_thread os producer_done readings on_msg num_messages cpu receive_fd b k =
     (let k1 = (if cpu \<ge> 0 then snd (pin_thread_to_cpu os cpu k) else k);
          (last_cpu, k2) = get_current_cpu os k1
      in map_option (cpp_map (\<lambda>(s, k3). (s, close_socket os receive_fd k3)))
           (udp_consume os receive_fd producer_done readings on_msg num_messages (consumer_new b last_cpu) k2))"

definition udp_producer_thread ::
  "'k os \<Rightarrow> (nat \<Rightarrow> u64 \<times> int) \<Rightarrow> market_message list \<Rightarrow> int \<Rightarrow> int \<Rightarrow> int \<Rightarrow> 'k \<Rightarrow>
   (string + feed_producer) \<times> 'k" where
  "udp_producer_thread os sends messages cpu send_buffer_bytes port k =
     (let k1 = (if cpu \<ge> 0 then snd (pin_thread_to_cpu os cpu k) else k)
      in case create_udp_sender os send_buffer_bytes k1 of
           (Inl e, k2) \<Rightarrow> (Inl e, k2)
         | (Inr send_fd, k2) \<Rightarrow>
             let receiver_address = loopback (of_int port);
                 (last_cpu, k3) = get_current_cpu os k2;
                 (p, k4) = udp_produce os send_fd receiver_address sends 0 messages (producer_new last_cpu) k3
             in (Inr p, close_socket os send_fd k4))"

text \<open>The line \<open>Dropped/Unreceived\<close> of the report: an unsigned difference.\<close>

definition dropped :: "feed_producer \<Rightarrow> 'b feed_consumer \<Rightarrow> u64" where
  "dropped p s = fp_produced p - fc_consumed s"

section \<open>Contracts of the datagram calls\<close>

text \<open>\<open>out\<close> is the list of datagrams the kernel has accepted: a \<open>sendto\<close> of all bytes adds one.\<close>

definition datagram_sender :: "'k os \<Rightarrow> int \<Rightarrow> sockaddr_in \<Rightarrow> ('k \<Rightarrow> u8 list list) \<Rightarrow> bool" where
  "datagram_sender os fd receiver out \<longleftrightarrow>
     (\<forall>bs k. out (snd (os_sendto os fd bs receiver k)) =
        (if fst (os_sendto os fd bs receiver k) = int (length bs) then out k @ [bs] else out k))"

text \<open>
  \<open>inbox\<close> is the list of the datagrams still to arrive: a successful \<open>recv\<close> takes the first one, cut
  to the size of the buffer. A failed one takes none, and only finitely many fail in a row
  before \<open>producer_done\<close> is seen.
\<close>

definition datagram_receiver ::
  "'k os \<Rightarrow> int \<Rightarrow> ('k \<Rightarrow> u8 list list) \<Rightarrow> ('k \<Rightarrow> bool) \<Rightarrow> ('k \<Rightarrow> nat) \<Rightarrow> bool" where
  "datagram_receiver os fd inbox producer_done waits \<longleftrightarrow>
     (\<forall>n k r bs k'. os_recv os fd n k = ((r, bs), k') \<longrightarrow>
        (if r < 0 then inbox k' = inbox k \<and> (\<not> producer_done k' \<longrightarrow> waits k' < waits k)
         else \<exists>d. inbox k = d # inbox k' \<and> bs = take n d \<and> r = int (length bs)))"

section \<open>The producer\<close>

lemma udp_produce_spec:
  assumes "datagram_sender os fd receiver out" and "\<forall>msg \<in> set msgs. well_sized msg"
  shows "\<exists>sent. subseq sent (stamped (\<lambda>j. fst (sends j)) i msgs) \<and>
     out (snd (udp_produce os fd receiver sends i msgs p k)) = out k @ map message_bytes sent \<and>
     fp_produced (fst (udp_produce os fd receiver sends i msgs p k)) = fp_produced p + of_nat (length sent)"
  using assms(2)
proof (induction msgs arbitrary: i p k)
  case Nil
  then show ?case by (intro exI [of _ "[]"]) simp
next
  case (Cons msg msgs)
  let ?m = "stamp (fst (sends i)) msg"
  obtain r k' where call: "os_sendto os fd (message_bytes ?m) receiver k = (r, k')" by fastforce
  have len: "length (message_bytes ?m) = message_size" using Cons.prems by (simp add: length_message_bytes)
  have law: "out k' = (if r = int message_size then out k @ [message_bytes ?m] else out k)"
    using assms(1) call len unfolding datagram_sender_def by (metis fst_conv snd_conv)
  let ?p = "note_cpu (snd (sends i)) (if r = int message_size then count_produced p else p)"
  obtain sent where sent: "subseq sent (stamped (\<lambda>j. fst (sends j)) (Suc i) msgs)"
      "out (snd (udp_produce os fd receiver sends (Suc i) msgs ?p k')) = out k' @ map message_bytes sent"
      "fp_produced (fst (udp_produce os fd receiver sends (Suc i) msgs ?p k')) =
       fp_produced ?p + of_nat (length sent)"
    using Cons.IH [of "Suc i" ?p k'] Cons.prems by force
  show ?case
  proof (cases "r = int message_size")
    case True
    with sent law call show ?thesis by (intro exI [of _ "?m # sent"]) simp
  next
    case False
    with sent law call show ?thesis by (intro exI [of _ sent]) (simp add: list_emb_Cons)
  qed
qed

section \<open>The consumer\<close>

text \<open>
  The consumer always ends, and has applied the first \<open>m\<close> of the whole messages that were to arrive.
\<close>

lemma udp_consume_run:
  assumes "datagram_receiver os fd inbox producer_done waits"
    and "filter (\<lambda>d. length d = message_size) (inbox k) = map message_bytes msgs"
    and "\<forall>d \<in> set (inbox k). length d \<le> message_size" and "\<forall>msg \<in> set msgs. well_sized msg"
    and "feed on_msg msgs (fc_book s) = Inr b"
  shows "\<exists>m s' k'. udp_consume os fd producer_done readings on_msg num s k = Some (Inr (s', k')) \<and>
     m \<le> length msgs \<and> feed on_msg (take m msgs) (fc_book s) = Inr (fc_book s') \<and>
     fc_consumed s' = fc_consumed s + of_nat m \<and>
     (unat (fc_consumed s) \<le> unat num \<longrightarrow> unat (fc_consumed s) + m \<le> unat num) \<and>
     length (samples (fc_network s')) = length (samples (fc_network s)) + m"
  using assms(2-5)
proof (induction "(length (inbox k), waits k)" arbitrary: s k msgs
    rule: wf_induct_rule [OF wf_lex_prod [OF wf_less_than wf_less_than]])
  case 1
  note IH = 1(1) and prems = 1(2-5)
  show ?case
  proof (cases "fc_consumed s < num")
    case False
    then have "udp_consume os fd producer_done readings on_msg num s k = Some (Inr (s, k))"
      by (subst udp_consume.simps) simp
    then show ?thesis by (intro exI [of _ 0] exI [of _ s] exI [of _ k]) simp
  next
    case more: True
    obtain r bs k' where call: "os_recv os fd message_size k = ((r, bs), k')" by (metis surj_pair)
    have law: "if r < 0 then inbox k' = inbox k \<and> (\<not> producer_done k' \<longrightarrow> waits k' < waits k)
        else \<exists>d. inbox k = d # inbox k' \<and> bs = take message_size d \<and> r = int (length bs)"
      using assms(1) call unfolding datagram_receiver_def by blast
    show ?thesis
    proof (cases "r < 0")
      case neg: True
      show ?thesis
      proof (cases "producer_done k'")
        case True
        then have "udp_consume os fd producer_done readings on_msg num s k = Some (Inr (s, k'))"
          using more call neg by (subst udp_consume.simps) simp
        then show ?thesis
          using more by (intro exI [of _ 0] exI [of _ s] exI [of _ k']) simp
      next
        case False
        with law neg have same: "inbox k' = inbox k" and less: "waits k' < waits k" by simp_all
        have "udp_consume os fd producer_done readings on_msg num s k =
            udp_consume os fd producer_done readings on_msg num s k'"
          using more call neg False by (subst udp_consume.simps) simp
        then show ?thesis using IH [of k' msgs s] prems same less by simp
      qed
    next
      case False
      with law obtain d where d: "inbox k = d # inbox k'" "bs = take message_size d" "r = int (length bs)"
        by auto
      then have bs: "bs = d" "r = int (length d)" using prems(2) by simp_all
      have shorter: "length (inbox k') < length (inbox k)" using d(1) by simp
      show ?thesis
      proof (cases "length d = message_size")
        case short: False
        let ?s = "s\<lparr>fc_buffer := bs @ drop (length bs) (fc_buffer s)\<rparr>"
        have "udp_consume os fd producer_done readings on_msg num s k =
            udp_consume os fd producer_done readings on_msg num ?s k'"
          using more call bs short by (subst udp_consume.simps) simp
        then show ?thesis using IH [of k' msgs ?s] prems d(1) shorter short by simp
      next
        case whole: True
        then obtain msg rest where msgs: "msgs = msg # rest" "d = message_bytes msg"
            "filter (\<lambda>d. length d = message_size) (inbox k') = map message_bytes rest"
          using prems(1) d(1) by (cases msgs) auto
        obtain b' where b': "on_msg (fc_book s) msg = Inr b'" "feed on_msg rest b' = Inr b"
          using prems(4) msgs(1) by (auto simp: cpp_bind_Inr_iff)
        obtain s' where s': "process_received on_msg (readings (unat (fc_consumed s))) (s\<lparr>fc_buffer := bs\<rparr>) =
            Inr s'" "fc_book s' = b'" "fc_consumed s' = fc_consumed s + 1"
            "length (samples (fc_network s')) = length (samples (fc_network s)) + 1"
          using process_received_message [of msg on_msg "s\<lparr>fc_buffer := bs\<rparr>" b'
              "readings (unat (fc_consumed s))"] prems(3) msgs(1,2) b'(1) bs(1) by auto
        have step: "udp_consume os fd producer_done readings on_msg num s k =
            udp_consume os fd producer_done readings on_msg num s' k'"
          using more call bs whole s'(1) by (subst udp_consume.simps) simp
        have "unat (fc_consumed s) + 1 \<le> unat num" using more by (simp add: word_less_nat_alt)
        then have count: "unat (fc_consumed s') = unat (fc_consumed s) + 1"
            "unat (fc_consumed s') \<le> unat num"
          using s'(3) unat_word_ariths(1) [of "fc_consumed s" 1] unsigned_less [of num, where ?'a = nat]
          by simp_all
        have in_k': "\<forall>d \<in> set (inbox k'). length d \<le> message_size" using prems(2) d(1) by simp
        obtain m s'' k'' where rec: "udp_consume os fd producer_done readings on_msg num s' k' =
            Some (Inr (s'', k''))" "m \<le> length rest" "feed on_msg (take m rest) (fc_book s') = Inr (fc_book s'')"
            "fc_consumed s'' = fc_consumed s' + of_nat m"
            "unat (fc_consumed s') \<le> unat num \<longrightarrow> unat (fc_consumed s') + m \<le> unat num"
            "length (samples (fc_network s'')) = length (samples (fc_network s')) + m"
          using IH [of k' rest s'] shorter msgs(1,3) in_k' prems(3) b'(2) s'(2) by auto
        have "unat (fc_consumed s) + Suc m \<le> unat num" using rec(5) count by simp
        with step rec s' b'(1) msgs(1) show ?thesis
          by (intro exI [of _ "Suc m"] exI [of _ s''] exI [of _ k'']) simp
      qed
    qed
  qed
qed

section \<open>What arrived\<close>

text \<open>Messages that were stamped on their way are processed as the ones they were.\<close>

definition stamps_of :: "market_message list \<Rightarrow> market_message list \<Rightarrow> bool" where
  "stamps_of qs msgs \<longleftrightarrow> list_all2 (\<lambda>q msg. \<exists>t. q = stamp t msg) qs msgs"

lemma feed_stamps_of: "stamps_of qs msgs \<Longrightarrow> feed on_message qs b = feed on_message msgs b"
  unfolding stamps_of_def
  by (induction qs msgs arbitrary: b rule: list_all2_induct) (auto simp: cpp_bind_def cong: sum.case_cong)

lemma stamps_of_well_sized:
  "stamps_of qs msgs \<Longrightarrow> \<forall>msg \<in> set msgs. well_sized msg \<Longrightarrow> \<forall>q \<in> set qs. well_sized q"
  unfolding stamps_of_def by (induction qs msgs rule: list_all2_induct) auto

lemma stamps_of_take: "stamps_of qs msgs \<Longrightarrow> stamps_of (take m qs) (take m msgs)"
  unfolding stamps_of_def by (rule list_all2_takeI)

lemma stamps_of_length: "stamps_of qs msgs \<Longrightarrow> length qs = length msgs"
  unfolding stamps_of_def by (rule list_all2_lengthD)

lemma subseq_stamped:
  "subseq qs (stamped now i msgs) \<Longrightarrow> \<exists>ms. subseq ms msgs \<and> stamps_of qs ms"
proof (induction msgs arbitrary: i qs)
  case (Cons msg msgs)
  from Cons.prems show ?case
  proof (cases "subseq qs (stamped now (Suc i) msgs)")
    case True
    then show ?thesis using Cons.IH by (meson list_emb_Cons)
  next
    case False
    with Cons.prems obtain qs' where qs: "qs = stamp (now i) msg # qs'"
        "subseq qs' (stamped now (Suc i) msgs)"
      by (cases qs) (auto split: if_splits)
    with Cons.IH obtain ms where "subseq ms msgs" "stamps_of qs' ms" by blast
    then show ?thesis using qs(1) by (intro exI [of _ "msg # ms"]) (auto simp: stamps_of_def)
  qed
next
  case Nil
  then show ?case by (intro exI [of _ "[]"]) (simp add: stamps_of_def)
qed

lemma stamped_in_set:
  "x \<in> set (stamped now i msgs) \<Longrightarrow> \<exists>msg \<in> set msgs. \<exists>t. x = stamp t msg"
  by (induction msgs arbitrary: i) auto

lemma set_stamped:
  "set qs \<subseteq> set (stamped now i msgs) \<Longrightarrow> \<exists>ms. set ms \<subseteq> set msgs \<and> stamps_of qs ms"
proof (induction qs)
  case (Cons q qs)
  then obtain ms where "set ms \<subseteq> set msgs" "stamps_of qs ms" by auto
  moreover obtain msg t where "msg \<in> set msgs" "q = stamp t msg"
    using stamped_in_set [of q now i msgs] Cons.prems by auto
  ultimately show ?case by (intro exI [of _ "msg # ms"]) (auto simp: stamps_of_def)
qed (simp add: stamps_of_def)

lemma subseq_mapE:
  assumes "subseq ys (map f xs)"
  obtains zs where "subseq zs xs" and "ys = map f zs"
  using assms by (auto simp: subseq_conv_nths nths_map)

text \<open>
  The datagrams that arrive, read back as generated messages: a subsequence of them if the network
  neither duplicated nor reordered any.
\<close>

lemma arrived_messages:
  assumes "subseq sent (stamped now 0 msgs)" and "set ds \<subseteq> set (map message_bytes sent)"
  obtains qs ms where "ds = map message_bytes qs" and "stamps_of qs ms" and "set ms \<subseteq> set msgs"
    and "subseq ds (map message_bytes sent) \<Longrightarrow> subseq ms msgs \<and> length qs \<le> length sent"
proof (cases "subseq ds (map message_bytes sent)")
  case True
  then obtain qs where qs: "subseq qs sent" "ds = map message_bytes qs" by (rule subseq_mapE)
  with subseq_order.trans [OF qs(1) assms(1)] subseq_stamped obtain ms where
    "subseq ms msgs" "stamps_of qs ms" by blast
  with qs that show thesis
    using list_emb_length [OF qs(1)] list_emb_set [of "(=)" ms msgs] by blast
next
  case False
  have "ds \<in> lists (message_bytes ` set sent)" using assms(2) by auto
  then obtain qs where "ds = map message_bytes qs" "qs \<in> lists (set sent)" by (auto simp: lists_image)
  moreover have "set sent \<subseteq> set (stamped now 0 msgs)"
    using list_emb_set [OF assms(1)] by blast
  ultimately obtain ms where "stamps_of qs ms" "set ms \<subseteq> set msgs"
    using set_stamped [of qs now 0 msgs] by (metis in_listsD subset_iff)
  with \<open>ds = map message_bytes qs\<close> False that show thesis by blast
qed

section \<open>Properties\<close>

text \<open>
  The UDP feed is safe under loss: whatever part of the datagrams sent arrives, in any
  order and any number of times, the consumer ends without undefined behaviour, having applied at most
  as many messages as were generated, each a generated one, and its book holds at most 10000 orders.
  If the network neither duplicates nor reorders, the applied messages are a subsequence of the
  generated ones and the number reported as dropped is exact, without wrap-around.
\<close>

lemma udp_feed_safe:
  assumes "datagram_sender os fd receiver out"
    and "datagram_receiver os' fd' inbox producer_done waits"
    and "out k = []" and "udp_produce os fd receiver sends 0 (generated wall n symbol) (producer_new c) k = (p, k')"
    and "set (inbox kc) \<subseteq> set (out k')"
  shows "\<exists>s kc' ms. udp_consume os' fd' producer_done readings on_message n (consumer_new empty_book c') kc =
       Some (Inr (s, kc')) \<and>
     set ms \<subseteq> set (generated wall n symbol) \<and> feed on_message ms empty_book = Inr (fc_book s) \<and>
     unat (fc_consumed s) = length ms \<and> length ms \<le> unat n \<and>
     unat (total_orders (fc_book s)) \<le> min (unat n) 10000 \<and>
     (subseq (inbox kc) (out k') \<longrightarrow>
        subseq ms (generated wall n symbol) \<and> unat (dropped p s) + length ms = unat (fp_produced p))"
proof -
  let ?gs = "generated wall n symbol" and ?c = "consumer_new empty_book c' :: order_book feed_consumer"
  have len: "length ?gs = unat n" by (rule generated_ok(1))
  have ws: "\<forall>msg \<in> set ?gs. well_sized msg" using generated_well_sized by blast
  obtain sent where sent: "subseq sent (stamped (\<lambda>j. fst (sends j)) 0 ?gs)"
      "out k' = map message_bytes sent" "fp_produced p = of_nat (length sent)"
    using udp_produce_spec [OF assms(1) ws, of sends 0 "producer_new c" k] assms(3,4)
    by (auto simp: producer_new_def)
  have "length sent \<le> unat n" using list_emb_length [OF sent(1)] len by simp
  then have produced: "unat (fp_produced p) = length sent" "length sent < 2 ^ 64"
    using sent(3) unsigned_less [of n, where ?'a = nat] by (simp_all add: unat_of_nat)
  obtain qs ms where qs: "inbox kc = map message_bytes qs" "stamps_of qs ms" "set ms \<subseteq> set ?gs"
      "subseq (inbox kc) (out k') \<Longrightarrow> subseq ms ?gs \<and> length qs \<le> length sent"
    using arrived_messages [OF sent(1)] assms(5) unfolding sent(2) by blast
  have wq: "\<forall>q \<in> set qs. well_sized q" using stamps_of_well_sized [OF qs(2)] qs(3) ws by blast
  have sizes: "\<forall>d \<in> set (inbox kc). length d = message_size"
    using wq qs(1) by (auto simp: length_message_bytes)
  then have whole: "filter (\<lambda>d. length d = message_size) (inbox kc) = map message_bytes qs"
    and le: "\<forall>d \<in> set (inbox kc). length d \<le> message_size" using qs(1) by (simp_all add: filter_id_conv)
  obtain b where "feed on_message ms empty_book = Inr b"
    using base.feed_ok [OF book_rel_empty replay_shallow [OF qs(3)]] by blast
  then have "feed on_message qs (fc_book ?c) = Inr b"
    using feed_stamps_of [OF qs(2)] by (simp add: consumer_new_def)
  from udp_consume_run [OF assms(2) whole le wq this, of readings n]
  obtain m s kc' where run: "udp_consume os' fd' producer_done readings on_message n ?c kc = Some (Inr (s, kc'))"
      "m \<le> length qs" "feed on_message (take m qs) empty_book = Inr (fc_book s)"
      "fc_consumed s = of_nat m" "m \<le> unat n"
    by (auto simp: consumer_new_def)
  have book: "feed on_message (take m ms) empty_book = Inr (fc_book s)"
    using run(3) feed_stamps_of [OF stamps_of_take [OF qs(2)]] by simp
  have sub: "set (take m ms) \<subseteq> set ?gs" using qs(3) set_take_subset by fast
  obtain b' where "feed on_message (take m ms) empty_book = Inr b'" "book_rel b' (spec_run (take m ms) [])"
    using base.feed_ok [OF book_rel_empty replay_shallow [OF sub]] by blast
  then have "unat (total_orders (fc_book s)) \<le> min (unat n) 10000"
    using replay_orders [OF sub] book by simp
  moreover have m: "length (take m ms) = m" using run(2) stamps_of_length [OF qs(2)] by simp
  moreover have cons: "unat (fc_consumed s) = m"
    using run(4,5) unsigned_less [of n, where ?'a = nat] by (simp add: unat_of_nat)
  moreover have "subseq (take m ms) ?gs \<and> unat (dropped p s) + m = unat (fp_produced p)"
    if "subseq (inbox kc) (out k')"
  proof
    show "subseq (take m ms) ?gs"
      using qs(4) [OF that] prefix_imp_subseq [OF take_is_prefix] subseq_order.trans by blast
    have "fc_consumed s \<le> fp_produced p"
      using qs(4) [OF that] run(2) produced cons by (simp add: word_le_nat_alt)
    then show "unat (dropped p s) + m = unat (fp_produced p)"
      using cons by (simp add: dropped_def unat_sub word_le_nat_alt)
  qed
  ultimately show ?thesis using run(1,5) sub book
    by (intro exI [of _ s] exI [of _ kc'] exI [of _ "take m ms"]) simp
qed

text \<open>The small kernel with datagrams: a \<open>recv\<close> on an empty inbox times out.\<close>

definition small_recv_datagram :: "nat \<Rightarrow> small_kernel \<Rightarrow> (int \<times> u8 list) \<times> small_kernel" where
  "small_recv_datagram n k =
     (case coming_datagrams k of
        [] \<Rightarrow> ((- 1, []), k\<lparr>signals := signals k - 1\<rparr>)
      | d # ds \<Rightarrow> ((int (length (take n d)), take n d), k\<lparr>coming_datagrams := ds\<rparr>))"

definition small_udp :: "small_kernel os" where
  "small_udp = (small_os 1)\<lparr>os_recv := \<lambda>fd. small_recv_datagram\<rparr>"

lemma small_datagram_sender: "datagram_sender small_udp fd receiver sent_datagrams"
  by (simp add: datagram_sender_def small_udp_def small_os_def)

lemma small_datagram_receiver:
  "datagram_receiver small_udp fd coming_datagrams (\<lambda>k. signals k = 0) signals"
  by (auto simp: datagram_receiver_def small_udp_def small_recv_datagram_def split: list.splits)

end
