(* ===== verification/Startup.thy ===== *)
theory Startup
  imports Sockets Benchmarks
begin

text \<open>
  How a thread of a benchmark starts: if a CPU was asked for, it pins itself and prints a line on the
  result. Two threads write such lines to one \<open>std::cout\<close>, whose characters may interleave.
\<close>

definition pin_line :: "string \<Rightarrow> bool \<Rightarrow> string" where
  "pin_line who pinned =
     who @ '' pin result: '' @ (if pinned then ''success'' else ''unsupported/failed'') @ newline"

definition pin_output :: "string \<Rightarrow> int \<Rightarrow> bool \<Rightarrow> string" where
  "pin_output who cpu pinned = (if cpu \<ge> 0 then pin_line who pinned else [])"

definition start_thread :: "'k os \<Rightarrow> string \<Rightarrow> int \<Rightarrow> 'k \<Rightarrow> string \<times> 'k" where
  "start_thread os who cpu k =
     (if cpu \<ge> 0 then (case pin_thread_to_cpu os cpu k of (pinned, k') \<Rightarrow> (pin_line who pinned, k'))
      else ([], k))"

text \<open>The kernel keeps whatever pinning keeps; the text is the line for one of the two results.\<close>

lemma start_thread_simps:
  "snd (start_thread os who cpu k) = (if cpu \<ge> 0 then snd (pin_thread_to_cpu os cpu k) else k)"
  "fst (start_thread os who cpu k) = pin_output who cpu (fst (pin_thread_to_cpu os cpu k))"
  by (simp_all add: start_thread_def pin_output_def split: prod.split)

lemma start_thread_silent [simp]: "cpu < 0 \<Longrightarrow> start_thread os who cpu k = ([], k)"
  by (simp add: start_thread_def)

text \<open>An interleaving has the characters of both lines; a thread that is not pinned adds nothing.\<close>

lemma pin_lines_alone:
  assumes "z \<in> shuffles (pin_output who1 cpu1 r1) (pin_output who2 cpu2 r2)" and "cpu1 < 0"
  shows "z = pin_output who2 cpu2 r2"
  using assms by (simp add: pin_output_def)

end
