(* ===== verification/Loopback.thy ===== *)
theory Loopback
  imports Sockets
begin

text \<open>
  A kernel both threads of a feed share, on which the theorems about the interleaved feeds are run: what
  is sent can be received, datagrams in order and bytes at most \<open>chunk\<close> at a time. A \<open>recv\<close> fails when
  nothing has arrived; on a stream it returns 0 once the sender has shut down.
\<close>

record loop_kernel =
  datagrams_taken :: "u8 list list"
  datagrams_waiting :: "u8 list list"
  stream_taken :: "u8 list"
  stream_waiting :: "u8 list"
  stream_shut :: bool
  next_fd :: nat

definition loop_new :: loop_kernel where
  "loop_new = \<lparr>datagrams_taken = [], datagrams_waiting = [], stream_taken = [], stream_waiting = [],
     stream_shut = False, next_fd = 3\<rparr>"

definition loop_open :: "loop_kernel \<Rightarrow> int \<times> loop_kernel" where
  "loop_open k = (int (next_fd k), k\<lparr>next_fd := next_fd k + 1\<rparr>)"

definition loop_recv_datagram :: "nat \<Rightarrow> loop_kernel \<Rightarrow> (int \<times> u8 list) \<times> loop_kernel" where
  "loop_recv_datagram n k =
     (case datagrams_waiting k of
        [] \<Rightarrow> ((- 1, []), k)
      | d # ds \<Rightarrow> ((int (length (take n d)), take n d),
          k\<lparr>datagrams_taken := datagrams_taken k @ [d], datagrams_waiting := ds\<rparr>))"

definition loop_send :: "nat \<Rightarrow> u8 list \<Rightarrow> loop_kernel \<Rightarrow> int \<times> loop_kernel" where
  "loop_send chunk bs k =
     (int (min chunk (length bs)), k\<lparr>stream_waiting := stream_waiting k @ take chunk bs\<rparr>)"

definition loop_recv :: "nat \<Rightarrow> nat \<Rightarrow> loop_kernel \<Rightarrow> (int \<times> u8 list) \<times> loop_kernel" where
  "loop_recv chunk n k =
     (let bs = take (min chunk n) (stream_waiting k)
      in if bs = [] \<and> \<not> stream_shut k then ((- 1, []), k)
         else ((int (length bs), bs), k\<lparr>stream_taken := stream_taken k @ bs,
           stream_waiting := drop (min chunk n) (stream_waiting k)\<rparr>))"

definition loop_os :: "(nat \<Rightarrow> loop_kernel \<Rightarrow> (int \<times> u8 list) \<times> loop_kernel) \<Rightarrow> nat \<Rightarrow> loop_kernel os" where
  "loop_os receive chunk =
     \<lparr>os_socket = \<lambda>ty. loop_open, os_setsockopt = \<lambda>fd opt k. (0, k), os_bind = \<lambda>fd a k. (0, k),
      os_listen = \<lambda>fd n k. (0, k), os_connect = \<lambda>fd a k. (0, k), os_accept = \<lambda>fd. loop_open,
      os_getsockname = \<lambda>fd k. ((0, loopback 40000), k), os_getfl = \<lambda>fd k. (0, k),
      os_setfl = \<lambda>fd w k. (0, k), os_send = \<lambda>fd. loop_send chunk,
      os_sendto = \<lambda>fd bs a k. (int (length bs), k\<lparr>datagrams_waiting := datagrams_waiting k @ [bs]\<rparr>),
      os_recv = \<lambda>fd. receive, os_shutdown = \<lambda>fd k. k\<lparr>stream_shut := True\<rparr>,
      os_close = \<lambda>fd k. k, os_errno = \<lambda>k. EINTR, os_setaffinity = \<lambda>m k. (0, k),
      os_getcpu = \<lambda>k. (0, k)\<rparr>"

definition loop_udp :: "loop_kernel os" where
  "loop_udp = loop_os loop_recv_datagram 1"

definition loop_tcp :: "nat \<Rightarrow> loop_kernel os" where
  "loop_tcp chunk = loop_os (loop_recv chunk) chunk"

text \<open>Everything that was sent.\<close>

definition datagrams_sent :: "loop_kernel \<Rightarrow> u8 list list" where
  "datagrams_sent k = datagrams_taken k @ datagrams_waiting k"

definition stream_sent :: "loop_kernel \<Rightarrow> u8 list" where
  "stream_sent k = stream_taken k @ stream_waiting k"

end
