(* ===== verification/Command_Line.thy ===== *)
theory Command_Line
  imports Benchmarks
begin

text \<open>
  The arguments of the benchmark programs: \<open>parse_u64_arg\<close>, \<open>parse_int_arg\<close> and \<open>parse_bool_arg\<close>
  (every program has its own copy), the standard library's \<open>std::stoull\<close> and \<open>std::stoi\<close> they call, and
  the settings each \<open>main\<close> reads. \<open>argv\<close> is the list of the arguments, the program name first; a null
  pointer is \<open>None\<close>. An exception is the left side.
\<close>

section \<open>Numbers in strings\<close>

datatype parse_error = Invalid_Argument | Out_Of_Range

text \<open>\<open>isspace\<close> and \<open>isdigit\<close> in the C locale.\<close>

definition is_space :: "char \<Rightarrow> bool" where
  "is_space c \<longleftrightarrow> (let n = of_char c :: nat in n = 32 \<or> 9 \<le> n \<and> n \<le> 13)"

definition is_digit :: "char \<Rightarrow> bool" where
  "is_digit c \<longleftrightarrow> (let n = of_char c :: nat in 48 \<le> n \<and> n \<le> 57)"

definition digit_value :: "char \<Rightarrow> nat" where
  "digit_value c = of_char c - 48"

definition number :: "string \<Rightarrow> nat" where
  "number ds = foldl (\<lambda>n c. 10 * n + digit_value c) 0 ds"

text \<open>
  The subject sequence of \<open>strtoull\<close> and \<open>strtol\<close> in base 10: blanks, a sign, digits. What follows the
  digits is ignored; without digits there is no conversion.
\<close>

definition strto_number :: "string \<Rightarrow> (bool \<times> nat) option" where
  "strto_number s =
     (let t = dropWhile is_space s;
          negative = (t \<noteq> [] \<and> hd t = CHR ''-'');
          u = (if t \<noteq> [] \<and> (hd t = CHR ''-'' \<or> hd t = CHR ''+'') then tl t else t);
          ds = takeWhile is_digit u
      in if ds = [] then None else Some (negative, number ds))"

text \<open>A minus sign negates the \<open>unsigned long long\<close>, modulo \<open>2 ^ 64\<close>.\<close>

definition stoull :: "string \<Rightarrow> parse_error + u64" where
  "stoull s =
     (case strto_number s of
        None \<Rightarrow> Inl Invalid_Argument
      | Some (negative, n) \<Rightarrow>
          if n \<ge> 2 ^ 64 then Inl Out_Of_Range
          else Inr (if negative then - of_nat n else of_nat n))"

definition stoi :: "string \<Rightarrow> parse_error + int" where
  "stoi s =
     (case strto_number s of
        None \<Rightarrow> Inl Invalid_Argument
      | Some (negative, n) \<Rightarrow>
          let v = (if negative then - int n else int n)
          in if v < - (2 ^ 31) \<or> 2 ^ 31 \<le> v then Inl Out_Of_Range else Inr v)"

section \<open>Arguments\<close>

definition parse_u64_arg :: "string option \<Rightarrow> u64 \<Rightarrow> parse_error + u64" where
  "parse_u64_arg v fallback = (case v of None \<Rightarrow> Inr fallback | Some s \<Rightarrow> stoull s)"

definition parse_int_arg :: "string option \<Rightarrow> int \<Rightarrow> parse_error + int" where
  "parse_int_arg v fallback = (case v of None \<Rightarrow> Inr fallback | Some s \<Rightarrow> stoi s)"

definition parse_bool_arg :: "string option \<Rightarrow> bool \<Rightarrow> parse_error + bool" where
  "parse_bool_arg v fallback =
     (case v of None \<Rightarrow> Inr fallback | Some s \<Rightarrow> map_sum id (\<lambda>i. i \<noteq> 0) (stoi s))"

text \<open>\<open>argc > i ? parse(argv[i], fallback) : fallback\<close>, and the sequence of two such reads.\<close>

definition argument ::
  "(string option \<Rightarrow> 'a \<Rightarrow> parse_error + 'a) \<Rightarrow> nat \<Rightarrow> 'a \<Rightarrow> string list \<Rightarrow> parse_error + 'a" where
  "argument parse i fallback argv =
     (if length argv > i then parse (Some (argv ! i)) fallback else Inr fallback)"

definition and_then :: "parse_error + 'a \<Rightarrow> ('a \<Rightarrow> parse_error + 'b) \<Rightarrow> parse_error + 'b" where
  "and_then x f = (case x of Inl e \<Rightarrow> Inl e | Inr a \<Rightarrow> f a)"

lemma and_then_simps [simp]:
  "and_then (Inl e) f = Inl e"
  "and_then (Inr a) f = f a"
  by (simp_all add: and_then_def)

section \<open>The settings of each program\<close>

record queue_settings =
  qs_num_messages :: u64
  qs_queue_capacity :: u64
  qs_producer_cpu :: int
  qs_consumer_cpu :: int

record feed_settings =
  fs_num_messages :: u64
  fs_send_buffer_bytes :: int
  fs_receive_buffer_bytes :: int
  fs_producer_cpu :: int
  fs_consumer_cpu :: int

record sharing_settings =
  ss_iterations :: u64
  ss_first_cpu :: int
  ss_second_cpu :: int

definition single_thread_settings :: "string list \<Rightarrow> parse_error + u64" where
  "single_thread_settings argv = (if length argv > 1 then stoull (argv ! 1) else Inr 1000000)"

definition batching_settings :: "string list \<Rightarrow> parse_error + u64" where
  "batching_settings argv = argument parse_u64_arg 1 1000000 argv"

definition memory_pool_settings :: "string list \<Rightarrow> parse_error + u64 \<times> u64" where
  "memory_pool_settings argv =
     and_then (argument parse_u64_arg 1 1000000 argv) (\<lambda>num_messages.
     and_then (argument parse_u64_arg 2 num_messages argv) (\<lambda>capacity.
     Inr (num_messages, capacity)))"

definition spsc_settings :: "string list \<Rightarrow> parse_error + queue_settings" where
  "spsc_settings argv =
     and_then (argument parse_u64_arg 1 1000000 argv) (\<lambda>num_messages.
     and_then (argument parse_u64_arg 2 65536 argv) (\<lambda>queue_capacity.
     and_then (argument parse_int_arg 3 (- 1) argv) (\<lambda>producer_cpu.
     and_then (argument parse_int_arg 4 (- 1) argv) (\<lambda>consumer_cpu.
     Inr \<lparr>qs_num_messages = num_messages, qs_queue_capacity = queue_capacity,
          qs_producer_cpu = producer_cpu, qs_consumer_cpu = consumer_cpu\<rparr>))))"

definition producer_consumer_settings :: "string list \<Rightarrow> parse_error + queue_settings" where
  "producer_consumer_settings argv =
     and_then (argument parse_u64_arg 1 1000000 argv) (\<lambda>num_messages.
     and_then (argument parse_u64_arg 2 65536 argv) (\<lambda>queue_capacity.
     and_then (argument parse_int_arg 3 (- 1) argv) (\<lambda>producer_cpu.
     and_then (argument parse_int_arg 4 (- 1) argv) (\<lambda>consumer_cpu.
     Inr \<lparr>qs_num_messages = num_messages, qs_queue_capacity = queue_capacity,
          qs_producer_cpu = producer_cpu, qs_consumer_cpu = consumer_cpu\<rparr>))))"

definition spsc_pooled_settings :: "string list \<Rightarrow> parse_error + queue_settings \<times> u64" where
  "spsc_pooled_settings argv =
     and_then (argument parse_u64_arg 1 1000000 argv) (\<lambda>num_messages.
     and_then (argument parse_u64_arg 2 65536 argv) (\<lambda>queue_capacity.
     and_then (argument parse_int_arg 3 (- 1) argv) (\<lambda>producer_cpu.
     and_then (argument parse_int_arg 4 (- 1) argv) (\<lambda>consumer_cpu.
     and_then (argument parse_u64_arg 5 num_messages argv) (\<lambda>capacity.
     Inr (\<lparr>qs_num_messages = num_messages, qs_queue_capacity = queue_capacity,
           qs_producer_cpu = producer_cpu, qs_consumer_cpu = consumer_cpu\<rparr>, capacity))))))"

definition tcp_settings :: "string list \<Rightarrow> parse_error + feed_settings \<times> bool" where
  "tcp_settings argv =
     and_then (argument parse_u64_arg 1 1000000 argv) (\<lambda>num_messages.
     and_then (argument parse_bool_arg 2 True argv) (\<lambda>tcp_no_delay.
     and_then (argument parse_int_arg 3 0 argv) (\<lambda>send_buffer_bytes.
     and_then (argument parse_int_arg 4 0 argv) (\<lambda>receive_buffer_bytes.
     and_then (argument parse_int_arg 5 (- 1) argv) (\<lambda>producer_cpu.
     and_then (argument parse_int_arg 6 (- 1) argv) (\<lambda>consumer_cpu.
     Inr (\<lparr>fs_num_messages = num_messages, fs_send_buffer_bytes = send_buffer_bytes,
           fs_receive_buffer_bytes = receive_buffer_bytes, fs_producer_cpu = producer_cpu,
           fs_consumer_cpu = consumer_cpu\<rparr>, tcp_no_delay)))))))"

definition udp_settings :: "string list \<Rightarrow> parse_error + feed_settings \<times> int" where
  "udp_settings argv =
     and_then (argument parse_u64_arg 1 1000000 argv) (\<lambda>num_messages.
     and_then (argument parse_int_arg 2 0 argv) (\<lambda>send_buffer_bytes.
     and_then (argument parse_int_arg 3 0 argv) (\<lambda>receive_buffer_bytes.
     and_then (argument parse_int_arg 4 (- 1) argv) (\<lambda>producer_cpu.
     and_then (argument parse_int_arg 5 (- 1) argv) (\<lambda>consumer_cpu.
     and_then (argument parse_int_arg 6 1000 argv) (\<lambda>receive_timeout_ms.
     Inr (\<lparr>fs_num_messages = num_messages, fs_send_buffer_bytes = send_buffer_bytes,
           fs_receive_buffer_bytes = receive_buffer_bytes, fs_producer_cpu = producer_cpu,
           fs_consumer_cpu = consumer_cpu\<rparr>, receive_timeout_ms)))))))"

definition sharing_settings_of :: "string list \<Rightarrow> parse_error + sharing_settings" where
  "sharing_settings_of argv =
     and_then (argument parse_u64_arg 1 100000000 argv) (\<lambda>iterations.
     and_then (argument parse_int_arg 2 (- 1) argv) (\<lambda>first_cpu.
     and_then (argument parse_int_arg 3 (- 1) argv) (\<lambda>second_cpu.
     Inr \<lparr>ss_iterations = iterations, ss_first_cpu = first_cpu, ss_second_cpu = second_cpu\<rparr>)))"

section \<open>Decimal numbers are read back\<close>

lemma digit_facts:
  assumes "d < 10"
  shows "is_digit (digit d)" and "digit_value (digit d) = d" and "\<not> is_space (digit d)"
    and "digit d \<noteq> CHR ''-''" and "digit d \<noteq> CHR ''+''"
proof -
  have code: "of_char (digit d) = (48 + d :: nat)" using assms by (simp add: digit_def)
  then show "is_digit (digit d)" and "digit_value (digit d) = d" and "\<not> is_space (digit d)"
    using assms by (simp_all add: is_digit_def digit_value_def is_space_def Let_def)
  show "digit d \<noteq> CHR ''-''" and "digit d \<noteq> CHR ''+''" using code by auto
qed

lemma number_snoc: "number (ds @ [c]) = 10 * number ds + digit_value c"
  by (simp add: number_def)

lemma number_single [simp]: "number [c] = digit_value c"
  by (simp add: number_def)

lemma number_decimal: "number (decimal n) = n"
proof (induction n rule: decimal.induct)
  case (1 n)
  show ?case
  proof (cases "n < 10")
    case True
    then show ?thesis by (simp add: decimal.simps [of n] digit_facts)
  next
    case False
    then show ?thesis using 1 by (simp add: decimal.simps [of n] number_snoc digit_facts)
  qed
qed

lemma decimal_digits: "c \<in> set (decimal n) \<Longrightarrow> is_digit c"
proof (induction n rule: decimal.induct)
  case (1 n)
  then show ?case by (cases "n < 10") (auto simp: decimal.simps [of n] digit_facts)
qed

lemma decimal_first: "\<exists>d ds. d < 10 \<and> decimal n = digit d # ds"
proof (induction n rule: decimal.induct)
  case (1 n)
  then show ?case by (cases "n < 10") (auto simp: decimal.simps [of n])
qed

lemma strto_decimal:
  "strto_number (decimal n) = Some (False, n)"
  "strto_number (CHR ''-'' # decimal n) = Some (True, n)"
proof -
  obtain d ds where d: "d < 10" "decimal n = digit d # ds" using decimal_first by blast
  have "takeWhile is_digit (decimal n) = decimal n" using decimal_digits by (simp add: takeWhile_eq_all_conv)
  moreover have "dropWhile is_space (decimal n) = decimal n" using d digit_facts(3) by simp
  moreover have "\<not> is_space (CHR ''-'')" by (simp add: is_space_def)
  moreover have "hd (decimal n) \<noteq> CHR ''-''" and "hd (decimal n) \<noteq> CHR ''+''" and "decimal n \<noteq> []"
    using d digit_facts(4,5) by simp_all
  ultimately show "strto_number (decimal n) = Some (False, n)"
    and "strto_number (CHR ''-'' # decimal n) = Some (True, n)"
    by (simp_all add: strto_number_def Let_def number_decimal del: takeWhile_eq_all_conv)
qed

section \<open>Properties\<close>

text \<open>
  Property C38. Arguments are read back: \<open>parse_u64_arg\<close> reads the decimal of a natural number below 2^64
  as itself, \<open>parse_int_arg\<close> the decimal of an integer, negative or not, from -2^31 below 2^31 as itself,
  and \<open>parse_bool_arg\<close> as whether it is not 0. Decimals of naturals from 2^64 on and of integers outside
  that range are \<open>out_of_range\<close> exceptions and the empty string is an \<open>invalid_argument\<close> one. A count with a
  minus sign is accepted: up to 2^64 - 1 it is negated modulo 2^64, beyond it is \<open>out_of_range\<close>.
\<close>

theorem arguments_roundtrip:
  "parse_u64_arg (Some (decimal n)) d =
     (if n < 2 ^ 64 then Inr (of_nat n) else Inl Out_Of_Range) \<and>
   parse_u64_arg (Some (CHR ''-'' # decimal n)) d =
     (if n < 2 ^ 64 then Inr (- of_nat n) else Inl Out_Of_Range) \<and>
   parse_int_arg (Some (decimal_int i)) e =
     (if - (2 ^ 31) \<le> i \<and> i < 2 ^ 31 then Inr i else Inl Out_Of_Range) \<and>
   parse_bool_arg (Some (decimal_int i)) f =
     (if - (2 ^ 31) \<le> i \<and> i < 2 ^ 31 then Inr (i \<noteq> 0) else Inl Out_Of_Range) \<and>
   parse_u64_arg (Some []) d = Inl Invalid_Argument \<and> parse_int_arg (Some []) e = Inl Invalid_Argument \<and>
   parse_bool_arg (Some []) f = Inl Invalid_Argument"
proof -
  have stoi: "stoi (decimal_int i) = (if - (2 ^ 31) \<le> i \<and> i < 2 ^ 31 then Inr i else Inl Out_Of_Range)"
    by (simp add: stoi_def decimal_int_def strto_decimal Let_def) linarith
  have "strto_number [] = None" by (simp add: strto_number_def)
  then have "stoull [] = Inl Invalid_Argument" and "stoi [] = Inl Invalid_Argument"
    by (simp_all add: stoull_def stoi_def)
  moreover have "stoull (decimal n) = (if n < 2 ^ 64 then Inr (of_nat n) else Inl Out_Of_Range)"
    and "stoull (CHR ''-'' # decimal n) = (if n < 2 ^ 64 then Inr (- of_nat n) else Inl Out_Of_Range)"
    by (simp_all add: stoull_def strto_decimal)
  ultimately show ?thesis
    by (simp add: parse_u64_arg_def parse_int_arg_def parse_bool_arg_def stoi)
qed

text \<open>
  A negative count is not rejected: \<open>std::stoull\<close> negates modulo \<open>2 ^ 64\<close>, so \<open>-1\<close> asks for
  18446744073709551615 messages.
\<close>

lemma negative_count: "n < 2 ^ 64 \<Longrightarrow> parse_u64_arg (Some (CHR ''-'' # decimal n)) d = Inr (- of_nat n)"
  by (simp add: parse_u64_arg_def stoull_def strto_decimal)

lemma negative_count_example: "parse_u64_arg (Some ''-1'') d = Inr 18446744073709551615"
proof -
  have one: "decimal 1 = ''1''" by code_simp
  show ?thesis using negative_count [of 1 d] unfolding one by simp
qed

text \<open>
  The command lines of the README: started without arguments each program uses the
  documented defaults (the pool as large as the number of messages, no pinning, a timeout of one
  second), and the documented argument lists set the settings they name, in that order.
\<close>

lemma documented_command_lines:
  "single_thread_settings [prog] = Inr 1000000 \<and> batching_settings [prog] = Inr 1000000 \<and>
   memory_pool_settings [prog] = Inr (1000000, 1000000) \<and>
   memory_pool_settings [prog, ''500''] = Inr (500, 500) \<and>
   spsc_settings [prog] = Inr \<lparr>qs_num_messages = 1000000, qs_queue_capacity = 65536,
     qs_producer_cpu = - 1, qs_consumer_cpu = - 1\<rparr> \<and>
   producer_consumer_settings [prog, ''1000000'', ''65536'', ''2'', ''3''] =
     Inr \<lparr>qs_num_messages = 1000000, qs_queue_capacity = 65536, qs_producer_cpu = 2, qs_consumer_cpu = 3\<rparr> \<and>
   spsc_pooled_settings [prog, ''1000000'', ''65536'', ''2'', ''3'', ''1000000''] =
     Inr (\<lparr>qs_num_messages = 1000000, qs_queue_capacity = 65536, qs_producer_cpu = 2,
       qs_consumer_cpu = 3\<rparr>, 1000000) \<and>
   tcp_settings [prog, ''1000000'', ''1'', ''1048576'', ''1048576'', ''2'', ''3''] =
     Inr (\<lparr>fs_num_messages = 1000000, fs_send_buffer_bytes = 1048576, fs_receive_buffer_bytes = 1048576,
       fs_producer_cpu = 2, fs_consumer_cpu = 3\<rparr>, True) \<and>
   udp_settings [prog, ''1000000'', ''1048576'', ''1048576'', ''2'', ''3'', ''1000''] =
     Inr (\<lparr>fs_num_messages = 1000000, fs_send_buffer_bytes = 1048576, fs_receive_buffer_bytes = 1048576,
       fs_producer_cpu = 2, fs_consumer_cpu = 3\<rparr>, 1000) \<and>
   udp_settings [prog] = Inr (\<lparr>fs_num_messages = 1000000, fs_send_buffer_bytes = 0,
     fs_receive_buffer_bytes = 0, fs_producer_cpu = - 1, fs_consumer_cpu = - 1\<rparr>, 1000) \<and>
   sharing_settings_of [prog, ''100000000'', ''2'', ''3''] =
     Inr \<lparr>ss_iterations = 100000000, ss_first_cpu = 2, ss_second_cpu = 3\<rparr>"
proof -
  have "stoull ''500'' = Inr 500" and "stoull ''1000000'' = Inr 1000000" and "stoull ''65536'' = Inr 65536"
    and "stoull ''100000000'' = Inr 100000000" and "stoi ''1'' = Inr 1" and "stoi ''2'' = Inr 2"
    and "stoi ''3'' = Inr 3" and "stoi ''1000'' = Inr 1000" and "stoi ''1048576'' = Inr 1048576"
    by (simp_all add: stoull_def stoi_def strto_number_def is_space_def is_digit_def number_def digit_value_def)
  then show ?thesis
    by (simp add: single_thread_settings_def batching_settings_def memory_pool_settings_def
        spsc_settings_def producer_consumer_settings_def spsc_pooled_settings_def tcp_settings_def
        udp_settings_def sharing_settings_of_def argument_def parse_u64_arg_def parse_int_arg_def
        parse_bool_arg_def)
qed

end
