(* ===== verification/Udp_System.thy ===== *)
theory Udp_System
  imports Udp_Feed Startup Loopback Command_Line
begin

text \<open>
  The two threads of \<open>benchmark_udp_feed.cpp\<close> on one kernel, interleaved in any order. A step is one
  \<open>sendto\<close> or \<open>recv\<close> with the work of its thread up to the next one, or the calls that set up or close a
  socket or pin a thread, which transfer nothing, or one access to \<open>receiver_ready\<close> or \<open>producer_done\<close>.
  Clock and CPU readings inside the loops are arbitrary values of a step. An acquire load may return the
  old value \<open>false\<close> at any time, \<open>true\<close> only after it was stored.
\<close>

section \<open>State\<close>

datatype udp_sender =
    Sender_Pins
  | Await_Receiver
  | Sending int
  | Sends_Over int
  | Sender_Exited
  | Sender_Threw string

datatype udp_receiver =
    Receiver_Pins
  | Announce
  | First_Cpu
  | Receiving
  | Check_Done
  | Receiver_Exited

record ('k, 'b) udp_system =
  us_kernel :: 'k
  us_sender :: udp_sender
  us_receiver :: udp_receiver
  us_todo :: "market_message list"
  us_producer :: feed_producer
  us_consumer :: "'b feed_consumer"
  us_receiver_ready :: bool
  us_producer_done :: bool
  us_sender_text :: string
  us_receiver_text :: string

definition udp_system_new :: "market_message list \<Rightarrow> 'b \<Rightarrow> 'k \<Rightarrow> ('k, 'b) udp_system" where
  "udp_system_new messages b k =
     \<lparr>us_kernel = k, us_sender = Sender_Pins, us_receiver = Receiver_Pins, us_todo = messages,
      us_producer = producer_new (- 1), us_consumer = consumer_new b (- 1),
      us_receiver_ready = False, us_producer_done = False, us_sender_text = [], us_receiver_text = []\<rparr>"

section \<open>Steps\<close>

text \<open>
  An exception of \<open>create_udp_sender\<close> leaves its thread and so ends the program: after
  \<open>Sender_Threw\<close> no thread takes a step.
\<close>

definition program_runs :: "('k, 'b) udp_system \<Rightarrow> bool" where
  "program_runs s = (case us_sender s of Sender_Threw e \<Rightarrow> False | _ \<Rightarrow> True)"

inductive udp_step ::
  "'k os \<Rightarrow> ('b \<Rightarrow> market_message \<Rightarrow> 'b cpp) \<Rightarrow> feed_settings \<Rightarrow> int \<Rightarrow> int \<Rightarrow>
   ('k, 'b) udp_system \<Rightarrow> ('k, 'b) udp_system \<Rightarrow> bool"
  for os on_msg cfg receive_fd port where
  sender_pins:
    "us_sender s = Sender_Pins \<Longrightarrow>
     start_thread os ''Producer'' (fs_producer_cpu cfg) (us_kernel s) = (line, k) \<Longrightarrow>
     udp_step os on_msg cfg receive_fd port s
       (s\<lparr>us_kernel := k, us_sender := Await_Receiver, us_sender_text := line\<rparr>)"
| sender_yields:
    "us_sender s = Await_Receiver \<Longrightarrow> udp_step os on_msg cfg receive_fd port s s"
| sender_opens:
    "us_sender s = Await_Receiver \<Longrightarrow> us_receiver_ready s \<Longrightarrow>
     create_udp_sender os (fs_send_buffer_bytes cfg) (us_kernel s) = (Inr send_fd, k1) \<Longrightarrow>
     get_current_cpu os k1 = (cpu, k2) \<Longrightarrow>
     udp_step os on_msg cfg receive_fd port s
       (s\<lparr>us_kernel := k2, us_sender := Sending send_fd, us_producer := (us_producer s)\<lparr>fp_cpu := cpu\<rparr>\<rparr>)"
| sender_throws:
    "us_sender s = Await_Receiver \<Longrightarrow> us_receiver_ready s \<Longrightarrow>
     create_udp_sender os (fs_send_buffer_bytes cfg) (us_kernel s) = (Inl e, k1) \<Longrightarrow>
     udp_step os on_msg cfg receive_fd port s (s\<lparr>us_kernel := k1, us_sender := Sender_Threw e\<rparr>)"
| sends:
    "us_sender s = Sending send_fd \<Longrightarrow> us_todo s = msg # rest \<Longrightarrow>
     os_sendto os send_fd (message_bytes (stamp now msg)) (loopback (of_int port)) (us_kernel s) =
       (sent, k) \<Longrightarrow>
     p = (if sent = int message_size then count_produced (us_producer s) else us_producer s) \<Longrightarrow>
     udp_step os on_msg cfg receive_fd port s
       (s\<lparr>us_kernel := k, us_todo := rest, us_producer := note_cpu cpu p\<rparr>)"
| stores_done:
    "us_sender s = Sending send_fd \<Longrightarrow> us_todo s = [] \<Longrightarrow>
     udp_step os on_msg cfg receive_fd port s
       (s\<lparr>us_producer_done := True, us_sender := Sends_Over send_fd\<rparr>)"
| sender_closes:
    "us_sender s = Sends_Over send_fd \<Longrightarrow>
     udp_step os on_msg cfg receive_fd port s
       (s\<lparr>us_kernel := close_socket os send_fd (us_kernel s), us_sender := Sender_Exited\<rparr>)"
| receiver_pins:
    "us_receiver s = Receiver_Pins \<Longrightarrow>
     start_thread os ''Consumer'' (fs_consumer_cpu cfg) (us_kernel s) = (line, k) \<Longrightarrow>
     program_runs s \<Longrightarrow>
     udp_step os on_msg cfg receive_fd port s
       (s\<lparr>us_kernel := k, us_receiver := Announce, us_receiver_text := line\<rparr>)"
| announces:
    "us_receiver s = Announce \<Longrightarrow> program_runs s \<Longrightarrow>
     udp_step os on_msg cfg receive_fd port s (s\<lparr>us_receiver_ready := True, us_receiver := First_Cpu\<rparr>)"
| reads_cpu:
    "us_receiver s = First_Cpu \<Longrightarrow> get_current_cpu os (us_kernel s) = (cpu, k) \<Longrightarrow>
     program_runs s \<Longrightarrow>
     udp_step os on_msg cfg receive_fd port s
       (s\<lparr>us_kernel := k, us_receiver := Receiving, us_consumer := (us_consumer s)\<lparr>fc_cpu := cpu\<rparr>\<rparr>)"
| receive_fails:
    "us_receiver s = Receiving \<Longrightarrow> fc_consumed (us_consumer s) < fs_num_messages cfg \<Longrightarrow>
     os_recv os receive_fd message_size (us_kernel s) = ((received_bytes, bs), k) \<Longrightarrow>
     received_bytes < 0 \<Longrightarrow> program_runs s \<Longrightarrow>
     udp_step os on_msg cfg receive_fd port s (s\<lparr>us_kernel := k, us_receiver := Check_Done\<rparr>)"
| reads_not_done:
    "us_receiver s = Check_Done \<Longrightarrow> program_runs s \<Longrightarrow>
     udp_step os on_msg cfg receive_fd port s (s\<lparr>us_receiver := Receiving\<rparr>)"
| reads_done:
    "us_receiver s = Check_Done \<Longrightarrow> us_producer_done s \<Longrightarrow> program_runs s \<Longrightarrow>
     udp_step os on_msg cfg receive_fd port s
       (s\<lparr>us_kernel := close_socket os receive_fd (us_kernel s), us_receiver := Receiver_Exited\<rparr>)"
| receives_short:
    "us_receiver s = Receiving \<Longrightarrow> fc_consumed (us_consumer s) < fs_num_messages cfg \<Longrightarrow>
     os_recv os receive_fd message_size (us_kernel s) = ((received_bytes, bs), k) \<Longrightarrow>
     0 \<le> received_bytes \<Longrightarrow> received_bytes \<noteq> int message_size \<Longrightarrow>
     program_runs s \<Longrightarrow>
     udp_step os on_msg cfg receive_fd port s
       (s\<lparr>us_kernel := k, us_consumer := (us_consumer s)
            \<lparr>fc_buffer := bs @ drop (length bs) (fc_buffer (us_consumer s))\<rparr>\<rparr>)"
| receives_message:
    "us_receiver s = Receiving \<Longrightarrow> fc_consumed (us_consumer s) < fs_num_messages cfg \<Longrightarrow>
     os_recv os receive_fd message_size (us_kernel s) = ((int message_size, bs), k) \<Longrightarrow>
     process_received on_msg rd ((us_consumer s)\<lparr>fc_buffer := bs\<rparr>) = Inr c \<Longrightarrow>
     program_runs s \<Longrightarrow>
     udp_step os on_msg cfg receive_fd port s (s\<lparr>us_kernel := k, us_consumer := c\<rparr>)"
| has_all:
    "us_receiver s = Receiving \<Longrightarrow> \<not> fc_consumed (us_consumer s) < fs_num_messages cfg \<Longrightarrow>
     program_runs s \<Longrightarrow>
     udp_step os on_msg cfg receive_fd port s
       (s\<lparr>us_kernel := close_socket os receive_fd (us_kernel s), us_receiver := Receiver_Exited\<rparr>)"

inductive_cases udp_stepE: "udp_step os on_msg cfg receive_fd port s s'"

inductive udp_reachable ::
  "'k os \<Rightarrow> ('b \<Rightarrow> market_message \<Rightarrow> 'b cpp) \<Rightarrow> feed_settings \<Rightarrow> int \<Rightarrow> int \<Rightarrow> market_message list \<Rightarrow>
   'b \<Rightarrow> 'k \<Rightarrow> ('k, 'b) udp_system \<Rightarrow> bool"
  for os on_msg cfg receive_fd port messages b k where
  start: "udp_reachable os on_msg cfg receive_fd port messages b k (udp_system_new messages b k)"
| step: "udp_reachable os on_msg cfg receive_fd port messages b k s \<Longrightarrow>
    udp_step os on_msg cfg receive_fd port s s' \<Longrightarrow>
    udp_reachable os on_msg cfg receive_fd port messages b k s'"

section \<open>The network\<close>

text \<open>
  What the program needs of the network: \<open>accepted\<close> is the list of datagrams the kernel took from
  \<open>sendto\<close>, \<open>delivered\<close> the list of those a \<open>recv\<close> returned. A \<open>recv\<close> fails or returns an accepted
  datagram, cut to the size of the buffer; it may be any of them, never or several times. No other call
  sends or receives.
\<close>

definition no_traffic :: "('k \<Rightarrow> u8 list list) \<Rightarrow> ('k \<Rightarrow> u8 list list) \<Rightarrow> 'k \<Rightarrow> 'k \<Rightarrow> bool" where
  "no_traffic accepted delivered k k' \<longleftrightarrow> accepted k' = accepted k \<and> delivered k' = delivered k"

definition datagram_network :: "'k os \<Rightarrow> ('k \<Rightarrow> u8 list list) \<Rightarrow> ('k \<Rightarrow> u8 list list) \<Rightarrow> bool" where
  "datagram_network os accepted delivered \<longleftrightarrow>
     (\<forall>fd bs a k r k'. os_sendto os fd bs a k = (r, k') \<longrightarrow> delivered k' = delivered k \<and>
        accepted k' = (if r = int (length bs) then accepted k @ [bs] else accepted k)) \<and>
     (\<forall>fd n k r bs k'. os_recv os fd n k = ((r, bs), k') \<longrightarrow>
        (if r < 0 then no_traffic accepted delivered k k'
         else accepted k' = accepted k \<and> (\<exists>d \<in> set (accepted k).
           delivered k' = delivered k @ [d] \<and> bs = take n d \<and> r = int (length bs)))) \<and>
     (\<forall>ty k. no_traffic accepted delivered k (snd (os_socket os ty k))) \<and>
     (\<forall>fd opt k. no_traffic accepted delivered k (snd (os_setsockopt os fd opt k))) \<and>
     (\<forall>fd k. no_traffic accepted delivered k (os_close os fd k)) \<and>
     (\<forall>m k. no_traffic accepted delivered k (snd (os_setaffinity os m k))) \<and>
     (\<forall>k. no_traffic accepted delivered k (snd (os_getcpu os k))) \<and>
     (\<forall>fd a k. no_traffic accepted delivered k (snd (os_bind os fd a k))) \<and>
     (\<forall>fd k. no_traffic accepted delivered k (snd (os_getsockname os fd k)))"

text \<open>A network that neither duplicates nor reorders.\<close>

definition in_order :: "('k \<Rightarrow> u8 list list) \<Rightarrow> ('k \<Rightarrow> u8 list list) \<Rightarrow> bool" where
  "in_order accepted delivered \<longleftrightarrow> (\<forall>k. subseq (delivered k) (accepted k))"

lemma networkD:
  assumes "datagram_network os accepted delivered"
  shows "os_sendto os fd bs a k = (r, k') \<Longrightarrow> delivered k' = delivered k \<and>
      accepted k' = (if r = int (length bs) then accepted k @ [bs] else accepted k)"
    and "os_recv os fd n k = ((r, bs'), k') \<Longrightarrow>
      (if r < 0 then no_traffic accepted delivered k k'
       else accepted k' = accepted k \<and> (\<exists>d \<in> set (accepted k).
         delivered k' = delivered k @ [d] \<and> bs' = take n d \<and> r = int (length bs')))"
    and "no_traffic accepted delivered k (snd (os_socket os ty k))"
    and "no_traffic accepted delivered k (snd (os_setsockopt os fd opt k))"
    and "no_traffic accepted delivered k (os_close os fd k)"
    and "no_traffic accepted delivered k (snd (os_setaffinity os m k))"
    and "no_traffic accepted delivered k (snd (os_getcpu os k))"
    and "no_traffic accepted delivered k (snd (os_bind os fd a k))"
    and "no_traffic accepted delivered k (snd (os_getsockname os fd k))"
proof -
  note a = assms [unfolded datagram_network_def]
  show "os_sendto os fd bs a k = (r, k') \<Longrightarrow> delivered k' = delivered k \<and>
      accepted k' = (if r = int (length bs) then accepted k @ [bs] else accepted k)"
    by (rule a [THEN conjunct1, rule_format])
  show "os_recv os fd n k = ((r, bs'), k') \<Longrightarrow>
      (if r < 0 then no_traffic accepted delivered k k'
       else accepted k' = accepted k \<and> (\<exists>d \<in> set (accepted k).
         delivered k' = delivered k @ [d] \<and> bs' = take n d \<and> r = int (length bs')))"
    by (rule a [THEN conjunct2, THEN conjunct1, rule_format])
qed (use assms in \<open>auto simp: datagram_network_def\<close>)

lemma network_helpers:
  assumes "datagram_network os accepted delivered"
  shows "no_traffic accepted delivered k (close_socket os fd k)"
    and "get_current_cpu os k = (c, k') \<Longrightarrow> no_traffic accepted delivered k k'"
    and "start_thread os who cpu k = (line, k') \<Longrightarrow> no_traffic accepted delivered k k'"
    and "create_udp_sender os bytes k = (x, k') \<Longrightarrow> no_traffic accepted delivered k k'"
    and "open_udp_feed os bytes timeout k = (y, k') \<Longrightarrow> no_traffic accepted delivered k k'"
proof -
  note facts = networkD(3-) [OF assms, unfolded no_traffic_def]
  show "no_traffic accepted delivered k (close_socket os fd k)"
    by (simp add: close_socket_def no_traffic_def facts)
  show "get_current_cpu os k = (c, k') \<Longrightarrow> no_traffic accepted delivered k k'"
    using facts(5) [of k] by (simp add: get_current_cpu_def no_traffic_def)
  show "start_thread os who cpu k = (line, k') \<Longrightarrow> no_traffic accepted delivered k k'"
    using facts(4) [of _ k]
    by (auto simp: start_thread_def pin_thread_to_cpu_def no_traffic_def Let_def case_prod_beta
        split: if_splits)
  show "create_udp_sender os bytes k = (x, k') \<Longrightarrow> no_traffic accepted delivered k k'"
    by (auto simp: create_udp_sender_def set_socket_send_buffer_def no_traffic_def facts Let_def
        case_prod_beta split: if_splits)
  show "open_udp_feed os bytes timeout k = (y, k') \<Longrightarrow> no_traffic accepted delivered k k'"
    by (auto simp: open_udp_feed_def open_receiver_def create_udp_receiver_def get_bound_port_def
        set_socket_receive_buffer_def close_socket_def no_traffic_def facts Let_def case_prod_beta
        split: if_splits sum.splits)
qed

section \<open>Invariant\<close>

text \<open>The sender: what the network accepted is a part of the messages taken, stamped and counted.\<close>

definition udp_sender_inv ::
  "('k \<Rightarrow> u8 list list) \<Rightarrow> market_message list \<Rightarrow> ('k, 'b) udp_system \<Rightarrow> bool" where
  "udp_sender_inv accepted messages s \<longleftrightarrow>
     (\<exists>pre ss sent. messages = pre @ us_todo s \<and> subseq ss pre \<and> stamps_of sent ss \<and>
        accepted (us_kernel s) = map message_bytes sent) \<and>
     fp_produced (us_producer s) = of_nat (length (accepted (us_kernel s))) \<and>
     (case us_sender s of
        Sending fd \<Rightarrow> us_receiver_ready s
      | Sends_Over fd \<Rightarrow> us_todo s = [] \<and> us_producer_done s
      | Sender_Exited \<Rightarrow> us_todo s = [] \<and> us_producer_done s
      | _ \<Rightarrow> us_todo s = messages) \<and>
     (us_producer_done s \<longrightarrow> (\<exists>fd. us_sender s = Sends_Over fd) \<or> us_sender s = Sender_Exited)"

text \<open>The receiver: the book is the result of the datagrams delivered, each measured once.\<close>

definition udp_receiver_inv ::
  "('k \<Rightarrow> u8 list list) \<Rightarrow> ('k \<Rightarrow> u8 list list) \<Rightarrow> ('b \<Rightarrow> market_message \<Rightarrow> 'b cpp) \<Rightarrow> u64 \<Rightarrow> 'b \<Rightarrow>
   ('k, 'b) udp_system \<Rightarrow> bool" where
  "udp_receiver_inv accepted delivered on_msg num b s \<longleftrightarrow>
     (let ds = delivered (us_kernel s); c = us_consumer s in
        set ds \<subseteq> set (accepted (us_kernel s)) \<and> feed (on_bytes on_msg) ds b = Inr (fc_book c) \<and>
        unat (fc_consumed c) = length ds \<and> length ds \<le> unat num \<and>
        length (samples (fc_network c)) = length ds \<and> length (samples (fc_processing c)) = length ds) \<and>
     (us_receiver s = Receiver_Exited \<longrightarrow> us_producer_done s \<or> fc_consumed (us_consumer s) = num) \<and>
     (us_receiver_ready s \<longleftrightarrow> us_receiver s \<noteq> Receiver_Pins \<and> us_receiver s \<noteq> Announce)"

text \<open>A step that neither sends nor receives keeps both parts, if it keeps the fields they speak of.\<close>

lemma udp_inv_frame:
  assumes "no_traffic accepted delivered (us_kernel s) (us_kernel s')"
  shows "udp_sender_inv accepted messages s \<Longrightarrow> us_todo s' = us_todo s \<Longrightarrow>
      fp_produced (us_producer s') = fp_produced (us_producer s) \<Longrightarrow> us_sender s' = us_sender s \<Longrightarrow>
      us_producer_done s' = us_producer_done s \<Longrightarrow> (us_receiver_ready s \<Longrightarrow> us_receiver_ready s') \<Longrightarrow>
      udp_sender_inv accepted messages s'"
    and "udp_receiver_inv accepted delivered on_msg num b s \<Longrightarrow>
      us_consumer s' = us_consumer s \<Longrightarrow> us_receiver s' = us_receiver s \<Longrightarrow>
      us_receiver_ready s' = us_receiver_ready s \<Longrightarrow> (us_producer_done s \<Longrightarrow> us_producer_done s') \<Longrightarrow>
      udp_receiver_inv accepted delivered on_msg num b s'"
  using assms
  by (auto simp: udp_sender_inv_def udp_receiver_inv_def no_traffic_def Let_def split: udp_sender.splits)

text \<open>One whole datagram.\<close>

lemma process_received_bytes:
  assumes "process_received on_msg rd (c\<lparr>fc_buffer := bs\<rparr>) = Inr c'"
  shows "on_bytes on_msg (fc_book c) bs = Inr (fc_book c')" and "fc_consumed c' = fc_consumed c + 1"
    and "length (samples (fc_network c')) = length (samples (fc_network c)) + 1"
    and "length (samples (fc_processing c')) = length (samples (fc_processing c)) + 1"
    and "fc_buffer c' = bs"
  using assms by (auto simp: process_received_def recorder_record_def cpp_map_Inr_iff)

lemma stamps_of_snoc: "stamps_of qs ms \<Longrightarrow> stamps_of (qs @ [stamp now msg]) (ms @ [msg])"
  unfolding stamps_of_def by (auto intro: list_all2_appendI)

definition udp_inv ::
  "('k \<Rightarrow> u8 list list) \<Rightarrow> ('k \<Rightarrow> u8 list list) \<Rightarrow> ('b \<Rightarrow> market_message \<Rightarrow> 'b cpp) \<Rightarrow> u64 \<Rightarrow>
   market_message list \<Rightarrow> 'b \<Rightarrow> ('k, 'b) udp_system \<Rightarrow> bool" where
  "udp_inv accepted delivered on_msg num messages b s \<longleftrightarrow>
     udp_sender_inv accepted messages s \<and> udp_receiver_inv accepted delivered on_msg num b s"

lemma udp_sends_inv:
  assumes net: "datagram_network os accepted delivered" and ws: "\<forall>msg \<in> set messages. well_sized msg"
    and inv: "udp_inv accepted delivered on_msg num messages b s"
    and sends: "us_sender s = Sending send_fd" "us_todo s = msg # rest"
      "os_sendto os send_fd (message_bytes (stamp now msg)) receiver (us_kernel s) = (sent, k)"
      "p = (if sent = int message_size then count_produced (us_producer s) else us_producer s)"
  shows "udp_inv accepted delivered on_msg num messages b
     (s\<lparr>us_kernel := k, us_todo := rest, us_producer := note_cpu cpu p\<rparr>)"
proof -
  let ?d = "message_bytes (stamp now msg)"
  obtain pre ss qs where pre: "messages = pre @ us_todo s" "subseq ss pre" "stamps_of qs ss"
      "accepted (us_kernel s) = map message_bytes qs"
    using inv by (auto simp: udp_inv_def udp_sender_inv_def)
  then have "length ?d = message_size" using ws sends(2) by (simp add: length_message_bytes)
  with networkD(1) [OF net sends(3)] have acc: "delivered k = delivered (us_kernel s)"
      "accepted k = (if sent = int message_size then accepted (us_kernel s) @ [?d] else accepted (us_kernel s))"
    by simp_all
  have "subseq ss (pre @ [msg])" "subseq (ss @ [msg]) (pre @ [msg])" "messages = (pre @ [msg]) @ rest"
    using pre sends(2) list_emb_append_mono [OF pre(2), of "[]" "[msg]"] by simp_all
  then have "\<exists>pre ss sent. messages = pre @ rest \<and> subseq ss pre \<and> stamps_of sent ss \<and>
      accepted k = map message_bytes sent"
    using pre(3,4) stamps_of_snoc [OF pre(3), of now msg] acc(2)
    by (cases "sent = int message_size")
       (intro exI [of _ "pre @ [msg]"] exI [of _ "ss @ [msg]"] exI [of _ "qs @ [stamp now msg]"],
        simp, intro exI [of _ "pre @ [msg]"] exI [of _ ss] exI [of _ qs], simp)
  with inv sends acc show ?thesis
    by (auto simp: udp_inv_def udp_sender_inv_def udp_receiver_inv_def Let_def split: if_splits)
qed

lemma udp_receives_inv:
  assumes net: "datagram_network os accepted delivered" and ws: "\<forall>msg \<in> set messages. well_sized msg"
    and inv: "udp_inv accepted delivered on_msg num messages b s"
    and room: "us_receiver s = Receiving" "fc_consumed (us_consumer s) < num"
    and recv: "os_recv os receive_fd message_size (us_kernel s) = ((r, bs), k)" "0 \<le> r"
  shows "r = int message_size" and "delivered k = delivered (us_kernel s) @ [bs]"
    and "bs \<in> set (accepted (us_kernel s))" and "accepted k = accepted (us_kernel s)"
    and "process_received on_msg rd ((us_consumer s)\<lparr>fc_buffer := bs\<rparr>) = Inr c \<Longrightarrow>
      udp_inv accepted delivered on_msg num messages b (s\<lparr>us_kernel := k, us_consumer := c\<rparr>)"
proof -
  obtain pre ss qs where pre: "messages = pre @ us_todo s" "subseq ss pre" "stamps_of qs ss"
      "accepted (us_kernel s) = map message_bytes qs"
    using inv by (auto simp: udp_inv_def udp_sender_inv_def)
  have "\<forall>q \<in> set qs. well_sized q"
    using stamps_of_well_sized [OF pre(3)] list_emb_set [OF pre(2)] ws pre(1) by fastforce
  then have size: "\<forall>d \<in> set (accepted (us_kernel s)). length d = message_size"
    unfolding pre(4) by (auto simp: length_message_bytes)
  obtain d where d: "d \<in> set (accepted (us_kernel s))" "accepted k = accepted (us_kernel s)"
      "delivered k = delivered (us_kernel s) @ [d]" "bs = take message_size d" "r = int (length bs)"
    using networkD(2) [OF net recv(1)] recv(2) by auto
  then have "bs = d" using size by simp
  with d size show "r = int message_size" and del: "delivered k = delivered (us_kernel s) @ [bs]"
    and bs: "bs \<in> set (accepted (us_kernel s))" and acc: "accepted k = accepted (us_kernel s)"
    by simp_all
  assume run: "process_received on_msg rd ((us_consumer s)\<lparr>fc_buffer := bs\<rparr>) = Inr c"
  note c = process_received_bytes [OF run]
  have less: "unat (fc_consumed (us_consumer s)) < unat num" using room(2) by (simp add: word_less_nat_alt)
  then have "unat (fc_consumed c) = unat (fc_consumed (us_consumer s)) + 1"
    using c(2) unsigned_less [of num, where ?'a = nat] by (simp add: unat_word_ariths(1))
  with inv room less c del bs acc
  show "udp_inv accepted delivered on_msg num messages b (s\<lparr>us_kernel := k, us_consumer := c\<rparr>)"
    by (auto simp: udp_inv_def udp_sender_inv_def udp_receiver_inv_def Let_def feed_append
        split: udp_sender.splits)
qed

lemma udp_quiet_sender:
  assumes "udp_inv accepted delivered on_msg num messages b s"
    and "no_traffic accepted delivered (us_kernel s) (us_kernel s')"
    and "us_todo s' = us_todo s" and "fp_produced (us_producer s') = fp_produced (us_producer s)"
    and "us_consumer s' = us_consumer s" and "us_receiver s' = us_receiver s"
    and "us_receiver_ready s' = us_receiver_ready s" and "us_producer_done s \<Longrightarrow> us_producer_done s'"
    and "case us_sender s' of
        Sending fd \<Rightarrow> us_receiver_ready s'
      | Sends_Over fd \<Rightarrow> us_todo s' = [] \<and> us_producer_done s'
      | Sender_Exited \<Rightarrow> us_todo s' = [] \<and> us_producer_done s'
      | _ \<Rightarrow> us_todo s' = messages \<and> \<not> us_producer_done s'"
    and "\<not> us_producer_done s' \<or> (\<exists>fd. us_sender s' = Sends_Over fd) \<or> us_sender s' = Sender_Exited"
  shows "udp_inv accepted delivered on_msg num messages b s'"
proof -
  have "udp_receiver_inv accepted delivered on_msg num b s'"
    using assms(1) by (intro udp_inv_frame(2) [OF assms(2) _ assms(5,6,7,8)]) (simp_all add: udp_inv_def)
  moreover have "accepted (us_kernel s') = accepted (us_kernel s)" using assms(2) by (simp add: no_traffic_def)
  moreover have "case us_sender s' of
        Sending fd \<Rightarrow> us_receiver_ready s'
      | Sends_Over fd \<Rightarrow> us_todo s' = [] \<and> us_producer_done s'
      | Sender_Exited \<Rightarrow> us_todo s' = [] \<and> us_producer_done s'
      | _ \<Rightarrow> us_todo s' = messages"
    using assms(9) by (cases "us_sender s'") simp_all
  ultimately show ?thesis
    using assms(1,3,4,10) unfolding udp_inv_def udp_sender_inv_def by metis
qed

lemma udp_quiet_receiver:
  assumes "udp_inv accepted delivered on_msg num messages b s"
    and "no_traffic accepted delivered (us_kernel s) (us_kernel s')"
    and "us_sender s' = us_sender s" and "us_todo s' = us_todo s" and "us_producer s' = us_producer s"
    and "us_producer_done s' = us_producer_done s"
    and "fc_book (us_consumer s') = fc_book (us_consumer s)"
    and "fc_consumed (us_consumer s') = fc_consumed (us_consumer s)"
    and "fc_network (us_consumer s') = fc_network (us_consumer s)"
    and "fc_processing (us_consumer s') = fc_processing (us_consumer s)"
    and "us_receiver_ready s \<Longrightarrow> us_receiver_ready s'"
    and "us_receiver_ready s' \<longleftrightarrow> us_receiver s' \<noteq> Receiver_Pins \<and> us_receiver s' \<noteq> Announce"
    and "us_receiver s' = Receiver_Exited \<Longrightarrow> us_producer_done s \<or> fc_consumed (us_consumer s) = num"
  shows "udp_inv accepted delivered on_msg num messages b s'"
  using assms udp_inv_frame(1) [OF assms(2)]
  by (auto simp: udp_inv_def udp_receiver_inv_def no_traffic_def Let_def)

lemma udp_step_inv:
  assumes net: "datagram_network os accepted delivered" and ws: "\<forall>msg \<in> set messages. well_sized msg"
    and inv: "udp_inv accepted delivered on_msg (fs_num_messages cfg) messages b s"
    and step: "udp_step os on_msg cfg receive_fd port s s'"
  shows "udp_inv accepted delivered on_msg (fs_num_messages cfg) messages b s'"
proof -
  have send: "us_producer_done s \<longrightarrow> (\<exists>fd. us_sender s = Sends_Over fd) \<or> us_sender s = Sender_Exited"
    and pc: "case us_sender s of
        Sending fd \<Rightarrow> us_receiver_ready s
      | Sends_Over fd \<Rightarrow> us_todo s = [] \<and> us_producer_done s
      | Sender_Exited \<Rightarrow> us_todo s = [] \<and> us_producer_done s
      | _ \<Rightarrow> us_todo s = messages"
    and ready: "us_receiver_ready s \<longleftrightarrow> us_receiver s \<noteq> Receiver_Pins \<and> us_receiver s \<noteq> Announce"
    and count: "unat (fc_consumed (us_consumer s)) \<le> unat (fs_num_messages cfg)"
    using inv by (auto simp: udp_inv_def udp_sender_inv_def udp_receiver_inv_def Let_def)
  from step show ?thesis
  proof cases
    case (sender_pins line k)
    with network_helpers(3) [OF net sender_pins(3)] send pc show ?thesis
      by (intro udp_quiet_sender [OF inv]) simp_all
  next
    case sender_yields
    with inv show ?thesis by simp
  next
    case (sender_opens send_fd k1 cpu k2)
    with network_helpers(4) [OF net sender_opens(4)] network_helpers(2) [OF net sender_opens(5)] send pc
    show ?thesis by (intro udp_quiet_sender [OF inv]) (simp_all add: no_traffic_def)
  next
    case (sender_throws e k1)
    with network_helpers(4) [OF net sender_throws(4)] send pc show ?thesis
      by (intro udp_quiet_sender [OF inv]) simp_all
  next
    case (sends send_fd msg rest now sent k p cpu)
    then show ?thesis using udp_sends_inv [OF net ws inv sends(2,3,4,5)] by simp
  next
    case (stores_done send_fd)
    with send pc show ?thesis by (intro udp_quiet_sender [OF inv]) (simp_all add: no_traffic_def)
  next
    case (sender_closes send_fd)
    with network_helpers(1) [OF net] send pc show ?thesis by (intro udp_quiet_sender [OF inv]) simp_all
  next
    case (receiver_pins line k)
    with network_helpers(3) [OF net receiver_pins(3)] ready show ?thesis
      by (intro udp_quiet_receiver [OF inv]) simp_all
  next
    case announces
    with inv show ?thesis
      by (intro udp_quiet_receiver [OF inv]) (simp_all add: no_traffic_def)
  next
    case (reads_cpu cpu k)
    with network_helpers(2) [OF net reads_cpu(3)] ready show ?thesis
      by (intro udp_quiet_receiver [OF inv]) simp_all
  next
    case (receive_fails r bs k)
    with networkD(2) [OF net receive_fails(4)] ready show ?thesis
      by (intro udp_quiet_receiver [OF inv]) simp_all
  next
    case reads_not_done
    with ready show ?thesis by (intro udp_quiet_receiver [OF inv]) (simp_all add: no_traffic_def)
  next
    case reads_done
    with network_helpers(1) [OF net] ready show ?thesis by (intro udp_quiet_receiver [OF inv]) simp_all
  next
    case (receives_short r bs k)
    with udp_receives_inv(1) [OF net ws inv receives_short(2,3,4,5)] show ?thesis by simp
  next
    case (receives_message bs k rd c)
    with udp_receives_inv(5) [OF net ws inv receives_message(2,3,4)] show ?thesis by simp
  next
    case has_all
    then have "fc_consumed (us_consumer s) = fs_num_messages cfg"
      using count by (simp add: word_less_nat_alt word_unat_eq_iff)
    with has_all network_helpers(1) [OF net] ready show ?thesis
      by (intro udp_quiet_receiver [OF inv]) simp_all
  qed
qed

lemma udp_reachable_inv:
  assumes "udp_reachable os on_msg cfg receive_fd port messages b k s"
    and "datagram_network os accepted delivered" and "\<forall>msg \<in> set messages. well_sized msg"
    and "accepted k = []" and "delivered k = []"
  shows "udp_inv accepted delivered on_msg (fs_num_messages cfg) messages b s"
  using assms(1)
proof induction
  case start
  then show ?case
    using assms(4,5)
    by (auto simp: udp_inv_def udp_sender_inv_def udp_receiver_inv_def udp_system_new_def producer_new_def
        consumer_new_def recorder_new_def stamps_of_def Let_def)
next
  case (step s s')
  show ?case by (rule udp_step_inv [OF assms(2,3) step(3,2)])
qed

section \<open>What was delivered\<close>

lemma subseq_set: "subseq xs ys \<Longrightarrow> set xs \<subseteq> set ys"
  by (auto elim: list_emb_set)

lemma stamps_of_subseq: "stamps_of sent ss \<Longrightarrow> subseq qs sent \<Longrightarrow> \<exists>ms. subseq ms ss \<and> stamps_of qs ms"
  unfolding stamps_of_def
proof (induction sent ss arbitrary: qs rule: list_all2_induct)
  case (Cons q sent msg ss)
  show ?case
  proof (cases "subseq qs sent")
    case True
    then show ?thesis using Cons.IH by (meson list_emb_Cons)
  next
    case False
    with Cons.prems obtain qs' where qs: "qs = q # qs'" "subseq qs' sent"
      by (cases qs) (auto split: if_splits)
    with Cons.IH obtain ms where "subseq ms ss" "list_all2 (\<lambda>q msg. \<exists>t. q = stamp t msg) qs' ms" by blast
    then show ?thesis using qs(1) Cons.hyps by (intro exI [of _ "msg # ms"]) auto
  qed
next
  case Nil
  then show ?case by (intro exI [of _ "[]"]) simp
qed

lemma stamps_of_set: "stamps_of sent ss \<Longrightarrow> set qs \<subseteq> set sent \<Longrightarrow> \<exists>ms. set ms \<subseteq> set ss \<and> stamps_of qs ms"
proof (induction qs)
  case (Cons q qs)
  then obtain ms where "set ms \<subseteq> set ss" "stamps_of qs ms" by auto
  moreover obtain msg t where "msg \<in> set ss" "q = stamp t msg"
    using Cons.prems unfolding stamps_of_def list_all2_conv_all_nth by (metis in_set_conv_nth list.set_intros(1) subsetD)
  ultimately show ?case by (intro exI [of _ "msg # ms"]) (auto simp: stamps_of_def)
qed (simp add: stamps_of_def)

lemma feed_on_bytes:
  "\<forall>q \<in> set qs. well_sized q \<Longrightarrow> feed (on_bytes on_msg) (map message_bytes qs) b = feed on_msg qs b"
  by (induction qs arbitrary: b) (simp_all add: on_bytes_def bytes_message_inv cpp_bind_def cong: sum.case_cong)

text \<open>The delivered datagrams, read as messages of the stream.\<close>

lemma delivered_messages:
  assumes "udp_inv accepted delivered on_message num messages b s" and "\<forall>msg \<in> set messages. well_sized msg"
  obtains ms where "set ms \<subseteq> set messages" and "length ms = length (delivered (us_kernel s))"
    and "feed on_message ms b = Inr (fc_book (us_consumer s))"
    and "in_order accepted delivered \<Longrightarrow>
      subseq ms messages \<and> length ms \<le> length (accepted (us_kernel s))"
proof -
  let ?ds = "delivered (us_kernel s)"
  obtain pre ss sent where pre: "messages = pre @ us_todo s" "subseq ss pre" "stamps_of sent ss"
      "accepted (us_kernel s) = map message_bytes sent"
    using assms(1) by (auto simp: udp_inv_def udp_sender_inv_def)
  have sub: "subseq ss messages"
    using list_emb_append_mono [OF pre(2), of "[]" "us_todo s"] pre(1) by simp
  have ds: "set ?ds \<subseteq> set (map message_bytes sent)" and book: "feed (on_bytes on_message) ?ds b = Inr (fc_book (us_consumer s))"
    using assms(1) pre(4) by (auto simp: udp_inv_def udp_receiver_inv_def Let_def)
  have "\<exists>qs ms. ?ds = map message_bytes qs \<and> set qs \<subseteq> set sent \<and> stamps_of qs ms \<and> set ms \<subseteq> set ss \<and>
      (in_order accepted delivered \<longrightarrow> subseq ms ss)"
  proof (cases "in_order accepted delivered")
    case True
    then have "subseq ?ds (map message_bytes sent)" unfolding in_order_def pre(4) [symmetric] by blast
    then obtain qs where qs: "subseq qs sent" "?ds = map message_bytes qs" by (rule subseq_mapE)
    with stamps_of_subseq [OF pre(3)] obtain ms where "subseq ms ss" "stamps_of qs ms" by blast
    then show ?thesis using qs subseq_set by blast
  next
    case False
    have "?ds \<in> lists (message_bytes ` set sent)" using ds by auto
    then obtain qs where "?ds = map message_bytes qs" "set qs \<subseteq> set sent" by (auto simp: lists_image in_lists_conv_set)
    then show ?thesis using stamps_of_set [OF pre(3)] False by blast
  qed
  then obtain qs ms where qs: "?ds = map message_bytes qs" "set qs \<subseteq> set sent" "stamps_of qs ms"
      "set ms \<subseteq> set ss" "in_order accepted delivered \<longrightarrow> subseq ms ss" by blast
  have in_messages: "set ms \<subseteq> set messages" using qs(4) subseq_set [OF sub] by blast
  then have wq: "\<forall>q \<in> set qs. well_sized q" using stamps_of_well_sized [OF qs(3)] assms(2) by blast
  have "feed on_message ms b = Inr (fc_book (us_consumer s))"
    using book unfolding qs(1) feed_on_bytes [OF wq] feed_stamps_of [OF qs(3)] .
  moreover have "length ms = length ?ds" using stamps_of_length [OF qs(3)] qs(1) by simp
  moreover have "subseq ms messages \<and> length ms \<le> length (accepted (us_kernel s))"
    if "in_order accepted delivered"
  proof
    have ms: "subseq ms ss" using qs(5) that by blast
    then show "subseq ms messages" using sub by (rule subseq_order.trans)
    show "length ms \<le> length (accepted (us_kernel s))"
      using list_emb_length [OF ms] stamps_of_length [OF pre(3)] pre(4) by simp
  qed
  ultimately show thesis using in_messages that by blast
qed

text \<open>The next datagram is a message of the stream, and the book takes it.\<close>

lemma udp_next_ok:
  assumes "udp_reachable os on_message cfg receive_fd port
      (generated wall (fs_num_messages cfg) symbol) empty_book k s"
    and "datagram_network os accepted delivered" and "accepted k = []" and "delivered k = []"
    and "us_receiver s = Receiving" and "fc_consumed (us_consumer s) < fs_num_messages cfg"
    and "os_recv os receive_fd message_size (us_kernel s) = ((r, bs), k')" and "0 \<le> r"
  shows "r = int message_size \<and>
     (\<exists>c. process_received on_message rd ((us_consumer s)\<lparr>fc_buffer := bs\<rparr>) = Inr c)"
proof -
  let ?gs = "generated wall (fs_num_messages cfg) symbol"
  have ws: "\<forall>msg \<in> set ?gs. well_sized msg" using generated_well_sized by blast
  note inv = udp_reachable_inv [OF assms(1,2) ws assms(3,4)]
  note got = udp_receives_inv [OF assms(2) ws inv assms(5-8)]
  obtain ms where ms: "set ms \<subseteq> set ?gs" "feed on_message ms empty_book = Inr (fc_book (us_consumer s))"
    using delivered_messages [OF inv ws] by blast
  obtain pre ss sent where pre: "?gs = pre @ us_todo s" "subseq ss pre" "stamps_of sent ss"
      "accepted (us_kernel s) = map message_bytes sent"
    using inv by (auto simp: udp_inv_def udp_sender_inv_def)
  then obtain q where q: "q \<in> set sent" "bs = message_bytes q" using got(3) by auto
  obtain ms' where ms': "set ms' \<subseteq> set ss" "stamps_of [q] ms'"
    using stamps_of_set [OF pre(3), of "[q]"] q(1) by auto
  then obtain msg now where msg: "ms' = [msg]" "q = stamp now msg" "msg \<in> set ?gs"
    using subseq_set [OF pre(2)] pre(1) by (auto simp: stamps_of_def list_all2_Cons1)
  have "set (ms @ [msg]) \<subseteq> set ?gs" using ms(1) msg(3) by simp
  then obtain b where "feed on_message (ms @ [msg]) empty_book = Inr b"
    using base.feed_ok [OF book_rel_empty replay_shallow] by blast
  then have "on_message (fc_book (us_consumer s)) msg = Inr b"
    using ms(2) by (simp add: feed_append cpp_bind_Inr_iff)
  then show ?thesis
    using got(1) q(2) msg ws by (simp add: process_received_def on_bytes_def bytes_message_inv)
qed

section \<open>The loopback kernel is such a network\<close>

lemma loop_network: "datagram_network loop_udp datagrams_sent datagrams_taken"
  by (auto simp: datagram_network_def loop_udp_def loop_os_def loop_recv_datagram_def no_traffic_def
      datagrams_sent_def loop_open_def split: list.splits)

lemma loop_in_order: "in_order datagrams_sent datagrams_taken"
  by (simp add: in_order_def datagrams_sent_def prefix_imp_subseq)

section \<open>A complete run\<close>

text \<open>On the loopback kernel the sender can send all it has left while the receiver waits.\<close>

lemma udp_sender_runs:
  assumes "udp_reachable loop_udp on_msg cfg fd port messages b k s" and "us_sender s = Sending send_fd"
  shows "\<exists>s'. udp_reachable loop_udp on_msg cfg fd port messages b k s' \<and> us_sender s' = Sending send_fd \<and>
     us_todo s' = [] \<and> us_receiver s' = us_receiver s \<and> us_consumer s' = us_consumer s \<and>
     datagrams_waiting (us_kernel s') =
       datagrams_waiting (us_kernel s) @ map (\<lambda>msg. message_bytes (stamp 0 msg)) (us_todo s)"
  using assms
proof (induction "us_todo s" arbitrary: s)
  case Nil
  then show ?case by (intro exI [of _ s]) simp
next
  case (Cons msg rest)
  let ?d = "message_bytes (stamp 0 msg)"
  obtain r k1 where call: "os_sendto loop_udp send_fd ?d (loopback (of_int port)) (us_kernel s) = (r, k1)"
    by fastforce
  then have k1: "datagrams_waiting k1 = datagrams_waiting (us_kernel s) @ [?d]"
    by (auto simp: loop_udp_def loop_os_def)
  from udp_step.sends [OF Cons.prems(2) Cons.hyps(2) [symmetric] call refl]
  obtain s1 where s1: "udp_step loop_udp on_msg cfg fd port s s1" "us_sender s1 = Sending send_fd"
      "rest = us_todo s1" "us_receiver s1 = us_receiver s" "us_consumer s1 = us_consumer s"
      "us_kernel s1 = k1"
    using Cons.prems(2) by fastforce
  obtain s' where "udp_reachable loop_udp on_msg cfg fd port messages b k s'"
      "us_sender s' = Sending send_fd" "us_todo s' = []" "us_receiver s' = us_receiver s1"
      "us_consumer s' = us_consumer s1"
      "datagrams_waiting (us_kernel s') =
       datagrams_waiting (us_kernel s1) @ map (\<lambda>msg. message_bytes (stamp 0 msg)) (us_todo s1)"
    using Cons.hyps(1) [OF s1(3) udp_reachable.step [OF Cons.prems(1) s1(1)] s1(2)] by blast
  with s1 k1 Cons.hyps(2) [symmetric] show ?case by (intro exI [of _ s']) simp
qed

lemma udp_receiver_runs:
  assumes "udp_reachable loop_udp on_message cfg fd port
      (generated wall (fs_num_messages cfg) symbol) empty_book k s"
    and "us_receiver s = Receiving" and "us_sender s = Sending send_fd"
    and "unat (fc_consumed (us_consumer s)) + length (datagrams_waiting (us_kernel s)) =
      unat (fs_num_messages cfg)" and "datagrams_sent k = []" and "datagrams_taken k = []"
  shows "\<exists>s'. udp_reachable loop_udp on_message cfg fd port
      (generated wall (fs_num_messages cfg) symbol) empty_book k s' \<and>
     us_receiver s' = Receiving \<and> us_sender s' = Sending send_fd \<and> us_todo s' = us_todo s \<and>
     (instant_feed (us_consumer s') \<longleftrightarrow> instant_feed (us_consumer s)) \<and>
     fc_consumed (us_consumer s') = fs_num_messages cfg"
  using assms(1-4)
proof (induction "datagrams_waiting (us_kernel s)" arbitrary: s)
  case Nil
  then show ?case by (intro exI [of _ s]) (simp add: word_unat_eq_iff)
next
  case (Cons d ds)
  have less: "fc_consumed (us_consumer s) < fs_num_messages cfg"
    using Cons.prems(4) Cons.hyps(2) [symmetric] by (simp add: word_less_nat_alt)
  let ?bs = "take message_size d"
  let ?k = "(us_kernel s)\<lparr>datagrams_taken := datagrams_taken (us_kernel s) @ [d], datagrams_waiting := ds\<rparr>"
  have call: "os_recv loop_udp fd message_size (us_kernel s) = ((int (length ?bs), ?bs), ?k)"
    using Cons.hyps(2) [symmetric] by (simp add: loop_udp_def loop_os_def loop_recv_datagram_def)
  obtain c where c: "int (length ?bs) = int message_size"
      "process_received on_message (no_time ?bs) ((us_consumer s)\<lparr>fc_buffer := ?bs\<rparr>) = Inr c"
    using udp_next_ok [OF Cons.prems(1) loop_network assms(5,6) Cons.prems(2) less call] by auto
  have runs: "program_runs s" using Cons.prems(3) by (simp add: program_runs_def)
  let ?s = "s\<lparr>us_kernel := ?k, us_consumer := c\<rparr>"
  have step: "udp_step loop_udp on_message cfg fd port s ?s"
    by (rule udp_step.receives_message [OF Cons.prems(2) less call [unfolded c(1)] c(2) runs])
  have zero: "instant_feed c \<longleftrightarrow> instant_feed (us_consumer s)"
    using no_time_instant [of on_message "(us_consumer s)\<lparr>fc_buffer := ?bs\<rparr>" c] c(2) by simp
  have count: "fc_consumed c = fc_consumed (us_consumer s) + 1" by (rule process_received_bytes(2) [OF c(2)])
  then have "unat (fc_consumed c) = unat (fc_consumed (us_consumer s)) + 1"
    using less unsigned_less [of "fs_num_messages cfg", where ?'a = nat]
    by (simp add: unat_word_ariths(1) word_less_nat_alt)
  then show ?case
    using Cons.hyps(1) [of ?s] udp_reachable.step [OF Cons.prems(1) step] Cons.prems Cons.hyps(2) [symmetric] zero
    by simp
qed

text \<open>Both threads start, the sender sends everything, the receiver takes everything, both leave.\<close>

lemma udp_run_complete:
  assumes "datagrams_sent k = []" and "datagrams_taken k = []"
  shows "\<exists>s. udp_reachable loop_udp on_message cfg fd port
      (generated wall (fs_num_messages cfg) symbol) empty_book k s \<and>
     us_sender s = Sender_Exited \<and> us_receiver s = Receiver_Exited \<and> us_todo s = [] \<and>
     fc_consumed (us_consumer s) = fs_num_messages cfg \<and> instant_feed (us_consumer s)"
proof -
  let ?gs = "generated wall (fs_num_messages cfg) symbol"
  let ?R = "udp_reachable loop_udp on_message cfg fd port ?gs empty_book k"
  let ?step = "udp_step loop_udp on_message cfg fd port"
  note next_state = udp_reachable.step
  let ?s0 = "udp_system_new ?gs empty_book k :: (loop_kernel, order_book) udp_system"
  obtain line k1 where p1: "start_thread loop_udp ''Producer'' (fs_producer_cpu cfg) (us_kernel ?s0) = (line, k1)"
    by fastforce
  let ?s1 = "?s0\<lparr>us_kernel := k1, us_sender := Await_Receiver, us_sender_text := line\<rparr>"
  have s1: "?R ?s1"
    by (rule next_state [OF udp_reachable.start udp_step.sender_pins [OF _ p1]]) (simp add: udp_system_new_def)
  obtain line2 k2 where p2: "start_thread loop_udp ''Consumer'' (fs_consumer_cpu cfg) (us_kernel ?s1) = (line2, k2)"
    by fastforce
  let ?s2 = "?s1\<lparr>us_kernel := k2, us_receiver := Announce, us_receiver_text := line2\<rparr>"
  have s2: "?R ?s2"
    by (rule next_state [OF s1 udp_step.receiver_pins [OF _ p2]])
       (simp_all add: udp_system_new_def program_runs_def)
  let ?s2' = "?s2\<lparr>us_receiver_ready := True, us_receiver := First_Cpu\<rparr>"
  have s2': "?R ?s2'" by (rule next_state [OF s2 udp_step.announces]) (simp_all add: program_runs_def)
  obtain cpu k3 where p3: "get_current_cpu loop_udp (us_kernel ?s2') = (cpu, k3)" by fastforce
  let ?s3 = "?s2'\<lparr>us_kernel := k3, us_receiver := Receiving, us_consumer := (us_consumer ?s2')\<lparr>fc_cpu := cpu\<rparr>\<rparr>"
  have s3: "?R ?s3"
    by (rule next_state [OF s2' udp_step.reads_cpu [OF _ p3]]) (simp_all add: program_runs_def)
  obtain send_fd k4 where p4: "create_udp_sender loop_udp (fs_send_buffer_bytes cfg) (us_kernel ?s3) =
      (Inr send_fd, k4)"
    by (simp add: create_udp_sender_def loop_udp_def loop_os_def loop_open_def Let_def)
  obtain cpu' k5 where p5: "get_current_cpu loop_udp k4 = (cpu', k5)" by fastforce
  let ?s4 = "?s3\<lparr>us_kernel := k5, us_sender := Sending send_fd, us_producer := (us_producer ?s3)\<lparr>fp_cpu := cpu'\<rparr>\<rparr>"
  have s4: "?R ?s4" by (rule next_state [OF s3 udp_step.sender_opens [OF _ _ p4 p5]]) simp_all
  have k5: "datagrams_waiting k5 = []"
  proof -
    have "no_traffic datagrams_sent datagrams_taken k k5"
      using network_helpers(3) [OF loop_network p1] network_helpers(3) [OF loop_network p2]
        network_helpers(2) [OF loop_network p3] network_helpers(4) [OF loop_network p4]
        network_helpers(2) [OF loop_network p5]
      by (simp add: no_traffic_def udp_system_new_def)
    then show ?thesis using assms by (simp add: no_traffic_def datagrams_sent_def)
  qed
  obtain s5 where s5: "?R s5" "us_sender s5 = Sending send_fd" "us_todo s5 = []" "us_receiver s5 = Receiving"
      "us_consumer s5 = us_consumer ?s4" "length (datagrams_waiting (us_kernel s5)) = length ?gs"
    using udp_sender_runs [OF s4] k5 by (fastforce simp: udp_system_new_def)
  have "unat (fc_consumed (us_consumer s5)) + length (datagrams_waiting (us_kernel s5)) = unat (fs_num_messages cfg)"
    using s5(5,6) generated_ok(1) [of wall "fs_num_messages cfg" symbol]
    by (simp add: udp_system_new_def consumer_new_def)
  from udp_receiver_runs [OF s5(1,4,2) this assms] s5(3)
  obtain s6 where s6: "?R s6" "us_receiver s6 = Receiving" "us_sender s6 = Sending send_fd" "us_todo s6 = []"
      "fc_consumed (us_consumer s6) = fs_num_messages cfg" "instant_feed (us_consumer s6)"
    using s5(5) by (auto simp: udp_system_new_def)
  let ?s7 = "s6\<lparr>us_kernel := close_socket loop_udp fd (us_kernel s6), us_receiver := Receiver_Exited\<rparr>"
  have s7: "?R ?s7"
    by (rule next_state [OF s6(1) udp_step.has_all [OF s6(2)]]) (simp_all add: s6 program_runs_def)
  let ?s8 = "?s7\<lparr>us_producer_done := True, us_sender := Sends_Over send_fd\<rparr>"
  have s8: "?R ?s8" by (rule next_state [OF s7 udp_step.stores_done]) (simp_all add: s6)
  let ?s9 = "?s8\<lparr>us_kernel := close_socket loop_udp send_fd (us_kernel ?s8), us_sender := Sender_Exited\<rparr>"
  have "?R ?s9" by (rule next_state [OF s8 udp_step.sender_closes]) simp
  then show ?thesis using s6 by (intro exI [of _ ?s9]) simp
qed

section \<open>Every reachable state\<close>

lemma udp_produced_bound:
  assumes "udp_reachable os on_message cfg receive_fd port
      (generated wall (fs_num_messages cfg) symbol) empty_book k s"
    and "datagram_network os accepted delivered" and "accepted k = []" and "delivered k = []"
  shows "fp_produced (us_producer s) = of_nat (length (accepted (us_kernel s))) \<and>
     length (accepted (us_kernel s)) \<le> unat (fs_num_messages cfg) \<and>
     unat (fp_produced (us_producer s)) = length (accepted (us_kernel s)) \<and>
     fp_produced (us_producer s) \<le> fs_num_messages cfg"
proof -
  let ?n = "fs_num_messages cfg" and ?gs = "generated wall (fs_num_messages cfg) symbol"
  have ws: "\<forall>msg \<in> set ?gs. well_sized msg" using generated_well_sized by blast
  note inv = udp_reachable_inv [OF assms(1,2) ws assms(3,4)]
  have p: "fp_produced (us_producer s) = of_nat (length (accepted (us_kernel s)))"
    using inv by (simp add: udp_inv_def udp_sender_inv_def)
  obtain pre ss sent where pre: "?gs = pre @ us_todo s" "subseq ss pre" "stamps_of sent ss"
      "accepted (us_kernel s) = map message_bytes sent"
    using inv by (auto simp: udp_inv_def udp_sender_inv_def)
  have "length (accepted (us_kernel s)) \<le> length ?gs"
    using list_emb_length [OF pre(2)] stamps_of_length [OF pre(3)] pre(1,4) by simp
  then have le: "length (accepted (us_kernel s)) \<le> unat ?n"
    using generated_ok(1) [of wall ?n symbol] by simp
  then have "length (accepted (us_kernel s)) < 2 ^ 64" using unsigned_less [of ?n, where ?'a = nat] by simp
  then have u: "unat (fp_produced (us_producer s)) = length (accepted (us_kernel s))"
    using p by (simp add: unat_of_nat)
  with p le show ?thesis by (simp add: word_le_nat_alt)
qed

lemma udp_messages:
  assumes "udp_reachable os on_message cfg receive_fd port
      (generated wall (fs_num_messages cfg) symbol) empty_book k s"
    and "datagram_network os accepted delivered" and "accepted k = []" and "delivered k = []"
  shows "\<exists>ms. set ms \<subseteq> set (generated wall (fs_num_messages cfg) symbol) \<and>
     feed on_message ms empty_book = Inr (fc_book (us_consumer s)) \<and>
     unat (fc_consumed (us_consumer s)) = length ms \<and> length ms \<le> unat (fs_num_messages cfg) \<and>
     length (samples (fc_network (us_consumer s))) = length ms \<and>
     length (samples (fc_processing (us_consumer s))) = length ms \<and>
     (us_receiver s = Receiver_Exited \<longrightarrow>
        us_producer_done s \<or> length ms = unat (fs_num_messages cfg)) \<and>
     (in_order accepted delivered \<longrightarrow> subseq ms (generated wall (fs_num_messages cfg) symbol) \<and>
        unat (dropped (us_producer s) (us_consumer s)) + length ms = unat (fp_produced (us_producer s)))"
proof -
  let ?n = "fs_num_messages cfg" and ?gs = "generated wall (fs_num_messages cfg) symbol"
  let ?c = "us_consumer s"
  have ws: "\<forall>msg \<in> set ?gs. well_sized msg" using generated_well_sized by blast
  note inv = udp_reachable_inv [OF assms(1,2) ws assms(3,4)]
  obtain ms where ms: "set ms \<subseteq> set ?gs" "length ms = length (delivered (us_kernel s))"
      "feed on_message ms empty_book = Inr (fc_book ?c)"
      "in_order accepted delivered \<Longrightarrow> subseq ms ?gs \<and> length ms \<le> length (accepted (us_kernel s))"
    using delivered_messages [OF inv ws] by blast
  have counts: "unat (fc_consumed ?c) = length ms" "length ms \<le> unat ?n"
      "length (samples (fc_network ?c)) = length ms" "length (samples (fc_processing ?c)) = length ms"
      "us_receiver s = Receiver_Exited \<longrightarrow> us_producer_done s \<or> length ms = unat ?n"
    using inv ms(2) by (auto simp: udp_inv_def udp_receiver_inv_def Let_def)
  have "unat (dropped (us_producer s) ?c) + length ms = unat (fp_produced (us_producer s))"
    if order: "in_order accepted delivered"
  proof -
    have u: "unat (fp_produced (us_producer s)) = length (accepted (us_kernel s))"
      using udp_produced_bound [OF assms] by blast
    with ms(4) [OF order] counts(1) have "fc_consumed ?c \<le> fp_produced (us_producer s)"
      by (simp add: word_le_nat_alt)
    then show ?thesis using counts(1) by (simp add: dropped_def unat_sub word_le_nat_alt)
  qed
  with ms counts show ?thesis by (intro exI [of _ ms]) (simp add: word_less_nat_alt)
qed

section \<open>Properties\<close>

text \<open>
  Property C9. The two threads of the UDP feed on one kernel, under any interleaving and on a network that
  may lose, duplicate and reorder: at every moment the book is the result of \<open>consumed\<close> messages of the
  stream, each measured once, never more than \<open>num_messages\<close>; the next datagram is whole and processed
  without undefined behaviour; the receiver leaves only when it has all messages or the sender has
  finished. If the network neither duplicates nor reorders, the messages applied are a subsequence of the
  stream and the dropped count does not wrap.
\<close>

theorem udp_system_safe:
  assumes "udp_reachable os on_message cfg receive_fd port
      (generated wall (fs_num_messages cfg) symbol) empty_book k s"
    and "datagram_network os accepted delivered" and "accepted k = []" and "delivered k = []"
  shows "\<exists>ms. set ms \<subseteq> set (generated wall (fs_num_messages cfg) symbol) \<and>
     feed on_message ms empty_book = Inr (fc_book (us_consumer s)) \<and>
     unat (fc_consumed (us_consumer s)) = length ms \<and> length ms \<le> unat (fs_num_messages cfg) \<and>
     length (samples (fc_network (us_consumer s))) = length ms \<and>
     length (samples (fc_processing (us_consumer s))) = length ms \<and>
     (us_receiver s = Receiving \<longrightarrow> length ms < unat (fs_num_messages cfg) \<longrightarrow>
        (\<forall>r bs k' rd. os_recv os receive_fd message_size (us_kernel s) = ((r, bs), k') \<longrightarrow> 0 \<le> r \<longrightarrow>
           r = int message_size \<and>
           (\<exists>c. process_received on_message rd ((us_consumer s)\<lparr>fc_buffer := bs\<rparr>) = Inr c))) \<and>
     (us_receiver s = Receiver_Exited \<longrightarrow>
        us_producer_done s \<or> length ms = unat (fs_num_messages cfg)) \<and>
     (in_order accepted delivered \<longrightarrow> subseq ms (generated wall (fs_num_messages cfg) symbol) \<and>
        unat (dropped (us_producer s) (us_consumer s)) + length ms = unat (fp_produced (us_producer s)))"
proof -
  obtain ms where ms: "set ms \<subseteq> set (generated wall (fs_num_messages cfg) symbol)"
      "feed on_message ms empty_book = Inr (fc_book (us_consumer s))"
      "unat (fc_consumed (us_consumer s)) = length ms" "length ms \<le> unat (fs_num_messages cfg)"
      "length (samples (fc_network (us_consumer s))) = length ms"
      "length (samples (fc_processing (us_consumer s))) = length ms"
      "us_receiver s = Receiver_Exited \<longrightarrow> us_producer_done s \<or> length ms = unat (fs_num_messages cfg)"
      "in_order accepted delivered \<longrightarrow> subseq ms (generated wall (fs_num_messages cfg) symbol) \<and>
        unat (dropped (us_producer s) (us_consumer s)) + length ms = unat (fp_produced (us_producer s))"
    using udp_messages [OF assms] by blast
  with udp_next_ok [OF assms] show ?thesis by (intro exI [of _ ms]) (simp add: word_less_nat_alt)
qed

theorem udp_system_safe_witness:
  "\<exists>(s :: (loop_kernel, order_book) udp_system) ms. us_sender s = Sender_Exited \<and>
     us_receiver s = Receiver_Exited \<and> length ms = 3 \<and> subseq ms (generated (\<lambda>_. 7) 3 [65]) \<and>
     feed on_message ms empty_book = Inr (fc_book (us_consumer s))"
proof -
  let ?cfg = "\<lparr>fs_num_messages = 3, fs_send_buffer_bytes = 0, fs_receive_buffer_bytes = 0,
    fs_producer_cpu = 1, fs_consumer_cpu = - 1\<rparr>"
  have new: "datagrams_sent loop_new = []" "datagrams_taken loop_new = []"
    by (simp_all add: loop_new_def datagrams_sent_def)
  obtain s :: "(loop_kernel, order_book) udp_system" where s:
      "udp_reachable loop_udp on_message ?cfg 3 40000 (generated (\<lambda>_. 7) (fs_num_messages ?cfg) [65]) empty_book
        loop_new s" "us_sender s = Sender_Exited" "us_receiver s = Receiver_Exited"
      "fc_consumed (us_consumer s) = 3"
    using udp_run_complete [OF new, of ?cfg 3 40000 "\<lambda>_. 7" "[65]"] by auto
  from udp_system_safe [OF s(1) loop_network new] s loop_in_order show ?thesis by fastforce
qed

end
