(* ===== verification/Tcp_System.thy ===== *)
theory Tcp_System
  imports Tcp_Feed Udp_System
begin

text \<open>
  The two threads of \<open>benchmark_tcp_feed.cpp\<close> on one kernel, interleaved in any order. A step is one
  \<open>send\<close>, \<open>recv\<close>, \<open>accept\<close> or \<open>shutdown\<close>, or the calls that set up or close a socket or pin a thread, which
  transfer nothing, or one access to \<open>accept_ready\<close>; the work of its thread up to the next one belongs to
  it. The loops of \<open>send_all\<close> and \<open>recv_all\<close> are steps here. The invariants of the two threads are proved for
  every step; Tcp_Delivery draws the conclusions.
\<close>

section \<open>State\<close>

text \<open>
  \<open>In_Send fd data sent\<close> is \<open>send_all\<close> after \<open>sent\<close> bytes, \<open>In_Recv fd received\<close> is \<open>recv_all\<close> into the
  receive buffer; \<open>Server_Refused\<close> is the consumer that returned because \<open>accept\<close> failed.
\<close>

datatype tcp_client =
    Client_Pins
  | Await_Listener
  | Next_Send int
  | In_Send int "u8 list" nat
  | Client_Shuts int
  | Client_Closes int
  | Client_Exited
  | Client_Threw string

datatype tcp_server =
    Server_Pins
  | Server_Announces
  | Accepting
  | Next_Receive int
  | In_Recv int nat
  | Server_Closes int
  | Server_Exited
  | Server_Refused

record ('k, 'b) tcp_system =
  ts_kernel :: 'k
  ts_client :: tcp_client
  ts_server :: tcp_server
  ts_todo :: "market_message list"
  ts_producer :: feed_producer
  ts_consumer :: "'b feed_consumer"
  ts_accept_ready :: bool
  ts_client_text :: string
  ts_server_text :: string

definition tcp_system_new :: "market_message list \<Rightarrow> 'b \<Rightarrow> 'k \<Rightarrow> ('k, 'b) tcp_system" where
  "tcp_system_new messages b k =
     \<lparr>ts_kernel = k, ts_client = Client_Pins, ts_server = Server_Pins, ts_todo = messages,
      ts_producer = producer_new (- 1), ts_consumer = consumer_new b (- 1), ts_accept_ready = False,
      ts_client_text = [], ts_server_text = []\<rparr>"

section \<open>Steps\<close>

text \<open>
  An exception of \<open>connect_tcp_client\<close> leaves its thread and so ends the program: after
  \<open>Client_Threw\<close> no thread takes a step.
\<close>

definition tcp_program_runs :: "('k, 'b) tcp_system \<Rightarrow> bool" where
  "tcp_program_runs s = (case ts_client s of Client_Threw e \<Rightarrow> False | _ \<Rightarrow> True)"

text \<open>What the consumer does once \<open>accept\<close> has returned, up to its loop.\<close>

definition set_up_connection ::
  "'k os \<Rightarrow> feed_settings \<times> bool \<Rightarrow> int \<Rightarrow> int \<Rightarrow> 'k \<Rightarrow> int \<times> 'k" where
  "set_up_connection os cfg listen_fd fd k =
     (let k1 = close_socket os listen_fd k;
          k2 = snd (set_tcp_no_delay os fd (snd cfg) k1);
          k3 = snd (set_socket_receive_buffer os fd (fs_receive_buffer_bytes (fst cfg)) k2)
      in get_current_cpu os k3)"

inductive tcp_step ::
  "'k os \<Rightarrow> ('b \<Rightarrow> market_message \<Rightarrow> 'b cpp) \<Rightarrow> feed_settings \<times> bool \<Rightarrow> int \<Rightarrow> int \<Rightarrow>
   ('k, 'b) tcp_system \<Rightarrow> ('k, 'b) tcp_system \<Rightarrow> bool"
  for os on_msg cfg listen_fd port where
  client_pins:
    "ts_client s = Client_Pins \<Longrightarrow>
     start_thread os ''Producer'' (fs_producer_cpu (fst cfg)) (ts_kernel s) = (line, k) \<Longrightarrow>
     tcp_step os on_msg cfg listen_fd port s
       (s\<lparr>ts_kernel := k, ts_client := Await_Listener, ts_client_text := line\<rparr>)"
| client_yields:
    "ts_client s = Await_Listener \<Longrightarrow> tcp_step os on_msg cfg listen_fd port s s"
| client_connects:
    "ts_client s = Await_Listener \<Longrightarrow> ts_accept_ready s \<Longrightarrow>
     connect_tcp_client os port (snd cfg) (fs_send_buffer_bytes (fst cfg)) (ts_kernel s) = (Inr fd, k1) \<Longrightarrow>
     get_current_cpu os k1 = (cpu, k2) \<Longrightarrow>
     tcp_step os on_msg cfg listen_fd port s
       (s\<lparr>ts_kernel := k2, ts_client := Next_Send fd, ts_producer := (ts_producer s)\<lparr>fp_cpu := cpu\<rparr>\<rparr>)"
| client_throws:
    "ts_client s = Await_Listener \<Longrightarrow> ts_accept_ready s \<Longrightarrow>
     connect_tcp_client os port (snd cfg) (fs_send_buffer_bytes (fst cfg)) (ts_kernel s) = (Inl e, k1) \<Longrightarrow>
     tcp_step os on_msg cfg listen_fd port s (s\<lparr>ts_kernel := k1, ts_client := Client_Threw e\<rparr>)"
| starts_send:
    "ts_client s = Next_Send fd \<Longrightarrow> ts_todo s = msg # rest \<Longrightarrow>
     tcp_step os on_msg cfg listen_fd port s
       (s\<lparr>ts_client := In_Send fd (message_bytes (stamp now msg)) 0\<rparr>)"
| sends_some:
    "ts_client s = In_Send fd data sent \<Longrightarrow> sent < length data \<Longrightarrow>
     os_send os fd (drop sent data) (ts_kernel s) = (r, k) \<Longrightarrow> r > 0 \<Longrightarrow>
     tcp_step os on_msg cfg listen_fd port s
       (s\<lparr>ts_kernel := k, ts_client := In_Send fd data (sent + nat r)\<rparr>)"
| send_interrupted:
    "ts_client s = In_Send fd data sent \<Longrightarrow> sent < length data \<Longrightarrow>
     os_send os fd (drop sent data) (ts_kernel s) = (r, k) \<Longrightarrow> r < 0 \<Longrightarrow> os_errno os k = EINTR \<Longrightarrow>
     tcp_step os on_msg cfg listen_fd port s (s\<lparr>ts_kernel := k\<rparr>)"
| send_fails:
    "ts_client s = In_Send fd data sent \<Longrightarrow> sent < length data \<Longrightarrow>
     os_send os fd (drop sent data) (ts_kernel s) = (r, k) \<Longrightarrow> r \<le> 0 \<Longrightarrow>
     \<not> (r < 0 \<and> os_errno os k = EINTR) \<Longrightarrow>
     tcp_step os on_msg cfg listen_fd port s (s\<lparr>ts_kernel := k, ts_client := Client_Shuts fd\<rparr>)"
| sent_all:
    "ts_client s = In_Send fd data sent \<Longrightarrow> \<not> sent < length data \<Longrightarrow>
     tcp_step os on_msg cfg listen_fd port s
       (s\<lparr>ts_client := Next_Send fd, ts_todo := tl (ts_todo s),
          ts_producer := note_cpu cpu (count_produced (ts_producer s))\<rparr>)"
| sends_over:
    "ts_client s = Next_Send fd \<Longrightarrow> ts_todo s = [] \<Longrightarrow>
     tcp_step os on_msg cfg listen_fd port s (s\<lparr>ts_client := Client_Shuts fd\<rparr>)"
| client_shuts:
    "ts_client s = Client_Shuts fd \<Longrightarrow>
     tcp_step os on_msg cfg listen_fd port s
       (s\<lparr>ts_kernel := os_shutdown os fd (ts_kernel s), ts_client := Client_Closes fd\<rparr>)"
| client_closes:
    "ts_client s = Client_Closes fd \<Longrightarrow>
     tcp_step os on_msg cfg listen_fd port s
       (s\<lparr>ts_kernel := close_socket os fd (ts_kernel s), ts_client := Client_Exited\<rparr>)"
| server_pins:
    "ts_server s = Server_Pins \<Longrightarrow>
     start_thread os ''Consumer'' (fs_consumer_cpu (fst cfg)) (ts_kernel s) = (line, k) \<Longrightarrow>
     tcp_program_runs s \<Longrightarrow>
     tcp_step os on_msg cfg listen_fd port s
       (s\<lparr>ts_kernel := k, ts_server := Server_Announces, ts_server_text := line\<rparr>)"
| server_announces:
    "ts_server s = Server_Announces \<Longrightarrow> tcp_program_runs s \<Longrightarrow>
     tcp_step os on_msg cfg listen_fd port s (s\<lparr>ts_accept_ready := True, ts_server := Accepting\<rparr>)"
| accept_fails:
    "ts_server s = Accepting \<Longrightarrow> os_accept os listen_fd (ts_kernel s) = (fd, k) \<Longrightarrow> fd < 0 \<Longrightarrow>
     tcp_program_runs s \<Longrightarrow>
     tcp_step os on_msg cfg listen_fd port s
       (s\<lparr>ts_kernel := close_socket os listen_fd k, ts_server := Server_Refused\<rparr>)"
| accepts:
    "ts_server s = Accepting \<Longrightarrow> os_accept os listen_fd (ts_kernel s) = (fd, k1) \<Longrightarrow> 0 \<le> fd \<Longrightarrow>
     set_up_connection os cfg listen_fd fd k1 = (cpu, k2) \<Longrightarrow> tcp_program_runs s \<Longrightarrow>
     tcp_step os on_msg cfg listen_fd port s
       (s\<lparr>ts_kernel := k2, ts_server := Next_Receive fd, ts_consumer := (ts_consumer s)\<lparr>fc_cpu := cpu\<rparr>\<rparr>)"
| starts_receive:
    "ts_server s = Next_Receive fd \<Longrightarrow> fc_consumed (ts_consumer s) < fs_num_messages (fst cfg) \<Longrightarrow>
     tcp_program_runs s \<Longrightarrow>
     tcp_step os on_msg cfg listen_fd port s (s\<lparr>ts_server := In_Recv fd 0\<rparr>)"
| receives_some:
    "ts_server s = In_Recv fd received \<Longrightarrow> received < message_size \<Longrightarrow>
     os_recv os fd (message_size - received) (ts_kernel s) = ((r, bs), k) \<Longrightarrow> r > 0 \<Longrightarrow>
     tcp_program_runs s \<Longrightarrow>
     tcp_step os on_msg cfg listen_fd port s
       (s\<lparr>ts_kernel := k, ts_server := In_Recv fd (received + nat r),
          ts_consumer := (ts_consumer s)\<lparr>fc_buffer := take received (fc_buffer (ts_consumer s)) @ bs @
            drop (received + length bs) (fc_buffer (ts_consumer s))\<rparr>\<rparr>)"
| receive_interrupted:
    "ts_server s = In_Recv fd received \<Longrightarrow> received < message_size \<Longrightarrow>
     os_recv os fd (message_size - received) (ts_kernel s) = ((r, bs), k) \<Longrightarrow> r < 0 \<Longrightarrow>
     os_errno os k = EINTR \<Longrightarrow> tcp_program_runs s \<Longrightarrow>
     tcp_step os on_msg cfg listen_fd port s (s\<lparr>ts_kernel := k\<rparr>)"
| receive_fails:
    "ts_server s = In_Recv fd received \<Longrightarrow> received < message_size \<Longrightarrow>
     os_recv os fd (message_size - received) (ts_kernel s) = ((r, bs), k) \<Longrightarrow> r \<le> 0 \<Longrightarrow>
     \<not> (r < 0 \<and> os_errno os k = EINTR) \<Longrightarrow> tcp_program_runs s \<Longrightarrow>
     tcp_step os on_msg cfg listen_fd port s (s\<lparr>ts_kernel := k, ts_server := Server_Closes fd\<rparr>)"
| received_all:
    "ts_server s = In_Recv fd received \<Longrightarrow> \<not> received < message_size \<Longrightarrow>
     process_received on_msg rd (ts_consumer s) = Inr c \<Longrightarrow> tcp_program_runs s \<Longrightarrow>
     tcp_step os on_msg cfg listen_fd port s (s\<lparr>ts_server := Next_Receive fd, ts_consumer := c\<rparr>)"
| server_has_all:
    "ts_server s = Next_Receive fd \<Longrightarrow> \<not> fc_consumed (ts_consumer s) < fs_num_messages (fst cfg) \<Longrightarrow>
     tcp_program_runs s \<Longrightarrow>
     tcp_step os on_msg cfg listen_fd port s (s\<lparr>ts_server := Server_Closes fd\<rparr>)"
| server_closes:
    "ts_server s = Server_Closes fd \<Longrightarrow> tcp_program_runs s \<Longrightarrow>
     tcp_step os on_msg cfg listen_fd port s
       (s\<lparr>ts_kernel := close_socket os fd (ts_kernel s), ts_server := Server_Exited\<rparr>)"

inductive tcp_reachable ::
  "'k os \<Rightarrow> ('b \<Rightarrow> market_message \<Rightarrow> 'b cpp) \<Rightarrow> feed_settings \<times> bool \<Rightarrow> int \<Rightarrow> int \<Rightarrow>
   market_message list \<Rightarrow> 'b \<Rightarrow> 'k \<Rightarrow> ('k, 'b) tcp_system \<Rightarrow> bool"
  for os on_msg cfg listen_fd port messages b k where
  start: "tcp_reachable os on_msg cfg listen_fd port messages b k (tcp_system_new messages b k)"
| step: "tcp_reachable os on_msg cfg listen_fd port messages b k s \<Longrightarrow>
    tcp_step os on_msg cfg listen_fd port s s' \<Longrightarrow>
    tcp_reachable os on_msg cfg listen_fd port messages b k s'"

section \<open>The connection\<close>

text \<open>
  What the program needs of the connection: \<open>accepted\<close> are the bytes the kernel took from \<open>send\<close>,
  \<open>delivered\<close> those a \<open>recv\<close> returned, always a prefix of them. No other call transfers bytes.
\<close>

definition quiet :: "('k \<Rightarrow> u8 list) \<Rightarrow> ('k \<Rightarrow> u8 list) \<Rightarrow> 'k \<Rightarrow> 'k \<Rightarrow> bool" where
  "quiet accepted delivered k k' \<longleftrightarrow> accepted k' = accepted k \<and> delivered k' = delivered k"

definition stream_network :: "'k os \<Rightarrow> ('k \<Rightarrow> u8 list) \<Rightarrow> ('k \<Rightarrow> u8 list) \<Rightarrow> bool" where
  "stream_network os accepted delivered \<longleftrightarrow>
     (\<forall>fd buf k r k'. os_send os fd buf k = (r, k') \<longrightarrow>
        (if 0 < r then nat r \<le> length buf \<and> accepted k' = accepted k @ take (nat r) buf \<and>
           delivered k' = delivered k
         else quiet accepted delivered k k')) \<and>
     (\<forall>fd n k r bs k'. os_recv os fd n k = ((r, bs), k') \<longrightarrow>
        (if 0 < r then nat r \<le> n \<and> length bs = nat r \<and> delivered k' = delivered k @ bs \<and>
           accepted k' = accepted k
         else quiet accepted delivered k k')) \<and>
     (\<forall>k. prefix (delivered k) (accepted k)) \<and>
     (\<forall>ty k. quiet accepted delivered k (snd (os_socket os ty k))) \<and>
     (\<forall>fd opt k. quiet accepted delivered k (snd (os_setsockopt os fd opt k))) \<and>
     (\<forall>fd a k. quiet accepted delivered k (snd (os_connect os fd a k))) \<and>
     (\<forall>fd k. quiet accepted delivered k (snd (os_accept os fd k))) \<and>
     (\<forall>fd k. quiet accepted delivered k (os_shutdown os fd k)) \<and>
     (\<forall>fd k. quiet accepted delivered k (os_close os fd k)) \<and>
     (\<forall>m k. quiet accepted delivered k (snd (os_setaffinity os m k))) \<and>
     (\<forall>k. quiet accepted delivered k (snd (os_getcpu os k))) \<and>
     (\<forall>fd a k. quiet accepted delivered k (snd (os_bind os fd a k))) \<and>
     (\<forall>fd n k. quiet accepted delivered k (snd (os_listen os fd n k))) \<and>
     (\<forall>fd k. quiet accepted delivered k (snd (os_getsockname os fd k)))"

text \<open>
  A connection that is not cut: a \<open>recv\<close> without bytes is interrupted by a signal, or the sender has shut
  down and everything it sent was delivered. Only \<open>shutdown\<close> shuts down.
\<close>

definition uncut :: "'k os \<Rightarrow> ('k \<Rightarrow> u8 list) \<Rightarrow> ('k \<Rightarrow> u8 list) \<Rightarrow> ('k \<Rightarrow> bool) \<Rightarrow> bool" where
  "uncut os accepted delivered shut \<longleftrightarrow>
     (\<forall>fd n k r bs k'. 0 < n \<longrightarrow> os_recv os fd n k = ((r, bs), k') \<longrightarrow> r \<le> 0 \<longrightarrow>
        \<not> (r < 0 \<and> os_errno os k' = EINTR) \<longrightarrow> shut k \<and> delivered k = accepted k) \<and>
     (\<forall>fd buf k. shut (snd (os_send os fd buf k)) = shut k) \<and>
     (\<forall>fd n k. shut (snd (os_recv os fd n k)) = shut k) \<and>
     (\<forall>ty k. shut (snd (os_socket os ty k)) = shut k) \<and>
     (\<forall>fd opt k. shut (snd (os_setsockopt os fd opt k)) = shut k) \<and>
     (\<forall>fd a k. shut (snd (os_connect os fd a k)) = shut k) \<and>
     (\<forall>fd k. shut (snd (os_accept os fd k)) = shut k) \<and>
     (\<forall>fd k. shut (os_close os fd k) = shut k) \<and>
     (\<forall>m k. shut (snd (os_setaffinity os m k)) = shut k) \<and>
     (\<forall>k. shut (snd (os_getcpu os k)) = shut k) \<and>
     (\<forall>fd a k. shut (snd (os_bind os fd a k)) = shut k) \<and>
     (\<forall>fd n k. shut (snd (os_listen os fd n k)) = shut k) \<and>
     (\<forall>fd k. shut (snd (os_getsockname os fd k)) = shut k)"

lemma stream_networkD:
  assumes "stream_network os accepted delivered"
  shows "os_send os fd buf k = (r, k') \<Longrightarrow>
      (if 0 < r then nat r \<le> length buf \<and> accepted k' = accepted k @ take (nat r) buf \<and>
         delivered k' = delivered k
       else quiet accepted delivered k k')"
    and "os_recv os fd n k = ((r, bs), k') \<Longrightarrow>
      (if 0 < r then nat r \<le> n \<and> length bs = nat r \<and> delivered k' = delivered k @ bs \<and>
         accepted k' = accepted k
       else quiet accepted delivered k k')"
    and "prefix (delivered k) (accepted k)"
    and "quiet accepted delivered k (snd (os_socket os ty k))"
    and "quiet accepted delivered k (snd (os_setsockopt os fd opt k))"
    and "quiet accepted delivered k (snd (os_connect os fd a k))"
    and "quiet accepted delivered k (snd (os_accept os fd k))"
    and "quiet accepted delivered k (os_shutdown os fd k)"
    and "quiet accepted delivered k (os_close os fd k)"
    and "quiet accepted delivered k (snd (os_setaffinity os m k))"
    and "quiet accepted delivered k (snd (os_getcpu os k))"
    and "quiet accepted delivered k (snd (os_bind os fd a k))"
    and "quiet accepted delivered k (snd (os_listen os fd backlog k))"
    and "quiet accepted delivered k (snd (os_getsockname os fd k))"
proof -
  note a = assms [unfolded stream_network_def]
  show "os_send os fd buf k = (r, k') \<Longrightarrow>
      (if 0 < r then nat r \<le> length buf \<and> accepted k' = accepted k @ take (nat r) buf \<and>
         delivered k' = delivered k
       else quiet accepted delivered k k')"
    by (rule a [THEN conjunct1, rule_format])
  show "os_recv os fd n k = ((r, bs), k') \<Longrightarrow>
      (if 0 < r then nat r \<le> n \<and> length bs = nat r \<and> delivered k' = delivered k @ bs \<and>
         accepted k' = accepted k
       else quiet accepted delivered k k')"
    by (rule a [THEN conjunct2, THEN conjunct1, rule_format])
qed (use assms in \<open>auto simp: stream_network_def\<close>)

text \<open>
  The helpers that transfer nothing preserve any function of the kernel's state that the calls they make
  preserve.
\<close>

definition kept :: "'k os \<Rightarrow> ('k \<Rightarrow> 'v) \<Rightarrow> bool" where
  "kept os f \<longleftrightarrow>
     (\<forall>ty k. f (snd (os_socket os ty k)) = f k) \<and> (\<forall>fd opt k. f (snd (os_setsockopt os fd opt k)) = f k) \<and>
     (\<forall>fd a k. f (snd (os_connect os fd a k)) = f k) \<and> (\<forall>fd k. f (snd (os_accept os fd k)) = f k) \<and>
     (\<forall>fd k. f (os_close os fd k) = f k) \<and> (\<forall>m k. f (snd (os_setaffinity os m k)) = f k) \<and>
     (\<forall>k. f (snd (os_getcpu os k)) = f k) \<and> (\<forall>fd a k. f (snd (os_bind os fd a k)) = f k) \<and>
     (\<forall>fd n k. f (snd (os_listen os fd n k)) = f k) \<and> (\<forall>fd k. f (snd (os_getsockname os fd k)) = f k)"

lemma kept_helpers:
  assumes "kept os f"
  shows "f (close_socket os fd k) = f k"
    and "get_current_cpu os k = (c, k') \<Longrightarrow> f k' = f k"
    and "start_thread os who cpu k = (line, k') \<Longrightarrow> f k' = f k"
    and "connect_tcp_client os port no_delay bytes k = (x, k') \<Longrightarrow> f k' = f k"
    and "os_accept os fd k = (a, k') \<Longrightarrow> f k' = f k"
    and "set_up_connection os cfg listen_fd fd k = (c, k') \<Longrightarrow> f k' = f k"
    and "open_tcp_feed os bytes k = (y, k') \<Longrightarrow> f k' = f k"
proof -
  have facts: "f (snd (os_socket os ty k)) = f k" "f (snd (os_setsockopt os fd opt k)) = f k"
      "f (snd (os_connect os fd a k)) = f k" "f (snd (os_accept os fd k)) = f k"
      "f (os_close os fd k) = f k" "f (snd (os_setaffinity os m k)) = f k" "f (snd (os_getcpu os k)) = f k"
      "f (snd (os_bind os fd a k)) = f k" "f (snd (os_listen os fd n k)) = f k"
      "f (snd (os_getsockname os fd k)) = f k"
    for ty k fd opt a m n
    using assms by (simp_all add: kept_def)
  show "f (close_socket os fd k) = f k" by (simp add: close_socket_def facts)
  show "get_current_cpu os k = (c, k') \<Longrightarrow> f k' = f k"
    using facts(7) [of k] by (simp add: get_current_cpu_def)
  show "start_thread os who cpu k = (line, k') \<Longrightarrow> f k' = f k"
    using facts(6) [of _ k]
    by (auto simp: start_thread_def pin_thread_to_cpu_def Let_def case_prod_beta split: if_splits)
  show "connect_tcp_client os port no_delay bytes k = (x, k') \<Longrightarrow> f k' = f k"
    by (auto simp: connect_tcp_client_def set_tcp_no_delay_def set_socket_send_buffer_def close_socket_def
        facts Let_def case_prod_beta split: if_splits)
  show "os_accept os fd k = (a, k') \<Longrightarrow> f k' = f k" using facts(4) [of fd k] by simp
  have "f (snd (set_up_connection os cfg listen_fd fd k)) = f k"
    by (simp add: set_up_connection_def set_tcp_no_delay_def set_socket_receive_buffer_def close_socket_def
        get_current_cpu_def facts Let_def case_prod_beta)
  then show "set_up_connection os cfg listen_fd fd k = (c, k') \<Longrightarrow> f k' = f k" by simp
  show "open_tcp_feed os bytes k = (y, k') \<Longrightarrow> f k' = f k"
    by (auto simp: open_tcp_feed_def open_receiver_def create_tcp_listener_def get_bound_port_def
        set_socket_receive_buffer_def close_socket_def facts Let_def case_prod_beta split: if_splits sum.splits)
qed

lemma stream_network_kept:
  assumes "stream_network os accepted delivered"
  shows "kept os accepted" and "kept os delivered"
  using stream_networkD(4-) [OF assms] unfolding quiet_def kept_def by auto

lemma uncutD:
  assumes "uncut os accepted delivered shut"
  shows "0 < n \<Longrightarrow> os_recv os fd n k = ((r, bs), k') \<Longrightarrow> r \<le> 0 \<Longrightarrow> \<not> (r < 0 \<and> os_errno os k' = EINTR) \<Longrightarrow>
      shut k \<and> delivered k = accepted k"
    and "os_send os fd buf k = (r, k') \<Longrightarrow> shut k' = shut k"
    and "os_recv os fd n k = (x, k') \<Longrightarrow> shut k' = shut k"
    and "kept os shut"
proof -
  note a = assms [unfolded uncut_def]
  show "0 < n \<Longrightarrow> os_recv os fd n k = ((r, bs), k') \<Longrightarrow> r \<le> 0 \<Longrightarrow> \<not> (r < 0 \<and> os_errno os k' = EINTR) \<Longrightarrow>
      shut k \<and> delivered k = accepted k"
    using a [THEN conjunct1, rule_format] by blast
  show "os_send os fd buf k = (r, k') \<Longrightarrow> shut k' = shut k"
    using a [THEN conjunct2, THEN conjunct1] by (metis snd_conv)
  show "os_recv os fd n k = (x, k') \<Longrightarrow> shut k' = shut k"
    using a [THEN conjunct2, THEN conjunct2, THEN conjunct1] by (metis snd_conv)
  show "kept os shut" using a [THEN conjunct2, THEN conjunct2, THEN conjunct2] unfolding kept_def .
qed

section \<open>Invariant\<close>

text \<open>
  The client: the stream is the \<open>j\<close> messages counted, stamped, and the part of the current one that
  was sent.
\<close>

definition tcp_client_inv ::
  "('k \<Rightarrow> u8 list) \<Rightarrow> market_message list \<Rightarrow> ('k, 'b) tcp_system \<Rightarrow> bool" where
  "tcp_client_inv accepted messages s \<longleftrightarrow>
     (\<exists>j es part. j \<le> length messages \<and> ts_todo s = drop j messages \<and>
        fp_produced (ts_producer s) = of_nat j \<and>
        accepted (ts_kernel s) = stream_bytes es @ part \<and> length part < message_size \<and>
        stamps_of es (take (length es) messages) \<and>
        (case ts_client s of
           Next_Send fd \<Rightarrow> length es = j \<and> part = []
         | In_Send fd data sent \<Rightarrow> j < length messages \<and> sent \<le> message_size \<and>
             (\<exists>now. data = message_bytes (stamp now (messages ! j))) \<and>
             (if sent = message_size then length es = Suc j \<and> part = []
              else length es = j \<and> part = take sent data)
         | Client_Shuts fd \<Rightarrow> length es = j
         | Client_Closes fd \<Rightarrow> length es = j
         | Client_Exited \<Rightarrow> length es = j
         | _ \<Rightarrow> j = 0 \<and> es = [] \<and> part = []))"

text \<open>
  The server: what was delivered is whole blocks, which the book has taken, and the part of the next one
  that is in the buffer.
\<close>

definition tcp_server_inv ::
  "('k \<Rightarrow> u8 list) \<Rightarrow> ('b \<Rightarrow> market_message \<Rightarrow> 'b cpp) \<Rightarrow> u64 \<Rightarrow> 'b \<Rightarrow> ('k, 'b) tcp_system \<Rightarrow> bool" where
  "tcp_server_inv delivered on_msg num b s \<longleftrightarrow>
     (\<exists>ds part. delivered (ts_kernel s) = concat ds @ part \<and> (\<forall>d \<in> set ds. length d = message_size) \<and>
        feed (on_bytes on_msg) ds b = Inr (fc_book (ts_consumer s)) \<and>
        unat (fc_consumed (ts_consumer s)) = length ds \<and> length ds \<le> unat num \<and>
        length (samples (fc_network (ts_consumer s))) = length ds \<and>
        length (samples (fc_processing (ts_consumer s))) = length ds \<and>
        length (fc_buffer (ts_consumer s)) = message_size \<and>
        (case ts_server s of
           In_Recv fd received \<Rightarrow> received \<le> message_size \<and> length ds < unat num \<and>
             part = take received (fc_buffer (ts_consumer s))
         | Server_Closes fd \<Rightarrow> length part < message_size
         | Server_Exited \<Rightarrow> length part < message_size
         | _ \<Rightarrow> part = []))"

lemma message_size_pos [simp]: "0 < message_size"
  by (simp add: message_size_def)

lemma tcp_client_frame:
  "tcp_client_inv accepted messages s \<Longrightarrow> accepted (ts_kernel s') = accepted (ts_kernel s) \<Longrightarrow>
   ts_todo s' = ts_todo s \<Longrightarrow> ts_producer s' = ts_producer s \<Longrightarrow> ts_client s' = ts_client s \<Longrightarrow>
   tcp_client_inv accepted messages s'"
  by (simp add: tcp_client_inv_def)

lemma tcp_server_frame:
  "tcp_server_inv delivered on_msg num b s \<Longrightarrow> delivered (ts_kernel s') = delivered (ts_kernel s) \<Longrightarrow>
   ts_consumer s' = ts_consumer s \<Longrightarrow> ts_server s' = ts_server s \<Longrightarrow>
   tcp_server_inv delivered on_msg num b s'"
  unfolding tcp_server_inv_def by (simp cong: tcp_server.case_cong)

lemma stamps_of_take_Suc:
  assumes "stamps_of es (take (length es) messages)" and "length es < length messages"
  shows "stamps_of (es @ [stamp now (messages ! length es)]) (take (Suc (length es)) messages)"
  using stamps_of_snoc [OF assms(1), of now "messages ! length es"] assms(2)
  by (simp add: take_Suc_conv_app_nth)

text \<open>Where the client is while it sends a message.\<close>

lemma tcp_in_sendE:
  assumes "tcp_client_inv accepted messages s" and "ts_client s = In_Send fd data sent"
    and "\<forall>msg \<in> set messages. well_sized msg"
  obtains j es part now where "j < length messages" and "ts_todo s = drop j messages"
    and "fp_produced (ts_producer s) = of_nat j" and "accepted (ts_kernel s) = stream_bytes es @ part"
    and "stamps_of es (take (length es) messages)" and "data = message_bytes (stamp now (messages ! j))"
    and "if sent = message_size then length es = Suc j \<and> part = [] else length es = j \<and> part = take sent data"
    and "sent \<le> message_size" and "length data = message_size"
proof -
  from assms(1,2) obtain j es part now where j: "j < length messages" "ts_todo s = drop j messages"
      "fp_produced (ts_producer s) = of_nat j" "accepted (ts_kernel s) = stream_bytes es @ part"
      "stamps_of es (take (length es) messages)" "data = message_bytes (stamp now (messages ! j))"
      "if sent = message_size then length es = Suc j \<and> part = [] else length es = j \<and> part = take sent data"
      "sent \<le> message_size"
    unfolding tcp_client_inv_def by auto
  from j(1,6) assms(3) have "length data = message_size" by (simp add: length_message_bytes)
  with j show thesis by (rule that)
qed

text \<open>A partial send moves bytes of the message to the stream; the last one completes the block.\<close>

lemma tcp_sends_some_inv:
  assumes net: "stream_network os accepted delivered" and ws: "\<forall>msg \<in> set messages. well_sized msg"
    and inv: "tcp_client_inv accepted messages s"
    and pc: "ts_client s = In_Send fd data sent" "sent < length data"
    and send: "os_send os fd (drop sent data) (ts_kernel s) = (r, k)" "r > 0"
  shows "tcp_client_inv accepted messages (s\<lparr>ts_kernel := k, ts_client := In_Send fd data (sent + nat r)\<rparr>)"
proof -
  obtain j es part now where j: "j < length messages" "ts_todo s = drop j messages"
      "fp_produced (ts_producer s) = of_nat j" "accepted (ts_kernel s) = stream_bytes es @ part"
      "stamps_of es (take (length es) messages)" "data = message_bytes (stamp now (messages ! j))"
      "if sent = message_size then length es = Suc j \<and> part = [] else length es = j \<and> part = take sent data"
      and len: "length data = message_size"
    by (rule tcp_in_sendE [OF inv pc(1) ws])
  with pc(2) j(7) have es: "length es = j" "part = take sent data" by simp_all
  from stream_networkD(1) [OF net send(1)] send(2) have r: "nat r \<le> message_size - sent"
      and "accepted k = accepted (ts_kernel s) @ take (nat r) (drop sent data)"
    using len by simp_all
  then have acc: "accepted k = stream_bytes es @ take (sent + nat r) data"
    using j(4) es(2) by (simp add: take_add)
  show ?thesis
  proof (cases "sent + nat r = message_size")
    case True
    have "accepted k = stream_bytes (es @ [stamp now (messages ! j)]) @ []"
      using acc True len j(6) by simp
    moreover have "stamps_of (es @ [stamp now (messages ! j)]) (take (Suc j) messages)"
      using stamps_of_take_Suc [of es messages now] j(1,5) es(1) by simp
    ultimately show ?thesis
      using j True es(1) unfolding tcp_client_inv_def
      by (intro exI [of _ j] exI [of _ "es @ [stamp now (messages ! j)]"] exI [of _ "[]"]) auto
  next
    case False
    with r pc(2) len have "sent + nat r < message_size" by simp
    with acc j es False len show ?thesis unfolding tcp_client_inv_def
      by (intro exI [of _ j] exI [of _ es] exI [of _ "take (sent + nat r) data"]) auto
  qed
qed

text \<open>A partial receive fills the buffer from where it stands.\<close>

lemma tcp_receives_some_inv:
  assumes net: "stream_network os accepted delivered"
    and inv: "tcp_server_inv delivered on_msg num b s"
    and pc: "ts_server s = In_Recv fd received" "received < message_size"
    and recv: "os_recv os fd (message_size - received) (ts_kernel s) = ((r, bs), k)" "r > 0"
    and c: "c = (ts_consumer s)\<lparr>fc_buffer := take received (fc_buffer (ts_consumer s)) @ bs @
      drop (received + length bs) (fc_buffer (ts_consumer s))\<rparr>"
  shows "tcp_server_inv delivered on_msg num b
     (s\<lparr>ts_kernel := k, ts_server := In_Recv fd (received + nat r), ts_consumer := c\<rparr>)"
proof -
  obtain ds part where ds: "delivered (ts_kernel s) = concat ds @ take received (fc_buffer (ts_consumer s))"
      "\<forall>d \<in> set ds. length d = message_size" "feed (on_bytes on_msg) ds b = Inr (fc_book (ts_consumer s))"
      "unat (fc_consumed (ts_consumer s)) = length ds" "length ds < unat num"
      "length (samples (fc_network (ts_consumer s))) = length ds"
      "length (samples (fc_processing (ts_consumer s))) = length ds"
      "length (fc_buffer (ts_consumer s)) = message_size"
    using inv pc(1) unfolding tcp_server_inv_def by auto
  from stream_networkD(2) [OF net recv(1)] recv(2) have r: "nat r \<le> message_size - received"
      "length bs = nat r" "delivered k = delivered (ts_kernel s) @ bs" by simp_all
  have "take (received + nat r) (fc_buffer c) = take received (fc_buffer (ts_consumer s)) @ bs"
    using c ds(8) pc(2) r(2) by simp
  then have "delivered k = concat ds @ take (received + nat r) (fc_buffer c)" using r(3) ds(1) by simp
  moreover have "length (fc_buffer c) = message_size" using c ds(8) pc(2) r(1,2) by simp
  moreover have "fc_book c = fc_book (ts_consumer s)" "fc_consumed c = fc_consumed (ts_consumer s)"
      "fc_network c = fc_network (ts_consumer s)" "fc_processing c = fc_processing (ts_consumer s)"
    using c by simp_all
  ultimately show ?thesis
    using ds r(1) pc(2) unfolding tcp_server_inv_def
    by (intro exI [of _ ds] exI [of _ "take (received + nat r) (fc_buffer c)"]) simp
qed

text \<open>A full buffer is one more block.\<close>

lemma tcp_received_all_inv:
  assumes inv: "tcp_server_inv delivered on_msg num b s"
    and pc: "ts_server s = In_Recv fd received" "\<not> received < message_size"
    and run: "process_received on_msg rd (ts_consumer s) = Inr c"
  shows "tcp_server_inv delivered on_msg num b (s\<lparr>ts_server := Next_Receive fd, ts_consumer := c\<rparr>)"
proof -
  let ?bs = "fc_buffer (ts_consumer s)"
  obtain ds where ds: "delivered (ts_kernel s) = concat ds @ take received ?bs" "received \<le> message_size"
      "\<forall>d \<in> set ds. length d = message_size" "feed (on_bytes on_msg) ds b = Inr (fc_book (ts_consumer s))"
      "unat (fc_consumed (ts_consumer s)) = length ds" "length ds < unat num"
      "length (samples (fc_network (ts_consumer s))) = length ds"
      "length (samples (fc_processing (ts_consumer s))) = length ds" "length ?bs = message_size"
    using inv pc(1) unfolding tcp_server_inv_def by auto
  have "(ts_consumer s)\<lparr>fc_buffer := ?bs\<rparr> = ts_consumer s" by simp
  with run have "process_received on_msg rd ((ts_consumer s)\<lparr>fc_buffer := ?bs\<rparr>) = Inr c" by simp
  note c = process_received_bytes [OF this]
  have "unat (fc_consumed c) = length ds + 1"
    using c(2) ds(5,6) unsigned_less [of num, where ?'a = nat] by (simp add: unat_word_ariths(1))
  moreover have "delivered (ts_kernel s) = concat (ds @ [?bs]) @ []" using ds(1,2,9) pc(2) by simp
  moreover have "feed (on_bytes on_msg) (ds @ [?bs]) b = Inr (fc_book c)" using ds(4) c(1) by (simp add: feed_append)
  ultimately show ?thesis
    using ds c(3-5) unfolding tcp_server_inv_def
    by (intro exI [of _ "ds @ [?bs]"] exI [of _ "[]"]) simp
qed

section \<open>Every step keeps the invariant\<close>

lemma tcp_step_client_inv:
  assumes net: "stream_network os accepted delivered" and ws: "\<forall>msg \<in> set messages. well_sized msg"
    and inv: "tcp_client_inv accepted messages s"
    and step: "tcp_step os on_msg cfg listen_fd port s s'"
  shows "tcp_client_inv accepted messages s'"
proof -
  note kept = kept_helpers [OF stream_network_kept(1) [OF net]]
  from step show ?thesis
  proof cases
    case (client_pins line k)
    with inv kept(3) [OF client_pins(3)] show ?thesis by (auto simp: tcp_client_inv_def)
  next
    case client_yields
    with inv show ?thesis by simp
  next
    case (client_connects fd k1 cpu k2)
    with inv kept(4) [OF client_connects(4)] kept(2) [OF client_connects(5)] show ?thesis
      by (auto simp: tcp_client_inv_def)
  next
    case (client_throws e k1)
    with inv kept(4) [OF client_throws(4)] show ?thesis by (auto simp: tcp_client_inv_def)
  next
    case (starts_send fd msg rest now)
    from inv starts_send(2) obtain j es where j: "j \<le> length messages" "ts_todo s = drop j messages"
        "fp_produced (ts_producer s) = of_nat j" "accepted (ts_kernel s) = stream_bytes es"
        "stamps_of es (take (length es) messages)" "length es = j"
      by (auto simp: tcp_client_inv_def)
    with starts_send(3) have "j < length messages" "messages ! j = msg"
      by (auto simp: nth_via_drop intro: ccontr)
    with j starts_send(1) show ?thesis
      unfolding tcp_client_inv_def
      by (intro exI [of _ j] exI [of _ es] exI [of _ "[]"]) (auto simp: message_size_def)
  next
    case (sends_some fd data sent r k)
    with tcp_sends_some_inv [OF net ws inv sends_some(2-5)] show ?thesis by simp
  next
    case (send_interrupted fd data sent r k)
    with stream_networkD(1) [OF net send_interrupted(4)]
    have "accepted k = accepted (ts_kernel s)" by (simp add: quiet_def)
    with send_interrupted(1) show ?thesis by (auto intro: tcp_client_frame [OF inv])
  next
    case (send_fails fd data sent r k)
    have "accepted k = accepted (ts_kernel s)"
      using stream_networkD(1) [OF net send_fails(4)] send_fails(5) by (simp add: quiet_def split: if_splits)
    moreover obtain j es part now where j: "j < length messages" "ts_todo s = drop j messages"
        "fp_produced (ts_producer s) = of_nat j" "accepted (ts_kernel s) = stream_bytes es @ part"
        "stamps_of es (take (length es) messages)" "length data = message_size"
        "if sent = message_size then length es = Suc j \<and> part = [] else length es = j \<and> part = take sent data"
      by (rule tcp_in_sendE [OF inv send_fails(2) ws])
    ultimately show ?thesis
      using send_fails(1,3) unfolding tcp_client_inv_def
      by (intro exI [of _ j] exI [of _ es] exI [of _ part]) simp
  next
    case (sent_all fd data sent cpu)
    obtain j es part now where j: "j < length messages" "ts_todo s = drop j messages" "sent \<le> message_size"
        "fp_produced (ts_producer s) = of_nat j" "accepted (ts_kernel s) = stream_bytes es @ part"
        "stamps_of es (take (length es) messages)" "length data = message_size"
        "if sent = message_size then length es = Suc j \<and> part = [] else length es = j \<and> part = take sent data"
      by (rule tcp_in_sendE [OF inv sent_all(2) ws])
    with sent_all(3) have "length es = Suc j" "part = []" by auto
    with j sent_all(1) show ?thesis
      unfolding tcp_client_inv_def
      by (intro exI [of _ "Suc j"] exI [of _ es] exI [of _ "[]"]) (simp add: drop_Suc tl_drop)
  next
    case (sends_over fd)
    with inv obtain j es where "j \<le> length messages" "ts_todo s = drop j messages"
        "fp_produced (ts_producer s) = of_nat j" "accepted (ts_kernel s) = stream_bytes es"
        "stamps_of es (take (length es) messages)" "length es = j"
      by (auto simp: tcp_client_inv_def)
    with sends_over(1) show ?thesis
      unfolding tcp_client_inv_def
      by (intro exI [of _ j] exI [of _ es] exI [of _ "[]"]) simp
  next
    case (client_shuts fd)
    with inv stream_networkD(8) [OF net, of "ts_kernel s" fd] show ?thesis
      by (auto simp: tcp_client_inv_def quiet_def)
  next
    case (client_closes fd)
    with inv kept(1) show ?thesis by (auto simp: tcp_client_inv_def)
  next
    case (server_pins line k)
    with kept(3) [OF server_pins(3)] show ?thesis by (auto intro: tcp_client_frame [OF inv])
  next
    case server_announces
    then show ?thesis by (auto intro: tcp_client_frame [OF inv])
  next
    case (accept_fails fd k)
    with kept(5) [OF accept_fails(3)] kept(1) show ?thesis by (auto intro: tcp_client_frame [OF inv])
  next
    case (accepts fd k1 cpu k2)
    with kept(5) [OF accepts(3)] kept(6) [OF accepts(5)] show ?thesis
      by (auto intro: tcp_client_frame [OF inv])
  next
    case (starts_receive fd)
    then show ?thesis by (auto intro: tcp_client_frame [OF inv])
  next
    case (receives_some fd received r bs k)
    with stream_networkD(2) [OF net receives_some(4)] show ?thesis
      by (auto intro: tcp_client_frame [OF inv])
  next
    case (receive_interrupted fd received r bs k)
    with stream_networkD(2) [OF net receive_interrupted(4)] show ?thesis
      by (auto simp: quiet_def intro: tcp_client_frame [OF inv])
  next
    case (receive_fails fd received r bs k)
    with stream_networkD(2) [OF net receive_fails(4)] show ?thesis
      by (auto simp: quiet_def intro: tcp_client_frame [OF inv])
  next
    case (received_all fd received rd c)
    then show ?thesis by (auto intro: tcp_client_frame [OF inv])
  next
    case (server_has_all fd)
    then show ?thesis by (auto intro: tcp_client_frame [OF inv])
  next
    case (server_closes fd)
    with kept(1) show ?thesis by (auto intro: tcp_client_frame [OF inv])
  qed
qed

lemma tcp_step_server_inv:
  assumes net: "stream_network os accepted delivered"
    and inv: "tcp_server_inv delivered on_msg (fs_num_messages (fst cfg)) b s"
    and step: "tcp_step os on_msg cfg listen_fd port s s'"
  shows "tcp_server_inv delivered on_msg (fs_num_messages (fst cfg)) b s'"
proof -
  let ?n = "fs_num_messages (fst cfg)"
  note kept = kept_helpers [OF stream_network_kept(2) [OF net]]
  note frame = tcp_server_frame [OF inv]
  from step show ?thesis
  proof cases
    case (client_pins line k)
    with kept(3) [OF client_pins(3)] show ?thesis by (auto intro: frame)
  next
    case client_yields
    with inv show ?thesis by simp
  next
    case (client_connects fd k1 cpu k2)
    with kept(4) [OF client_connects(4)] kept(2) [OF client_connects(5)] show ?thesis by (auto intro: frame)
  next
    case (client_throws e k1)
    with kept(4) [OF client_throws(4)] show ?thesis by (auto intro: frame)
  next
    case (sends_some fd data sent r k)
    with stream_networkD(1) [OF net sends_some(4)] show ?thesis by (auto intro: frame)
  next
    case (send_interrupted fd data sent r k)
    with stream_networkD(1) [OF net send_interrupted(4)] show ?thesis by (auto simp: quiet_def intro: frame)
  next
    case (send_fails fd data sent r k)
    with stream_networkD(1) [OF net send_fails(4)] show ?thesis by (auto simp: quiet_def intro: frame)
  next
    case (client_shuts fd)
    with stream_networkD(8) [OF net, of "ts_kernel s" fd] show ?thesis by (auto simp: quiet_def intro: frame)
  next
    case (client_closes fd)
    with kept(1) show ?thesis by (auto intro: frame)
  next
    case (server_pins line k)
    with inv kept(3) [OF server_pins(3)] show ?thesis by (auto simp: tcp_server_inv_def)
  next
    case server_announces
    with inv show ?thesis by (auto simp: tcp_server_inv_def)
  next
    case (accept_fails fd k)
    with inv kept(5) [OF accept_fails(3)] kept(1) show ?thesis by (auto simp: tcp_server_inv_def)
  next
    case (accepts fd k1 cpu k2)
    with inv kept(5) [OF accepts(3)] kept(6) [OF accepts(5)] show ?thesis by (auto simp: tcp_server_inv_def)
  next
    case (starts_receive fd)
    with inv show ?thesis by (auto simp: tcp_server_inv_def word_less_nat_alt)
  next
    case (receives_some fd received r bs k)
    with tcp_receives_some_inv [OF net inv receives_some(2-5) refl] show ?thesis by simp
  next
    case (receive_interrupted fd received r bs k)
    with stream_networkD(2) [OF net receive_interrupted(4)] show ?thesis by (auto simp: quiet_def intro: frame)
  next
    case (receive_fails fd received r bs k)
    then have "delivered k = delivered (ts_kernel s)"
      using stream_networkD(2) [OF net receive_fails(4)] by (simp add: quiet_def)
    with inv receive_fails(1-3) show ?thesis unfolding tcp_server_inv_def by fastforce
  next
    case (received_all fd received rd c)
    with tcp_received_all_inv [OF inv received_all(2,3,4)] show ?thesis by simp
  next
    case (server_has_all fd)
    with inv obtain ds where "delivered (ts_kernel s) = concat ds" "\<forall>d \<in> set ds. length d = message_size"
        "feed (on_bytes on_msg) ds b = Inr (fc_book (ts_consumer s))"
        "unat (fc_consumed (ts_consumer s)) = length ds" "length ds \<le> unat ?n"
        "length (samples (fc_network (ts_consumer s))) = length ds"
        "length (samples (fc_processing (ts_consumer s))) = length ds"
        "length (fc_buffer (ts_consumer s)) = message_size"
      by (auto simp: tcp_server_inv_def)
    with server_has_all(1) show ?thesis
      unfolding tcp_server_inv_def by (intro exI [of _ ds] exI [of _ "[]"]) simp
  next
    case (server_closes fd)
    with inv kept(1) show ?thesis by (auto simp: tcp_server_inv_def)
  qed (auto intro: frame)
qed

text \<open>
  On a connection that is not cut, the server stops with all messages or with all that was sent before
  the shutdown.
\<close>

definition tcp_end_inv ::
  "('k \<Rightarrow> u8 list) \<Rightarrow> ('k \<Rightarrow> u8 list) \<Rightarrow> ('k \<Rightarrow> bool) \<Rightarrow> u64 \<Rightarrow> ('k, 'b) tcp_system \<Rightarrow> bool" where
  "tcp_end_inv accepted delivered shut num s \<longleftrightarrow>
     (shut (ts_kernel s) \<longrightarrow> (\<exists>fd. ts_client s = Client_Closes fd) \<or> ts_client s = Client_Exited) \<and>
     ((\<exists>fd. ts_server s = Server_Closes fd) \<or> ts_server s = Server_Exited \<longrightarrow>
        num \<le> fc_consumed (ts_consumer s) \<or>
        shut (ts_kernel s) \<and> delivered (ts_kernel s) = accepted (ts_kernel s))"

lemma tcp_step_end_inv:
  assumes net: "stream_network os accepted delivered" and un: "uncut os accepted delivered shut"
    and inv: "tcp_end_inv accepted delivered shut (fs_num_messages (fst cfg)) s"
    and step: "tcp_step os on_msg cfg listen_fd port s s'"
  shows "tcp_end_inv accepted delivered shut (fs_num_messages (fst cfg)) s'"
proof -
  note sent = kept_helpers [OF stream_network_kept(1) [OF net]]
  note got = kept_helpers [OF stream_network_kept(2) [OF net]]
  note shut = kept_helpers [OF uncutD(4) [OF un]]
  from step show ?thesis
  proof cases
    case (client_pins line k)
    with inv sent(3) [OF client_pins(3)] got(3) [OF client_pins(3)] shut(3) [OF client_pins(3)]
    show ?thesis by (auto simp: tcp_end_inv_def)
  next
    case (client_connects fd k1 cpu k2)
    with inv sent(4) [OF client_connects(4)] got(4) [OF client_connects(4)] shut(4) [OF client_connects(4)]
      sent(2) [OF client_connects(5)] got(2) [OF client_connects(5)] shut(2) [OF client_connects(5)]
    show ?thesis by (auto simp: tcp_end_inv_def)
  next
    case (client_throws e k1)
    with inv sent(4) [OF client_throws(4)] got(4) [OF client_throws(4)] shut(4) [OF client_throws(4)]
    show ?thesis by (auto simp: tcp_end_inv_def)
  next
    case (sends_some fd data sent r k)
    with inv uncutD(2) [OF un sends_some(4)] show ?thesis by (auto simp: tcp_end_inv_def)
  next
    case (send_interrupted fd data sent r k)
    with inv uncutD(2) [OF un send_interrupted(4)] show ?thesis by (auto simp: tcp_end_inv_def)
  next
    case (send_fails fd data sent r k)
    with inv uncutD(2) [OF un send_fails(4)] show ?thesis by (auto simp: tcp_end_inv_def)
  next
    case (client_shuts fd)
    with inv show ?thesis by (auto simp: tcp_end_inv_def)
  next
    case (client_closes fd)
    with inv sent(1) got(1) shut(1) show ?thesis by (auto simp: tcp_end_inv_def)
  next
    case (server_pins line k)
    with inv sent(3) [OF server_pins(3)] got(3) [OF server_pins(3)] shut(3) [OF server_pins(3)]
    show ?thesis by (auto simp: tcp_end_inv_def)
  next
    case (accept_fails fd k)
    with inv shut(1) shut(5) [OF accept_fails(3)] show ?thesis by (auto simp: tcp_end_inv_def)
  next
    case (accepts fd k1 cpu k2)
    with inv shut(5) [OF accepts(3)] shut(6) [OF accepts(5)] show ?thesis by (auto simp: tcp_end_inv_def)
  next
    case (receives_some fd received r bs k)
    with inv uncutD(3) [OF un receives_some(4)] show ?thesis by (auto simp: tcp_end_inv_def)
  next
    case (receive_interrupted fd received r bs k)
    with inv uncutD(3) [OF un receive_interrupted(4)] show ?thesis by (auto simp: tcp_end_inv_def)
  next
    case (receive_fails fd received r bs k)
    then have "shut (ts_kernel s)" "delivered (ts_kernel s) = accepted (ts_kernel s)"
      using uncutD(1) [OF un _ receive_fails(4-6)] by simp_all
    with inv receive_fails(1,5) uncutD(3) [OF un receive_fails(4)] stream_networkD(2) [OF net receive_fails(4)]
    show ?thesis by (auto simp: tcp_end_inv_def quiet_def)
  next
    case (server_has_all fd)
    with inv show ?thesis by (auto simp: tcp_end_inv_def)
  next
    case (server_closes fd)
    with inv sent(1) got(1) shut(1) show ?thesis by (auto simp: tcp_end_inv_def)
  qed (use inv in \<open>auto simp: tcp_end_inv_def\<close>)
qed

section \<open>Reachable states\<close>

definition tcp_inv ::
  "('k \<Rightarrow> u8 list) \<Rightarrow> ('k \<Rightarrow> u8 list) \<Rightarrow> ('b \<Rightarrow> market_message \<Rightarrow> 'b cpp) \<Rightarrow> u64 \<Rightarrow>
   market_message list \<Rightarrow> 'b \<Rightarrow> ('k, 'b) tcp_system \<Rightarrow> bool" where
  "tcp_inv accepted delivered on_msg num messages b s \<longleftrightarrow>
     tcp_client_inv accepted messages s \<and> tcp_server_inv delivered on_msg num b s"

lemma tcp_reachable_inv:
  assumes "tcp_reachable os on_msg cfg listen_fd port messages b k s"
    and "stream_network os accepted delivered" and "\<forall>msg \<in> set messages. well_sized msg"
    and "accepted k = []" and "delivered k = []"
  shows "tcp_inv accepted delivered on_msg (fs_num_messages (fst cfg)) messages b s"
  using assms(1)
proof induction
  case start
  have "stamps_of [] []" by (simp add: stamps_of_def)
  with assms(4,5) show ?case
    by (auto simp: tcp_inv_def tcp_client_inv_def tcp_server_inv_def tcp_system_new_def producer_new_def
        consumer_new_def recorder_new_def length_message_bytes)
next
  case (step s s')
  then show ?case
    unfolding tcp_inv_def
    by (auto intro: tcp_step_client_inv [OF assms(2,3) _ step(2)] tcp_step_server_inv [OF assms(2) _ step(2)])
qed

lemma tcp_reachable_end:
  assumes "tcp_reachable os on_msg cfg listen_fd port messages b k s"
    and "stream_network os accepted delivered" and "uncut os accepted delivered shut" and "\<not> shut k"
  shows "tcp_end_inv accepted delivered shut (fs_num_messages (fst cfg)) s"
  using assms(1)
proof induction
  case start
  with assms(4) show ?case by (simp add: tcp_end_inv_def tcp_system_new_def)
next
  case (step s s')
  show ?case by (rule tcp_step_end_inv [OF assms(2,3) step(3,2)])
qed

end
