(* ===== verification/Tcp_Delivery.thy ===== *)
theory Tcp_Delivery
  imports Tcp_System
begin

text \<open>
  What the interleaved threads of the TCP feed achieve: the functions of Tcp_Feed are runs of one thread
  alone, the invariant gives the messages applied, and on the loopback kernel both threads can finish.
\<close>

section \<open>The functions of one thread are runs of the system\<close>

lemma tcp_send_alone:
  assumes "send_loop os fd data sent k = Some r"
    and "ts_client s = In_Send fd data sent" and "ts_kernel s = k"
  shows "(tcp_step os on_msg cfg listen_fd port)\<^sup>*\<^sup>* s
     (if fst r
      then s\<lparr>ts_kernel := snd r, ts_client := Next_Send fd, ts_todo := tl (ts_todo s),
        ts_producer := note_cpu cpu (count_produced (ts_producer s))\<rparr>
      else s\<lparr>ts_kernel := snd r, ts_client := Client_Shuts fd\<rparr>)"
proof -
  let ?runs = "\<lambda>os fd r s. (tcp_step os on_msg cfg listen_fd port)\<^sup>*\<^sup>* s
     (if fst r
      then s\<lparr>ts_kernel := snd r, ts_client := Next_Send fd, ts_todo := tl (ts_todo s),
        ts_producer := note_cpu cpu (count_produced (ts_producer s))\<rparr>
      else s\<lparr>ts_kernel := snd r, ts_client := Client_Shuts fd\<rparr>)"
  have "\<forall>s. ts_client s = In_Send fd data sent \<longrightarrow> ts_kernel s = k \<longrightarrow> ?runs os fd r s"
  proof (rule send_loop.raw_induct [where P = "\<lambda>os fd data sent k r.
      \<forall>s. ts_client s = In_Send fd data sent \<longrightarrow> ts_kernel s = k \<longrightarrow> ?runs os fd r s", OF _ assms(1)],
      intro allI impI)
    fix f :: "'a os \<Rightarrow> int \<Rightarrow> u8 list \<Rightarrow> nat \<Rightarrow> 'a \<Rightarrow> (bool \<times> 'a) option" and os fd data sent k r
      and s :: "('a, 'b) tcp_system"
    assume IH: "\<And>os fd data sent k r. f os fd data sent k = Some r \<Longrightarrow>
        \<forall>s. ts_client s = In_Send fd data sent \<longrightarrow> ts_kernel s = k \<longrightarrow> ?runs os fd r s"
      and eq: "(if sent < length data
        then (case os_send os fd (drop sent data) k of (r, k') \<Rightarrow>
          if r > 0 then f os fd data (sent + nat r) k'
          else if r < 0 \<and> os_errno os k' = EINTR then f os fd data sent k'
          else Some (False, k'))
        else Some (True, k)) = Some r"
      and s: "ts_client s = In_Send fd data sent" "ts_kernel s = k"
    obtain n k' where call: "os_send os fd (drop sent data) (ts_kernel s) = (n, k')" by fastforce
    show "?runs os fd r s"
    proof (cases "sent < length data")
      case False
      with eq s tcp_step.sent_all [OF s(1) False, of os on_msg cfg listen_fd port cpu] show ?thesis
        by (auto intro!: r_into_rtranclp)
    next
      case True
      consider (some) "n > 0" "f os fd data (sent + nat n) k' = Some r"
        | (again) "n < 0" "os_errno os k' = EINTR" "f os fd data sent k' = Some r"
        | (fails) "n \<le> 0" "\<not> (n < 0 \<and> os_errno os k' = EINTR)" "r = (False, k')"
        using eq True call s(2) by (auto split: if_splits)
      then show ?thesis
      proof cases
        case some
        from converse_rtranclp_into_rtranclp [OF tcp_step.sends_some [OF s(1) True call some(1)]
          IH [OF some(2), rule_format, of "s\<lparr>ts_kernel := k', ts_client := In_Send fd data (sent + nat n)\<rparr>"]]
        show ?thesis by (cases "fst r") simp_all
      next
        case again
        from converse_rtranclp_into_rtranclp [OF tcp_step.send_interrupted [OF s(1) True call again(1,2)]
          IH [OF again(3), rule_format, of "s\<lparr>ts_kernel := k'\<rparr>"]] s(1)
        show ?thesis by (cases "fst r") simp_all
      next
        case fails
        from r_into_rtranclp [of "tcp_step os on_msg cfg listen_fd port", OF tcp_step.send_fails [OF s(1) True call fails(1,2)]] fails(3)
        show ?thesis by simp
      qed
    qed
  qed
  with assms(2,3) show ?thesis by blast
qed

lemma tcp_produce_alone:
  assumes "tcp_produce os fd sends i msgs p k = Some (p', k')"
    and "ts_client s = Next_Send fd" and "ts_todo s = msgs" and "ts_producer s = p" and "ts_kernel s = k"
  shows "\<exists>rest. (tcp_step os on_msg cfg listen_fd port)\<^sup>*\<^sup>* s
     (s\<lparr>ts_kernel := k', ts_client := Client_Shuts fd, ts_todo := rest, ts_producer := p'\<rparr>)"
  using assms
proof (induction msgs arbitrary: i p k s)
  case Nil
  then have "tcp_step os on_msg cfg listen_fd port s (s\<lparr>ts_client := Client_Shuts fd\<rparr>)"
    by (intro tcp_step.sends_over) simp_all
  moreover have "s\<lparr>ts_client := Client_Shuts fd\<rparr> =
      s\<lparr>ts_kernel := k', ts_client := Client_Shuts fd, ts_todo := [], ts_producer := p'\<rparr>"
    using Nil by simp
  ultimately show ?case by (metis r_into_rtranclp)
next
  case (Cons msg msgs)
  let ?step = "tcp_step os on_msg cfg listen_fd port"
  let ?bs = "message_bytes (stamp (fst (sends i)) msg)"
  obtain ok k1 where send: "send_loop os fd ?bs 0 k = Some (ok, k1)"
      "if ok then tcp_produce os fd sends (Suc i) msgs (note_cpu (snd (sends i)) (count_produced p)) k1 = Some (p', k')
       else p' = p \<and> k' = k1"
    using Cons.prems(1) unfolding tcp_produce.simps send_all_def by (auto split: option.splits if_splits)
  let ?s1 = "s\<lparr>ts_client := In_Send fd ?bs 0\<rparr>"
  have first: "?step s ?s1" using Cons.prems by (intro tcp_step.starts_send) simp_all
  from tcp_send_alone [OF send(1), of ?s1 on_msg cfg listen_fd port "snd (sends i)"] Cons.prems(5)
  have rest: "?step\<^sup>*\<^sup>* ?s1 (if ok
      then ?s1\<lparr>ts_kernel := k1, ts_client := Next_Send fd, ts_todo := tl (ts_todo s),
        ts_producer := note_cpu (snd (sends i)) (count_produced (ts_producer s))\<rparr>
      else ?s1\<lparr>ts_kernel := k1, ts_client := Client_Shuts fd\<rparr>)" by (cases ok) simp_all
  show ?case
  proof (cases ok)
    case True
    let ?s2 = "?s1\<lparr>ts_kernel := k1, ts_client := Next_Send fd, ts_todo := tl (ts_todo s),
        ts_producer := note_cpu (snd (sends i)) (count_produced (ts_producer s))\<rparr>"
    have "?step\<^sup>*\<^sup>* s ?s2" using first rest True by simp
    moreover obtain todo where "?step\<^sup>*\<^sup>* ?s2
        (?s2\<lparr>ts_kernel := k', ts_client := Client_Shuts fd, ts_todo := todo, ts_producer := p'\<rparr>)"
      using Cons.IH [of "Suc i" "note_cpu (snd (sends i)) (count_produced p)" k1 ?s2] send(2) True Cons.prems(3,4)
      by auto
    ultimately show ?thesis by (fastforce intro: rtranclp_trans)
  next
    case False
    have eq: "?s1\<lparr>ts_kernel := k1, ts_client := Client_Shuts fd\<rparr> =
        s\<lparr>ts_kernel := k', ts_client := Client_Shuts fd, ts_todo := ts_todo s, ts_producer := p'\<rparr>"
      using send(2) False Cons.prems(4) by simp
    from converse_rtranclp_into_rtranclp [OF first rest] False eq show ?thesis by (intro exI [of _ "ts_todo s"]) simp
  qed
qed

text \<open>The consumer, on calls that fill at most what they were given.\<close>

definition bounded_recv :: "'k os \<Rightarrow> bool" where
  "bounded_recv os \<longleftrightarrow> (\<forall>fd n k r bs k'. os_recv os fd n k = ((r, bs), k') \<longrightarrow> 0 < r \<longrightarrow>
     nat r \<le> n \<and> length bs = nat r)"

lemma tcp_recv_alone:
  assumes "recv_loop os fd data received k = Some r" and "bounded_recv os"
    and "ts_server s = In_Recv fd received" and "ts_kernel s = k" and "fc_buffer (ts_consumer s) = data"
    and "received \<le> message_size" and "length data = message_size" and "tcp_program_runs s"
  shows "length (snd (fst r)) = message_size \<and> (tcp_step os on_msg cfg listen_fd port)\<^sup>*\<^sup>* s
     (s\<lparr>ts_kernel := snd r, ts_server := (if fst (fst r) then In_Recv fd message_size else Server_Closes fd),
        ts_consumer := (ts_consumer s)\<lparr>fc_buffer := snd (fst r)\<rparr>\<rparr>)"
proof -
  let ?runs = "\<lambda>os fd data received k r. bounded_recv os \<longrightarrow> (\<forall>s. ts_server s = In_Recv fd received \<longrightarrow>
     ts_kernel s = k \<longrightarrow> fc_buffer (ts_consumer s) = data \<longrightarrow> received \<le> message_size \<longrightarrow>
     length data = message_size \<longrightarrow> tcp_program_runs s \<longrightarrow>
     length (snd (fst r)) = message_size \<and> (tcp_step os on_msg cfg listen_fd port)\<^sup>*\<^sup>* s
     (s\<lparr>ts_kernel := snd r, ts_server := (if fst (fst r) then In_Recv fd message_size else Server_Closes fd),
        ts_consumer := (ts_consumer s)\<lparr>fc_buffer := snd (fst r)\<rparr>\<rparr>))"
  have "?runs os fd data received k r"
  proof (rule recv_loop.raw_induct [where P = ?runs, OF _ assms(1)], intro allI impI)
    fix f :: "'a os \<Rightarrow> int \<Rightarrow> u8 list \<Rightarrow> nat \<Rightarrow> 'a \<Rightarrow> ((bool \<times> u8 list) \<times> 'a) option"
      and os fd data received k r and s :: "('a, 'b) tcp_system"
    assume IH: "\<And>os fd data received k r. f os fd data received k = Some r \<Longrightarrow> ?runs os fd data received k r"
      and eq: "(if received < length data
        then (case os_recv os fd (length data - received) k of ((r, bs), k') \<Rightarrow>
          if r > 0 then f os fd (take received data @ bs @ drop (received + length bs) data) (received + nat r) k'
          else if r < 0 \<and> os_errno os k' = EINTR then f os fd data received k'
          else Some ((False, data), k'))
        else Some ((True, data), k)) = Some r"
      and s: "bounded_recv os" "ts_server s = In_Recv fd received" "ts_kernel s = k"
        "fc_buffer (ts_consumer s) = data" "received \<le> message_size" "length data = message_size"
        "tcp_program_runs s"
    let ?c = "ts_consumer s"
    let ?finish = "\<lambda>s. s\<lparr>ts_kernel := snd r,
      ts_server := (if fst (fst r) then In_Recv fd message_size else Server_Closes fd),
      ts_consumer := (ts_consumer s)\<lparr>fc_buffer := snd (fst r)\<rparr>\<rparr>"
    show "length (snd (fst r)) = message_size \<and> (tcp_step os on_msg cfg listen_fd port)\<^sup>*\<^sup>* s (?finish s)"
    proof (cases "received < message_size")
      case False
      with s eq have "r = ((True, data), k)" "received = message_size" by auto
      moreover from this s have "?finish s = s" by simp
      ultimately show ?thesis using s(6) by (metis fst_conv snd_conv rtranclp.rtrancl_refl)
    next
      case True
      obtain n bs k' where call: "os_recv os fd (message_size - received) (ts_kernel s) = ((n, bs), k')"
        by (metis surj_pair)
      let ?data = "take received data @ bs @ drop (received + length bs) data"
      consider (some) "n > 0" "f os fd ?data (received + nat n) k' = Some r"
        | (again) "n < 0" "os_errno os k' = EINTR" "f os fd data received k' = Some r"
        | (fails) "n \<le> 0" "\<not> (n < 0 \<and> os_errno os k' = EINTR)" "r = ((False, data), k')"
        using eq True call s(3,6) by (auto split: if_splits)
      then show ?thesis
      proof cases
        case some
        have n: "nat n \<le> message_size - received" "length bs = nat n"
          using s(1) call some(1) unfolding bounded_recv_def by blast+
        let ?s1 = "s\<lparr>ts_kernel := k', ts_server := In_Recv fd (received + nat n),
          ts_consumer := ?c\<lparr>fc_buffer := ?data\<rparr>\<rparr>"
        have step: "tcp_step os on_msg cfg listen_fd port s ?s1"
          using tcp_step.receives_some [OF s(2) True call some(1) s(7), of on_msg cfg listen_fd port] s(4) by simp
        have "length ?data = message_size" "received + nat n \<le> message_size" "tcp_program_runs ?s1"
          using n s(6,7) True by (simp_all add: tcp_program_runs_def)
        with IH [OF some(2), THEN mp, OF s(1), rule_format, of ?s1]
        have "length (snd (fst r)) = message_size \<and> (tcp_step os on_msg cfg listen_fd port)\<^sup>*\<^sup>* ?s1 (?finish ?s1)"
          by simp
        moreover have "?finish ?s1 = ?finish s" by simp
        ultimately show ?thesis 
          using converse_rtranclp_into_rtranclp [of "tcp_step os on_msg cfg listen_fd port", OF step] by metis
      next
        case again
        let ?s1 = "s\<lparr>ts_kernel := k'\<rparr>"
        have step: "tcp_step os on_msg cfg listen_fd port s ?s1"
          by (rule tcp_step.receive_interrupted [OF s(2) True call again(1,2) s(7)])
        have "tcp_program_runs ?s1" using s(7) by (simp add: tcp_program_runs_def)
        with IH [OF again(3), THEN mp, OF s(1), rule_format, of ?s1] s
        have "length (snd (fst r)) = message_size \<and> (tcp_step os on_msg cfg listen_fd port)\<^sup>*\<^sup>* ?s1 (?finish ?s1)"
          by simp
        moreover have "?finish ?s1 = ?finish s" by simp
        ultimately show ?thesis 
          using converse_rtranclp_into_rtranclp [of "tcp_step os on_msg cfg listen_fd port", OF step] by metis
      next
        case fails
        have "?finish s = s\<lparr>ts_kernel := k', ts_server := Server_Closes fd\<rparr>" using fails(3) s(4) by simp
        with fails(3) s(6) show ?thesis
          using r_into_rtranclp [of "tcp_step os on_msg cfg listen_fd port",
            OF tcp_step.receive_fails [OF s(2) True call fails(1,2) s(7)]] by simp
      qed
    qed
  qed
  with assms show ?thesis by blast
qed

lemma tcp_consume_alone:
  fixes os :: "'a os" and c :: "'b feed_consumer"
  assumes "tcp_consume os fd readings on_msg (fs_num_messages (fst cfg)) c k = Some (Inr (c', k'))"
    and "bounded_recv os" and "ts_server s = Next_Receive fd" and "ts_kernel s = k" and "ts_consumer s = c"
    and "length (fc_buffer c) = message_size" and "tcp_program_runs s"
  shows "(tcp_step os on_msg cfg listen_fd port)\<^sup>*\<^sup>* s
     (s\<lparr>ts_kernel := k', ts_server := Server_Closes fd, ts_consumer := c'\<rparr>)"
proof -
  let ?runs = "\<lambda>os fd on_msg num c k r. bounded_recv os \<longrightarrow> num = fs_num_messages (fst cfg) \<longrightarrow>
     length (fc_buffer c) = message_size \<longrightarrow> (\<forall>c' k' s. r = Inr (c', k') \<longrightarrow> ts_server s = Next_Receive fd \<longrightarrow>
     ts_kernel s = k \<longrightarrow> ts_consumer s = c \<longrightarrow> tcp_program_runs s \<longrightarrow>
     (tcp_step os on_msg cfg listen_fd port)\<^sup>*\<^sup>* s
     (s\<lparr>ts_kernel := k', ts_server := Server_Closes fd, ts_consumer := c'\<rparr>))"
  have "?runs os fd on_msg (fs_num_messages (fst cfg)) c k (Inr (c', k') :: ('b feed_consumer \<times> 'a) cpp)"
  proof (rule tcp_consume.raw_induct [where P = "\<lambda>os fd (readings :: nat \<Rightarrow> feed_reading) on_msg num c k r.
      ?runs os fd on_msg num c k r", OF _ assms(1)], intro allI impI)
    fix f :: "'a os \<Rightarrow> int \<Rightarrow> (nat \<Rightarrow> feed_reading) \<Rightarrow> ('b \<Rightarrow> market_message \<Rightarrow> 'b cpp) \<Rightarrow> u64 \<Rightarrow>
        'b feed_consumer \<Rightarrow> 'a \<Rightarrow> ('b feed_consumer \<times> 'a) cpp option"
      and os fd readings on_msg num c k r c' k' and s :: "('a, 'b) tcp_system"
    assume IH: "\<And>os fd readings on_msg num c k r. f os fd readings on_msg num c k = Some r \<Longrightarrow>
        ?runs os fd on_msg num c k r"
      and eq: "(if fc_consumed c < num
        then (case recv_all os fd (fc_buffer c) k of
            None \<Rightarrow> None
          | Some ((ok, bs), k') \<Rightarrow>
              if \<not> ok then Some (Inr (c\<lparr>fc_buffer := bs\<rparr>, k'))
              else (case process_received on_msg (readings (unat (fc_consumed c))) (c\<lparr>fc_buffer := bs\<rparr>) of
                  Inl e \<Rightarrow> Some (Inl e)
                | Inr s' \<Rightarrow> f os fd readings on_msg num s' k'))
        else Some (Inr (c, k))) = Some r"
      and s: "bounded_recv os" "num = fs_num_messages (fst cfg)" "length (fc_buffer c) = message_size"
        "r = Inr (c', k')" "ts_server s = Next_Receive fd" "ts_kernel s = k" "ts_consumer s = c"
        "tcp_program_runs s"
    let ?step = "tcp_step os on_msg cfg listen_fd port"
    show "?step\<^sup>*\<^sup>* s (s\<lparr>ts_kernel := k', ts_server := Server_Closes fd, ts_consumer := c'\<rparr>)"
    proof (cases "fc_consumed c < num")
      case False
      with eq s have same: "s\<lparr>ts_server := Server_Closes fd\<rparr> =
          s\<lparr>ts_kernel := k', ts_server := Server_Closes fd, ts_consumer := c'\<rparr>" by simp
      have "?step s (s\<lparr>ts_server := Server_Closes fd\<rparr>)"
        using False s by (intro tcp_step.server_has_all) simp_all
      then show ?thesis unfolding same by (rule r_into_rtranclp)
    next
      case True
      obtain ok bs k1 where recv: "recv_loop os fd (fc_buffer c) 0 k = Some ((ok, bs), k1)"
        and rest: "if ok then (case process_received on_msg (readings (unat (fc_consumed c))) (c\<lparr>fc_buffer := bs\<rparr>) of
            Inl e \<Rightarrow> False | Inr s' \<Rightarrow> f os fd readings on_msg num s' k1 = Some r)
          else c' = c\<lparr>fc_buffer := bs\<rparr> \<and> k' = k1"
        using eq True s(4) unfolding recv_all_def by (auto split: option.splits if_splits sum.splits)
      let ?s1 = "s\<lparr>ts_server := In_Recv fd 0\<rparr>"
      have first: "?step s ?s1" using True s by (intro tcp_step.starts_receive) simp_all
      have "tcp_program_runs ?s1" using s(8) by (simp add: tcp_program_runs_def)
      with tcp_recv_alone [OF recv s(1), of ?s1 on_msg cfg listen_fd port] s(3,6,7)
      have len: "length bs = message_size" and fill: "?step\<^sup>*\<^sup>* ?s1 (?s1\<lparr>ts_kernel := k1,
          ts_server := (if ok then In_Recv fd message_size else Server_Closes fd),
          ts_consumer := c\<lparr>fc_buffer := bs\<rparr>\<rparr>)" by simp_all
      from converse_rtranclp_into_rtranclp [of ?step, OF first fill]
      have part: "?step\<^sup>*\<^sup>* s (s\<lparr>ts_kernel := k1,
          ts_server := (if ok then In_Recv fd message_size else Server_Closes fd),
          ts_consumer := c\<lparr>fc_buffer := bs\<rparr>\<rparr>)" by simp
      show ?thesis
      proof (cases ok)
        case False
        with part rest show ?thesis by simp
      next
        case ok: True
        then obtain c1 where c1: "process_received on_msg (readings (unat (fc_consumed c))) (c\<lparr>fc_buffer := bs\<rparr>) =
            Inr c1" "f os fd readings on_msg num c1 k1 = Some r"
          using rest by (auto split: sum.splits)
        let ?s2 = "s\<lparr>ts_kernel := k1, ts_server := In_Recv fd message_size, ts_consumer := c\<lparr>fc_buffer := bs\<rparr>\<rparr>"
        let ?s3 = "?s2\<lparr>ts_server := Next_Receive fd, ts_consumer := c1\<rparr>"
        have runs: "tcp_program_runs ?s2" "tcp_program_runs ?s3" using s(8) by (simp_all add: tcp_program_runs_def)
        have "?step ?s2 ?s3"
          by (rule tcp_step.received_all [OF _ _ _ runs(1), where received = message_size]) (use c1(1) in simp_all)
        with part ok have "?step\<^sup>*\<^sup>* s ?s3" by (auto intro: rtranclp.rtrancl_into_rtrancl)
        moreover have "length (fc_buffer c1) = message_size" using process_received_bytes(5) [OF c1(1)] len by simp
        with IH [OF c1(2), THEN mp, OF s(1), THEN mp, OF s(2), rule_format, OF _ s(4), of ?s3] runs(2)
        have "?step\<^sup>*\<^sup>* ?s3 (?s3\<lparr>ts_kernel := k', ts_server := Server_Closes fd, ts_consumer := c'\<rparr>)"
          by simp
        moreover have "?s3\<lparr>ts_kernel := k', ts_server := Server_Closes fd, ts_consumer := c'\<rparr> =
            s\<lparr>ts_kernel := k', ts_server := Server_Closes fd, ts_consumer := c'\<rparr>" by simp
        ultimately show ?thesis by (metis rtranclp_trans)
      qed
    qed
  qed
  with assms show ?thesis by blast
qed

text \<open>The whole threads, pinning, set-up and closing included.\<close>

lemma tcp_consumer_thread_alone:
  assumes "tcp_consumer_thread os readings on_msg (fs_num_messages (fst cfg)) (fs_consumer_cpu (fst cfg))
      (snd cfg) (fs_receive_buffer_bytes (fst cfg)) listen_fd b k = Some (Inr (c, k'))"
    and "bounded_recv os" and "ts_server s = Server_Pins" and "ts_kernel s = k"
    and "ts_consumer s = consumer_new b (- 1)" and "tcp_program_runs s"
  shows "\<exists>s'. (tcp_step os on_msg cfg listen_fd port)\<^sup>*\<^sup>* s s' \<and> ts_kernel s' = k' \<and> ts_consumer s' = c \<and>
     (ts_server s' = Server_Exited \<or> ts_server s' = Server_Refused)"
proof -
  let ?step = "tcp_step os on_msg cfg listen_fd port"
  obtain line k1 where pin: "start_thread os ''Consumer'' (fs_consumer_cpu (fst cfg)) (ts_kernel s) = (line, k1)"
    by fastforce
  have k1: "k1 = (if fs_consumer_cpu (fst cfg) \<ge> 0 then snd (pin_thread_to_cpu os (fs_consumer_cpu (fst cfg)) k) else k)"
    using start_thread_simps(1) [of os "''Consumer''" "fs_consumer_cpu (fst cfg)" k] pin assms(4) by simp
  obtain fd k2 where acc: "os_accept os listen_fd k1 = (fd, k2)" by fastforce
  let ?s1 = "s\<lparr>ts_kernel := k1, ts_server := Server_Announces, ts_server_text := line\<rparr>"
  let ?s2 = "?s1\<lparr>ts_accept_ready := True, ts_server := Accepting\<rparr>"
  have runs: "tcp_program_runs ?s1" "tcp_program_runs ?s2" using assms(6) by (simp_all add: tcp_program_runs_def)
  have "?step s ?s1" by (rule tcp_step.server_pins [OF assms(3) pin assms(6)])
  moreover have "?step ?s1 ?s2" by (rule tcp_step.server_announces [OF _ runs(1)]) simp
  ultimately have start: "?step\<^sup>*\<^sup>* s ?s2" by simp
  show ?thesis
  proof (cases "fd < 0")
    case True
    let ?s3 = "?s2\<lparr>ts_kernel := close_socket os listen_fd k2, ts_server := Server_Refused\<rparr>"
    have "?step ?s2 ?s3" by (rule tcp_step.accept_fails [OF _ _ True runs(2)]) (simp_all add: acc)
    moreover have "c = consumer_new b (- 1)" "k' = close_socket os listen_fd k2"
      using assms(1) acc True k1 by (simp_all add: tcp_consumer_thread_def Let_def split: if_splits)
    ultimately show ?thesis
      using start assms(5) by (intro exI [of _ ?s3]) (auto intro: rtranclp.rtrancl_into_rtrancl)
  next
    case False
    obtain cpu k3 where up: "set_up_connection os cfg listen_fd fd k2 = (cpu, k3)" by fastforce
    let ?s3 = "?s2\<lparr>ts_kernel := k3, ts_server := Next_Receive fd, ts_consumer := (ts_consumer ?s2)\<lparr>fc_cpu := cpu\<rparr>\<rparr>"
    have "?step ?s2 ?s3"
      by (rule tcp_step.accepts [OF _ _ _ up runs(2)]) (use acc False in simp_all)
    with start have s3: "?step\<^sup>*\<^sup>* s ?s3" by (rule rtranclp.rtrancl_into_rtrancl)
    have new: "ts_consumer ?s3 = consumer_new b cpu" using assms(5) by (simp add: consumer_new_def)
    obtain k4 where loop: "tcp_consume os fd readings on_msg (fs_num_messages (fst cfg)) (consumer_new b cpu) k3 =
        Some (Inr (c, k4))" "k' = close_socket os fd k4"
      using assms(1) acc False up unfolding tcp_consumer_thread_def set_up_connection_def k1 [symmetric]
      by (auto simp: Let_def case_prod_beta cpp_map_Inr_iff)
    have buf: "length (fc_buffer (consumer_new b cpu)) = message_size"
      by (simp add: consumer_new_def length_message_bytes)
    have "tcp_program_runs ?s3" using assms(6) by (simp add: tcp_program_runs_def)
    from tcp_consume_alone [OF loop(1) assms(2) _ _ new buf this]
    have s4: "?step\<^sup>*\<^sup>* ?s3 (?s3\<lparr>ts_kernel := k4, ts_server := Server_Closes fd, ts_consumer := c\<rparr>)" by simp
    let ?s4 = "?s3\<lparr>ts_kernel := k4, ts_server := Server_Closes fd, ts_consumer := c\<rparr>"
    have "?step ?s4 (?s4\<lparr>ts_kernel := close_socket os fd (ts_kernel ?s4), ts_server := Server_Exited\<rparr>)"
      by (rule tcp_step.server_closes) (use assms(6) in \<open>simp_all add: tcp_program_runs_def\<close>)
    with s3 s4 have "?step\<^sup>*\<^sup>* s (?s4\<lparr>ts_kernel := close_socket os fd (ts_kernel ?s4), ts_server := Server_Exited\<rparr>)"
      by (meson rtranclp.rtrancl_into_rtrancl rtranclp_trans)
    with loop(2) show ?thesis by fastforce
  qed
qed

lemma tcp_producer_thread_alone:
  assumes "tcp_producer_thread os sends (ts_todo s) (fs_producer_cpu (fst cfg)) (snd cfg)
      (fs_send_buffer_bytes (fst cfg)) port k = Some (r, k')"
    and "ts_client s = Client_Pins" and "ts_accept_ready s" and "ts_kernel s = k"
    and "ts_producer s = producer_new (- 1)"
  shows "\<exists>s'. (tcp_step os on_msg cfg listen_fd port)\<^sup>*\<^sup>* s s' \<and> ts_kernel s' = k' \<and>
     (case r of Inl e \<Rightarrow> ts_client s' = Client_Threw e
      | Inr p \<Rightarrow> ts_client s' = Client_Exited \<and> ts_producer s' = p)"
proof -
  let ?step = "tcp_step os on_msg cfg listen_fd port"
  obtain line k1 where pin: "start_thread os ''Producer'' (fs_producer_cpu (fst cfg)) (ts_kernel s) = (line, k1)"
    by fastforce
  have k1: "k1 = (if fs_producer_cpu (fst cfg) \<ge> 0 then snd (pin_thread_to_cpu os (fs_producer_cpu (fst cfg)) k) else k)"
    using start_thread_simps(1) [of os "''Producer''" "fs_producer_cpu (fst cfg)" k] pin assms(4) by simp
  obtain x k2 where con: "connect_tcp_client os port (snd cfg) (fs_send_buffer_bytes (fst cfg)) k1 = (x, k2)"
    by fastforce
  let ?s1 = "s\<lparr>ts_kernel := k1, ts_client := Await_Listener, ts_client_text := line\<rparr>"
  have s1: "?step s ?s1" by (rule tcp_step.client_pins [OF assms(2) pin])
  show ?thesis
  proof (cases x)
    case (Inl e)
    have "?step ?s1 (?s1\<lparr>ts_kernel := k2, ts_client := Client_Threw e\<rparr>)"
      by (rule tcp_step.client_throws) (use assms(3) con Inl in simp_all)
    with s1 have "?step\<^sup>*\<^sup>* s (?s1\<lparr>ts_kernel := k2, ts_client := Client_Threw e\<rparr>)" by simp
    moreover have "r = Inl e" "k' = k2"
      using assms(1) con Inl k1 by (simp_all add: tcp_producer_thread_def Let_def)
    ultimately show ?thesis by fastforce
  next
    case (Inr fd)
    obtain cpu k3 where cpu: "get_current_cpu os k2 = (cpu, k3)" by fastforce
    let ?s2 = "?s1\<lparr>ts_kernel := k3, ts_client := Next_Send fd, ts_producer := (ts_producer ?s1)\<lparr>fp_cpu := cpu\<rparr>\<rparr>"
    have s2: "?step ?s1 ?s2"
      by (rule tcp_step.client_connects [OF _ _ _ cpu]) (use assms(3) con Inr in simp_all)
    obtain p k4 where loop: "tcp_produce os fd sends 0 (ts_todo s) (producer_new cpu) k3 = Some (p, k4)"
        "r = Inr p" "k' = close_socket os fd (os_shutdown os fd k4)"
      using assms(1) con Inr cpu unfolding tcp_producer_thread_def k1 [symmetric] by (auto simp: Let_def)
    have "ts_producer ?s2 = producer_new cpu" using assms(5) by (simp add: producer_new_def)
    from tcp_produce_alone [OF loop(1) _ _ this, of on_msg cfg listen_fd port]
    obtain rest where s3: "?step\<^sup>*\<^sup>* ?s2
        (?s2\<lparr>ts_kernel := k4, ts_client := Client_Shuts fd, ts_todo := rest, ts_producer := p\<rparr>)" by auto
    let ?s3 = "?s2\<lparr>ts_kernel := k4, ts_client := Client_Shuts fd, ts_todo := rest, ts_producer := p\<rparr>"
    let ?s4 = "?s3\<lparr>ts_kernel := os_shutdown os fd (ts_kernel ?s3), ts_client := Client_Closes fd\<rparr>"
    let ?s5 = "?s4\<lparr>ts_kernel := close_socket os fd (ts_kernel ?s4), ts_client := Client_Exited\<rparr>"
    have "?step ?s3 ?s4" by (rule tcp_step.client_shuts) simp
    moreover have "?step ?s4 ?s5" by (rule tcp_step.client_closes) simp
    ultimately have "?step\<^sup>*\<^sup>* s ?s5"
      using s1 s2 s3 by (meson rtranclp.rtrancl_into_rtrancl converse_rtranclp_into_rtranclp)
    with loop(2,3) show ?thesis by fastforce
  qed
qed

section \<open>What the server has applied\<close>

text \<open>Whole blocks at the front of a stream of messages are the first messages.\<close>

lemma stream_blocks:
  assumes "prefix (concat ds @ part) (stream_bytes es @ part')"
    and "\<forall>d \<in> set ds. length d = message_size" and "\<forall>e \<in> set es. well_sized e"
    and "length part' < message_size"
  shows "length ds \<le> length es \<and> ds = map message_bytes (take (length ds) es)"
  using assms
proof (induction ds arbitrary: es)
  case (Cons d ds)
  show ?case
  proof (cases es)
    case Nil
    then show ?thesis using prefix_length_le [OF Cons.prems(1)] Cons.prems(2,4) by simp
  next
    case (Cons e es')
    with Cons.prems(1) obtain zs where
      "message_bytes e @ (stream_bytes es' @ part') = d @ (concat ds @ part @ zs)"
      by (auto simp: prefix_def)
    moreover have "length (message_bytes e) = length d"
      using Cons.prems(2,3) Cons by (simp add: length_message_bytes)
    ultimately have "d = message_bytes e" "prefix (concat ds @ part) (stream_bytes es' @ part')"
      by (auto simp: append_eq_append_conv prefix_def)
    with Cons.IH [of es'] Cons.prems(2-4) Cons show ?thesis by simp
  qed
qed simp

lemma length_blocks:
  "\<forall>d \<in> set ds. length d = message_size \<Longrightarrow> length (concat ds) = message_size * length ds"
  by (induction ds) simp_all

lemma length_stream_bytes:
  "\<forall>e \<in> set es. well_sized e \<Longrightarrow> length (stream_bytes es) = message_size * length es"
  by (induction es) (simp_all add: length_message_bytes)

lemma tcp_messages:
  assumes inv: "tcp_inv accepted delivered on_message num messages b s"
    and net: "stream_network os accepted delivered" and ws: "\<forall>msg \<in> set messages. well_sized msg"
  obtains m j e where "feed on_message (take m messages) b = Inr (fc_book (ts_consumer s))"
    and "unat (fc_consumed (ts_consumer s)) = m" and "m \<le> unat num" and "m \<le> e" and "e \<le> length messages"
    and "fp_produced (ts_producer s) = of_nat j" and "j + length (ts_todo s) = length messages"
    and "length (samples (fc_network (ts_consumer s))) = m"
    and "length (samples (fc_processing (ts_consumer s))) = m"
    and "e = j \<or> e = Suc j \<and> (\<exists>fd data sent. ts_client s = In_Send fd data sent)"
    and "delivered (ts_kernel s) = accepted (ts_kernel s) \<longrightarrow>
      (\<exists>fd. ts_server s = Server_Closes fd) \<or> ts_server s = Server_Exited \<longrightarrow> m = e"
    and "\<forall>fd received. ts_server s = In_Recv fd received \<longrightarrow> \<not> received < message_size \<longrightarrow>
      m < e \<and> (\<exists>now. fc_buffer (ts_consumer s) = message_bytes (stamp now (messages ! m)))"
proof -
  obtain j es part' where j: "j \<le> length messages" "ts_todo s = drop j messages"
      "fp_produced (ts_producer s) = of_nat j" "accepted (ts_kernel s) = stream_bytes es @ part'"
      "length part' < message_size" "stamps_of es (take (length es) messages)"
    and cli: "case ts_client s of
           Next_Send fd \<Rightarrow> length es = j \<and> part' = []
         | In_Send fd data sent \<Rightarrow> j < length messages \<and> sent \<le> message_size \<and>
             (\<exists>now. data = message_bytes (stamp now (messages ! j))) \<and>
             (if sent = message_size then length es = Suc j \<and> part' = []
              else length es = j \<and> part' = take sent data)
         | Client_Shuts fd \<Rightarrow> length es = j
         | Client_Closes fd \<Rightarrow> length es = j
         | Client_Exited \<Rightarrow> length es = j
         | _ \<Rightarrow> j = 0 \<and> es = [] \<and> part' = []"
    using inv unfolding tcp_inv_def tcp_client_inv_def by blast
  have e: "length es = j \<or> length es = Suc j \<and> (\<exists>fd data sent. ts_client s = In_Send fd data sent)"
    using cli by (cases "ts_client s") (auto split: if_splits)
  obtain ds part where ds: "delivered (ts_kernel s) = concat ds @ part" "\<forall>d \<in> set ds. length d = message_size"
      "feed (on_bytes on_message) ds b = Inr (fc_book (ts_consumer s))"
      "unat (fc_consumed (ts_consumer s)) = length ds" "length ds \<le> unat num"
      "length (samples (fc_network (ts_consumer s))) = length ds"
      "length (samples (fc_processing (ts_consumer s))) = length ds"
      "length (fc_buffer (ts_consumer s)) = message_size"
    and srv: "case ts_server s of
           In_Recv fd received \<Rightarrow> received \<le> message_size \<and> length ds < unat num \<and>
             part = take received (fc_buffer (ts_consumer s))
         | Server_Closes fd \<Rightarrow> length part < message_size
         | Server_Exited \<Rightarrow> length part < message_size
         | _ \<Rightarrow> part = []"
    using inv unfolding tcp_inv_def tcp_server_inv_def by blast
  have len: "length es \<le> length messages" using stamps_of_length [OF j(6)] by simp
  have wes: "\<forall>e \<in> set es. well_sized e"
    using stamps_of_well_sized [OF j(6)] ws by (auto dest: in_set_takeD)
  have pre: "prefix (concat ds @ part) (stream_bytes es @ part')"
    using stream_networkD(3) [OF net, of "ts_kernel s"] ds(1) j(4) by simp
  note blocks = stream_blocks [OF pre ds(2) wes j(5)]
  let ?m = "length ds"
  have st: "stamps_of (take ?m es) (take ?m messages)"
    using stamps_of_take [OF j(6), of ?m] conjunct1 [OF blocks] by (simp add: min_absorb1)
  have w: "\<forall>e \<in> set (take ?m es). well_sized e" using wes by (auto dest: in_set_takeD)
  have "feed (on_bytes on_message) ds b = feed (on_bytes on_message) (map message_bytes (take ?m es)) b"
    by (rule arg_cong [OF conjunct2 [OF blocks], of "\<lambda>ds. feed (on_bytes on_message) ds b"])
  then have book: "feed on_message (take ?m messages) b = Inr (fc_book (ts_consumer s))"
    unfolding feed_on_bytes [OF w] feed_stamps_of [OF st] ds(3) by (rule sym)
  have all: "?m = length es" if "delivered (ts_kernel s) = accepted (ts_kernel s)"
      "(\<exists>fd. ts_server s = Server_Closes fd) \<or> ts_server s = Server_Exited"
  proof -
    have "length part < message_size" using srv that(2) by auto
    moreover have "message_size * ?m + length part = message_size * length es + length part'"
      using arg_cong [OF that(1), of length] ds(1) j(4) length_blocks [OF ds(2)] length_stream_bytes [OF wes]
      by simp
    ultimately show ?thesis using j(5) by (simp add: message_size_def)
  qed
  have next_block: "?m < length es \<and> (\<exists>now. fc_buffer (ts_consumer s) = message_bytes (stamp now (messages ! ?m)))"
    if "ts_server s = In_Recv fd received" "\<not> received < message_size" for fd received
  proof -
    let ?d = "fc_buffer (ts_consumer s)"
    have "prefix (concat (ds @ [?d]) @ []) (stream_bytes es @ part')" using pre srv that ds(8) by simp
    from stream_blocks [OF this _ wes j(5)] ds(2,8)
    have b: "Suc ?m \<le> length es" "ds @ [?d] = map message_bytes (take (Suc ?m) es)" by auto
    then have "?d = message_bytes (es ! ?m)" by (simp add: take_Suc_conv_app_nth)
    moreover obtain now where "es ! ?m = stamp now (messages ! ?m)"
      using list_all2_nthD [OF j(6) [unfolded stamps_of_def], of ?m] b(1) by auto
    ultimately show ?thesis using b(1) by auto
  qed
  show thesis
    by (rule that [OF book ds(4,5) conjunct1 [OF blocks] len j(3) _ ds(6,7) e])
       (use j(1,2) all next_block in auto)
qed

text \<open>A full buffer is processed without undefined behaviour.\<close>

lemma tcp_next_ok:
  assumes "tcp_reachable os on_message cfg listen_fd port
      (generated wall (fs_num_messages (fst cfg)) symbol) empty_book k s"
    and "stream_network os accepted delivered" and "accepted k = []" and "delivered k = []"
    and "ts_server s = In_Recv fd received" and "\<not> received < message_size"
  shows "\<exists>c. process_received on_message rd (ts_consumer s) = Inr c"
proof -
  let ?gs = "generated wall (fs_num_messages (fst cfg)) symbol"
  have ws: "\<forall>msg \<in> set ?gs. well_sized msg" using generated_well_sized by blast
  note inv = tcp_reachable_inv [OF assms(1,2) ws assms(3,4)]
  obtain m e where m: "feed on_message (take m ?gs) empty_book = Inr (fc_book (ts_consumer s))"
      "e \<le> length ?gs" "\<forall>fd received. ts_server s = In_Recv fd received \<longrightarrow> \<not> received < message_size \<longrightarrow>
        m < e \<and> (\<exists>now. fc_buffer (ts_consumer s) = message_bytes (stamp now (?gs ! m)))"
    by (rule tcp_messages [OF inv assms(2) ws]) blast
  then obtain now where msg: "m < length ?gs" "fc_buffer (ts_consumer s) = message_bytes (stamp now (?gs ! m))"
    using assms(5,6) by fastforce
  have "set (take (Suc m) ?gs) \<subseteq> set ?gs" by (rule set_take_subset)
  then obtain b where "feed on_message (take (Suc m) ?gs) empty_book = Inr b"
    using base.feed_ok [OF book_rel_empty replay_shallow] by blast
  then have "on_message (fc_book (ts_consumer s)) (?gs ! m) = Inr b"
    using m(1) msg(1) by (simp add: take_Suc_conv_app_nth feed_append cpp_bind_Inr_iff)
  then show ?thesis
    using msg ws by (simp add: process_received_def on_bytes_def bytes_message_inv)
qed

section \<open>The loopback kernel is such a connection\<close>

lemma loop_stream: "stream_network (loop_tcp chunk) stream_sent stream_taken"
  by (auto simp: stream_network_def loop_tcp_def loop_os_def loop_send_def loop_recv_def loop_open_def
      quiet_def stream_sent_def Let_def take_drop min_def)

lemma loop_uncut: "0 < chunk \<Longrightarrow> uncut (loop_tcp chunk) stream_sent stream_taken stream_shut"
  by (auto simp: uncut_def loop_tcp_def loop_os_def loop_send_def loop_recv_def loop_open_def
      stream_sent_def Let_def min_def split: if_splits)

section \<open>A complete run\<close>

text \<open>On the loopback kernel \<open>send_all\<close> hands over the rest of its message, \<open>chunk\<close> bytes at a time.\<close>

lemma tcp_sends_rest:
  assumes "tcp_reachable (loop_tcp chunk) on_msg cfg listen_fd port messages b k s" and "0 < chunk"
    and "ts_client s = In_Send fd data sent" and "sent \<le> length data"
  shows "tcp_reachable (loop_tcp chunk) on_msg cfg listen_fd port messages b k
     (s\<lparr>ts_kernel := (ts_kernel s)\<lparr>stream_waiting := stream_waiting (ts_kernel s) @ drop sent data\<rparr>,
        ts_client := In_Send fd data (length data)\<rparr>)"
  using assms(1,3,4)
proof (induction "length data - sent" arbitrary: s sent rule: less_induct)
  case less
  show ?case
  proof (cases "sent < length data")
    case False
    with less.prems have "s\<lparr>ts_kernel := (ts_kernel s)\<lparr>stream_waiting := stream_waiting (ts_kernel s) @ drop sent data\<rparr>,
        ts_client := In_Send fd data (length data)\<rparr> = s" by simp
    with less.prems(1) show ?thesis by simp
  next
    case True
    let ?n = "min chunk (length data - sent)"
    let ?k = "(ts_kernel s)\<lparr>stream_waiting := stream_waiting (ts_kernel s) @ take chunk (drop sent data)\<rparr>"
    have call: "os_send (loop_tcp chunk) fd (drop sent data) (ts_kernel s) = (int ?n, ?k)"
      by (simp add: loop_tcp_def loop_os_def loop_send_def)
    have "0 < int ?n" using True assms(2) by simp
    from tcp_reachable.step [OF less.prems(1) tcp_step.sends_some [OF less.prems(2) True call this]]
    have r: "tcp_reachable (loop_tcp chunk) on_msg cfg listen_fd port messages b k
        (s\<lparr>ts_kernel := ?k, ts_client := In_Send fd data (sent + ?n)\<rparr>)" by simp
    have split: "take chunk (drop sent data) @ drop (sent + ?n) data = drop sent data"
      using append_take_drop_id [of chunk "drop sent data"] by (simp add: min_def add.commute)
    from less.hyps [OF _ r, of "sent + ?n"] True assms(2) split show ?thesis by simp
  qed
qed

lemma tcp_client_runs:
  assumes "tcp_reachable (loop_tcp chunk) on_msg cfg listen_fd port messages b k s" and "0 < chunk"
    and "ts_client s = Next_Send fd" and "\<forall>msg \<in> set (ts_todo s). well_sized msg"
  shows "\<exists>s'. tcp_reachable (loop_tcp chunk) on_msg cfg listen_fd port messages b k s' \<and>
     ts_client s' = Next_Send fd \<and> ts_todo s' = [] \<and> ts_server s' = ts_server s \<and>
     ts_consumer s' = ts_consumer s \<and> length (stream_waiting (ts_kernel s')) =
       length (stream_waiting (ts_kernel s)) + message_size * length (ts_todo s)"
  using assms(1,3,4)
proof (induction "ts_todo s" arbitrary: s)
  case Nil
  then show ?case by (intro exI [of _ s]) simp
next
  case (Cons msg rest)
  let ?d = "message_bytes (stamp 0 msg)"
  have todo: "ts_todo s = msg # rest" using Cons.hyps(2) by simp
  have len: "length ?d = message_size" using Cons.prems(3) todo by (simp add: length_message_bytes)
  note s1 = tcp_reachable.step [OF Cons.prems(1) tcp_step.starts_send [OF Cons.prems(2) todo, where now = 0]]
  from tcp_sends_rest [OF s1 assms(2), of fd ?d 0]
  obtain s2 where s2: "tcp_reachable (loop_tcp chunk) on_msg cfg listen_fd port messages b k s2"
      "ts_client s2 = In_Send fd ?d (length ?d)" "ts_todo s2 = msg # rest" "ts_server s2 = ts_server s"
      "ts_consumer s2 = ts_consumer s" "stream_waiting (ts_kernel s2) = stream_waiting (ts_kernel s) @ ?d"
    using todo by fastforce
  from tcp_reachable.step [OF s2(1) tcp_step.sent_all [OF s2(2)]]
  obtain s3 where s3: "tcp_reachable (loop_tcp chunk) on_msg cfg listen_fd port messages b k s3"
      "ts_client s3 = Next_Send fd" "rest = ts_todo s3" "ts_server s3 = ts_server s"
      "ts_consumer s3 = ts_consumer s" "ts_kernel s3 = ts_kernel s2"
    using s2 by fastforce
  have "\<forall>msg \<in> set (ts_todo s3). well_sized msg" using Cons.prems(3) todo s3(3) by simp
  from Cons.hyps(1) [OF s3(3,1,2) this] s3 s2(6) len todo show ?case by fastforce
qed

text \<open>\<open>recv_all\<close> fills the rest of its buffer when enough bytes have arrived.\<close>

lemma tcp_receives_rest:
  assumes "tcp_reachable (loop_tcp chunk) on_msg cfg listen_fd port messages b k s" and "0 < chunk"
    and "ts_server s = In_Recv fd received" and "received \<le> message_size"
    and "message_size - received \<le> length (stream_waiting (ts_kernel s))" and "tcp_program_runs s"
  shows "\<exists>s'. tcp_reachable (loop_tcp chunk) on_msg cfg listen_fd port messages b k s' \<and>
     ts_server s' = In_Recv fd message_size \<and> ts_client s' = ts_client s \<and> ts_todo s' = ts_todo s \<and>
     fc_consumed (ts_consumer s') = fc_consumed (ts_consumer s) \<and>
     (instant_feed (ts_consumer s') \<longleftrightarrow> instant_feed (ts_consumer s)) \<and>
     length (stream_waiting (ts_kernel s')) =
       length (stream_waiting (ts_kernel s)) - (message_size - received)"
  using assms(1,3-)
proof (induction "message_size - received" arbitrary: s received rule: less_induct)
  case less
  show ?case
  proof (cases "received < message_size")
    case False
    with less.prems show ?thesis by (intro exI [of _ s]) simp
  next
    case True
    let ?w = "stream_waiting (ts_kernel s)" and ?m = "min chunk (message_size - received)"
    let ?k = "(ts_kernel s)\<lparr>stream_taken := stream_taken (ts_kernel s) @ take ?m ?w, stream_waiting := drop ?m ?w\<rparr>"
    have len: "length (take ?m ?w) = ?m" using less.prems(4) by simp
    then have "take ?m ?w \<noteq> []" using True assms(2) by (metis length_0_conv min_0R min_def neq0_conv zero_less_diff)
    then have call: "os_recv (loop_tcp chunk) fd (message_size - received) (ts_kernel s) = ((int ?m, take ?m ?w), ?k)"
      using len by (simp add: loop_tcp_def loop_os_def loop_recv_def Let_def)
    have pos: "0 < int ?m" using True assms(2) by simp
    from tcp_reachable.step [OF less.prems(1) tcp_step.receives_some [OF less.prems(2) True call pos less.prems(5)]]
    obtain s1 where s1: "tcp_reachable (loop_tcp chunk) on_msg cfg listen_fd port messages b k s1"
        "ts_server s1 = In_Recv fd (received + ?m)" "ts_client s1 = ts_client s" "ts_todo s1 = ts_todo s"
        "fc_consumed (ts_consumer s1) = fc_consumed (ts_consumer s)" "stream_waiting (ts_kernel s1) = drop ?m ?w"
        "instant_feed (ts_consumer s1) \<longleftrightarrow> instant_feed (ts_consumer s)"
      by fastforce
    have "tcp_program_runs s1" using s1(3) less.prems(5) by (simp add: tcp_program_runs_def)
    with less.hyps [OF _ s1(1,2)] s1 less.prems(4) pos True show ?thesis by fastforce
  qed
qed

lemma tcp_server_runs:
  assumes "tcp_reachable (loop_tcp chunk) on_message cfg listen_fd port
      (generated wall (fs_num_messages (fst cfg)) symbol) empty_book k s" and "0 < chunk"
    and "ts_server s = Next_Receive fd" and "ts_client s = Next_Send client_fd"
    and "message_size * (unat (fs_num_messages (fst cfg)) - unat (fc_consumed (ts_consumer s))) \<le>
      length (stream_waiting (ts_kernel s))" and "stream_sent k = []" and "stream_taken k = []"
  shows "\<exists>s'. tcp_reachable (loop_tcp chunk) on_message cfg listen_fd port
      (generated wall (fs_num_messages (fst cfg)) symbol) empty_book k s' \<and>
     ts_server s' = Next_Receive fd \<and> ts_client s' = ts_client s \<and> ts_todo s' = ts_todo s \<and>
     (instant_feed (ts_consumer s') \<longleftrightarrow> instant_feed (ts_consumer s)) \<and>
     fs_num_messages (fst cfg) \<le> fc_consumed (ts_consumer s')"
  using assms(1,3-5)
proof (induction "unat (fs_num_messages (fst cfg)) - unat (fc_consumed (ts_consumer s))" arbitrary: s
    rule: less_induct)
  case less
  let ?n = "fs_num_messages (fst cfg)"
  show ?case
  proof (cases "fc_consumed (ts_consumer s) < ?n")
    case False
    with less.prems show ?thesis by (intro exI [of _ s]) (simp add: linorder_not_less)
  next
    case True
    then have less_nat: "unat (fc_consumed (ts_consumer s)) < unat ?n" by (simp add: word_less_nat_alt)
    have runs: "tcp_program_runs s" using less.prems(3) by (simp add: tcp_program_runs_def)
    note step = tcp_reachable.step [OF less.prems(1) tcp_step.starts_receive [OF less.prems(2) True runs]]
    have room: "message_size \<le> length (stream_waiting (ts_kernel s))"
      by (rule order_trans [OF _ less.prems(4)]) (use less_nat in simp)
    from tcp_receives_rest [OF step assms(2)] runs room
    obtain s1 where s1: "tcp_reachable (loop_tcp chunk) on_message cfg listen_fd port
          (generated wall ?n symbol) empty_book k s1" "ts_server s1 = In_Recv fd message_size"
        "ts_client s1 = ts_client s" "ts_todo s1 = ts_todo s"
        "fc_consumed (ts_consumer s1) = fc_consumed (ts_consumer s)"
        "length (stream_waiting (ts_kernel s1)) = length (stream_waiting (ts_kernel s)) - message_size"
        "instant_feed (ts_consumer s1) \<longleftrightarrow> instant_feed (ts_consumer s)"
      by (fastforce simp: tcp_program_runs_def)
    obtain c where c: "process_received on_message (no_time (fc_buffer (ts_consumer s1))) (ts_consumer s1) = Inr c"
      using tcp_next_ok [OF s1(1) loop_stream assms(6,7) s1(2)] by auto
    have "tcp_program_runs s1" using s1(3) runs by (simp add: tcp_program_runs_def)
    from tcp_reachable.step [OF s1(1) tcp_step.received_all [OF s1(2) _ c this]]
    obtain s2 where s2: "tcp_reachable (loop_tcp chunk) on_message cfg listen_fd port
          (generated wall ?n symbol) empty_book k s2" "ts_server s2 = Next_Receive fd"
        "ts_client s2 = ts_client s" "ts_todo s2 = ts_todo s" "ts_consumer s2 = c"
        "ts_kernel s2 = ts_kernel s1"
      using s1 by fastforce
    have zero: "instant_feed (ts_consumer s2) \<longleftrightarrow> instant_feed (ts_consumer s)"
      unfolding s2(5) no_time_instant [OF c] by (rule s1(7))
    have "(ts_consumer s1)\<lparr>fc_buffer := fc_buffer (ts_consumer s1)\<rparr> = ts_consumer s1" by simp
    with c have "fc_consumed c = fc_consumed (ts_consumer s1) + 1" using process_received_bytes(2) by metis
    then have u: "unat (fc_consumed c) = unat (fc_consumed (ts_consumer s)) + 1"
      using s1(5) less_nat unsigned_less [of ?n, where ?'a = nat] by (simp add: unat_word_ariths(1))
    have "message_size * (unat ?n - unat (fc_consumed c)) \<le> length (stream_waiting (ts_kernel s2))"
      using less.prems(4) s2(6) s1(6) u less_nat by (simp add: right_diff_distrib' diff_mult_distrib2)
    with less.hyps [OF _ s2(1,2)] s2 u less_nat less.prems(3) zero show ?thesis by fastforce
  qed
qed

text \<open>Both threads start and connect, the client sends everything, the server takes everything, both leave.\<close>

lemma tcp_run_complete:
  assumes "0 < chunk" and "stream_sent k = []" and "stream_taken k = []"
  shows "\<exists>s. tcp_reachable (loop_tcp chunk) on_message cfg listen_fd port
      (generated wall (fs_num_messages (fst cfg)) symbol) empty_book k s \<and>
     ts_client s = Client_Exited \<and> ts_server s = Server_Exited \<and> ts_todo s = [] \<and>
     instant_feed (ts_consumer s)"
proof -
  let ?os = "loop_tcp chunk" and ?gs = "generated wall (fs_num_messages (fst cfg)) symbol"
  let ?R = "tcp_reachable ?os on_message cfg listen_fd port ?gs empty_book k"
  note next_state = tcp_reachable.step
  let ?s0 = "tcp_system_new ?gs empty_book k :: (loop_kernel, order_book) tcp_system"
  obtain line k1 where p1: "start_thread ?os ''Producer'' (fs_producer_cpu (fst cfg)) (ts_kernel ?s0) = (line, k1)"
    by fastforce
  let ?s1 = "?s0\<lparr>ts_kernel := k1, ts_client := Await_Listener, ts_client_text := line\<rparr>"
  have s1: "?R ?s1"
    by (rule next_state [OF tcp_reachable.start tcp_step.client_pins [OF _ p1]]) (simp add: tcp_system_new_def)
  obtain line2 k2 where p2: "start_thread ?os ''Consumer'' (fs_consumer_cpu (fst cfg)) (ts_kernel ?s1) = (line2, k2)"
    by fastforce
  let ?s2 = "?s1\<lparr>ts_kernel := k2, ts_server := Server_Announces, ts_server_text := line2\<rparr>"
  have s2: "?R ?s2"
    by (rule next_state [OF s1 tcp_step.server_pins [OF _ p2]]) (simp_all add: tcp_system_new_def tcp_program_runs_def)
  let ?s3 = "?s2\<lparr>ts_accept_ready := True, ts_server := Accepting\<rparr>"
  have s3: "?R ?s3"
    by (rule next_state [OF s2 tcp_step.server_announces]) (simp_all add: tcp_program_runs_def)
  obtain fd k4 where p4: "connect_tcp_client ?os port (snd cfg) (fs_send_buffer_bytes (fst cfg)) (ts_kernel ?s3) =
      (Inr fd, k4)"
    by (simp add: connect_tcp_client_def set_tcp_no_delay_def set_socket_send_buffer_def loop_tcp_def
        loop_os_def loop_open_def Let_def)
  obtain cpu k5 where p5: "get_current_cpu ?os k4 = (cpu, k5)" by fastforce
  let ?s4 = "?s3\<lparr>ts_kernel := k5, ts_client := Next_Send fd, ts_producer := (ts_producer ?s3)\<lparr>fp_cpu := cpu\<rparr>\<rparr>"
  have s4: "?R ?s4" by (rule next_state [OF s3 tcp_step.client_connects [OF _ _ p4 p5]]) simp_all
  obtain fd' k6 where p6: "os_accept ?os listen_fd (ts_kernel ?s4) = (fd', k6)" "0 \<le> fd'"
    by (simp add: loop_tcp_def loop_os_def loop_open_def)
  obtain cpu' k7 where p7: "set_up_connection ?os cfg listen_fd fd' k6 = (cpu', k7)" by fastforce
  let ?s5 = "?s4\<lparr>ts_kernel := k7, ts_server := Next_Receive fd', ts_consumer := (ts_consumer ?s4)\<lparr>fc_cpu := cpu'\<rparr>\<rparr>"
  have s5: "?R ?s5"
    by (rule next_state [OF s4 tcp_step.accepts [OF _ p6 p7]]) (simp_all add: tcp_program_runs_def)
  have ws: "\<forall>msg \<in> set (ts_todo ?s5). well_sized msg"
    using generated_well_sized by (auto simp: tcp_system_new_def)
  from tcp_client_runs [OF s5 assms(1) _ ws]
  obtain s6 where s6: "?R s6" "ts_client s6 = Next_Send fd" "ts_todo s6 = []" "ts_server s6 = Next_Receive fd'"
      "message_size * length ?gs \<le> length (stream_waiting (ts_kernel s6))" "instant_feed (ts_consumer s6)"
    by (fastforce simp: tcp_system_new_def)
  have "message_size * (unat (fs_num_messages (fst cfg)) - unat (fc_consumed (ts_consumer s6))) \<le>
      length (stream_waiting (ts_kernel s6))"
    by (rule order_trans [OF _ s6(5)]) (simp add: generated_ok(1))
  from tcp_server_runs [OF s6(1) assms(1) s6(4,2) this assms(2,3)] s6(2,3)
  obtain s7 where s7: "?R s7" "ts_server s7 = Next_Receive fd'" "ts_client s7 = Next_Send fd" "ts_todo s7 = []"
      "fs_num_messages (fst cfg) \<le> fc_consumed (ts_consumer s7)" "instant_feed (ts_consumer s7)"
    using s6(6) by auto
  let ?s8 = "s7\<lparr>ts_server := Server_Closes fd'\<rparr>"
  have s8: "?R ?s8"
    by (rule next_state [OF s7(1) tcp_step.server_has_all [OF s7(2)]]) (use s7 in \<open>simp_all add: tcp_program_runs_def\<close>)
  let ?s9 = "?s8\<lparr>ts_kernel := close_socket ?os fd' (ts_kernel ?s8), ts_server := Server_Exited\<rparr>"
  have s9: "?R ?s9"
    by (rule next_state [OF s8 tcp_step.server_closes]) (use s7 in \<open>simp_all add: tcp_program_runs_def\<close>)
  let ?s10 = "?s9\<lparr>ts_client := Client_Shuts fd\<rparr>"
  have s10: "?R ?s10" by (rule next_state [OF s9 tcp_step.sends_over]) (use s7 in simp_all)
  let ?s11 = "?s10\<lparr>ts_kernel := os_shutdown ?os fd (ts_kernel ?s10), ts_client := Client_Closes fd\<rparr>"
  have s11: "?R ?s11" by (rule next_state [OF s10 tcp_step.client_shuts]) simp
  let ?s12 = "?s11\<lparr>ts_kernel := close_socket ?os fd (ts_kernel ?s11), ts_client := Client_Exited\<rparr>"
  have "?R ?s12" by (rule next_state [OF s11 tcp_step.client_closes]) simp
  then show ?thesis using s7 by (intro exI [of _ ?s12]) simp
qed

section \<open>Every reachable state\<close>

lemma tcp_progress:
  assumes "tcp_reachable os on_message cfg listen_fd port
      (generated wall (fs_num_messages (fst cfg)) symbol) empty_book k s"
    and "stream_network os accepted delivered" and "accepted k = []" and "delivered k = []"
  shows "\<exists>m. feed on_message (take m (generated wall (fs_num_messages (fst cfg)) symbol)) empty_book =
       Inr (fc_book (ts_consumer s)) \<and>
     unat (fc_consumed (ts_consumer s)) = m \<and> m \<le> unat (fs_num_messages (fst cfg)) \<and>
     length (samples (fc_network (ts_consumer s))) = m \<and>
     length (samples (fc_processing (ts_consumer s))) = m \<and>
     (m \<le> unat (fp_produced (ts_producer s)) \<or>
        m = unat (fp_produced (ts_producer s)) + 1 \<and> (\<exists>fd data sent. ts_client s = In_Send fd data sent)) \<and>
     unat (fp_produced (ts_producer s)) + length (ts_todo s) = unat (fs_num_messages (fst cfg)) \<and>
     (uncut os accepted delivered shut \<longrightarrow> \<not> shut k \<longrightarrow>
        ts_client s = Client_Exited \<longrightarrow> ts_server s = Server_Exited \<longrightarrow>
        m = unat (fp_produced (ts_producer s)))"
proof -
  let ?n = "fs_num_messages (fst cfg)" and ?gs = "generated wall (fs_num_messages (fst cfg)) symbol"
  let ?p = "fp_produced (ts_producer s)"
  have ws: "\<forall>msg \<in> set ?gs. well_sized msg" using generated_well_sized by blast
  note inv = tcp_reachable_inv [OF assms(1,2) ws assms(3,4)]
  obtain m j e where m: "feed on_message (take m ?gs) empty_book = Inr (fc_book (ts_consumer s))"
      "unat (fc_consumed (ts_consumer s)) = m" "m \<le> unat ?n" "m \<le> e" "e \<le> length ?gs"
      "?p = of_nat j" "j + length (ts_todo s) = length ?gs"
      "length (samples (fc_network (ts_consumer s))) = m" "length (samples (fc_processing (ts_consumer s))) = m"
      "e = j \<or> e = Suc j \<and> (\<exists>fd data sent. ts_client s = In_Send fd data sent)"
      "delivered (ts_kernel s) = accepted (ts_kernel s) \<longrightarrow>
        (\<exists>fd. ts_server s = Server_Closes fd) \<or> ts_server s = Server_Exited \<longrightarrow> m = e"
    by (rule tcp_messages [OF inv assms(2) ws]) blast
  have len: "length ?gs = unat ?n" by (rule generated_ok(1))
  then have "j < 2 ^ 64" using m(7) unsigned_less [of ?n, where ?'a = nat] by simp
  then have p: "unat ?p = j" using m(6) by (simp add: unat_of_nat)
  have "m = j" if u: "uncut os accepted delivered shut" "\<not> shut k" and over: "ts_client s = Client_Exited" "ts_server s = Server_Exited"
  proof -
    have e: "e = j" using m(10) over(1) by simp
    from tcp_reachable_end [OF assms(1,2) u] over(2)
    consider "?n \<le> fc_consumed (ts_consumer s)" | "delivered (ts_kernel s) = accepted (ts_kernel s)"
      by (auto simp: tcp_end_inv_def)
    then show ?thesis
    proof cases
      case 1
      with m(2-5) len e show ?thesis by (simp add: word_le_nat_alt)
    next
      case 2
      with m(11) over(2) e show ?thesis by simp
    qed
  qed
  moreover have "m \<le> j \<or> m = j + 1 \<and> (\<exists>fd data sent. ts_client s = In_Send fd data sent)"
    using m(4,10) by auto
  ultimately show ?thesis
    using m(1-3,7-9) p len by (intro exI [of _ m]) simp
qed

section \<open>Properties\<close>

text \<open>
  Property C8. The two threads of the TCP feed on one kernel, under any interleaving and with any short
  transfers and interruptions: at every moment the book is the result of the first \<open>m\<close> generated
  messages, \<open>m\<close> being \<open>consumed\<close>, each measured once, and at most one more than \<open>produced\<close>, which the
  client increments after the bytes are sent; a full receive buffer is processed without undefined
  behaviour. When both threads have left a connection that was not cut, the server has consumed every
  message the client counted, and all messages were counted if the client sent them all.
\<close>

theorem tcp_system_delivers:
  assumes "tcp_reachable os on_message cfg listen_fd port
      (generated wall (fs_num_messages (fst cfg)) symbol) empty_book k s"
    and "stream_network os accepted delivered" and "accepted k = []" and "delivered k = []"
  shows "\<exists>m. feed on_message (take m (generated wall (fs_num_messages (fst cfg)) symbol)) empty_book =
       Inr (fc_book (ts_consumer s)) \<and>
     unat (fc_consumed (ts_consumer s)) = m \<and> m \<le> unat (fs_num_messages (fst cfg)) \<and>
     length (samples (fc_network (ts_consumer s))) = m \<and>
     length (samples (fc_processing (ts_consumer s))) = m \<and>
     (m \<le> unat (fp_produced (ts_producer s)) \<or>
        m = unat (fp_produced (ts_producer s)) + 1 \<and> (\<exists>fd data sent. ts_client s = In_Send fd data sent)) \<and>
     unat (fp_produced (ts_producer s)) + length (ts_todo s) = unat (fs_num_messages (fst cfg)) \<and>
     (\<forall>fd received rd. ts_server s = In_Recv fd received \<longrightarrow> \<not> received < message_size \<longrightarrow>
        (\<exists>c. process_received on_message rd (ts_consumer s) = Inr c)) \<and>
     (uncut os accepted delivered shut \<longrightarrow> \<not> shut k \<longrightarrow>
        ts_client s = Client_Exited \<longrightarrow> ts_server s = Server_Exited \<longrightarrow>
        m = unat (fp_produced (ts_producer s)))"
  using tcp_progress [OF assms, of shut] tcp_next_ok [OF assms] by blast

theorem tcp_system_delivers_witness:
  "\<exists>(s :: (loop_kernel, order_book) tcp_system). ts_client s = Client_Exited \<and> ts_server s = Server_Exited \<and>
     feed on_message (generated (\<lambda>_. 7) 3 [65]) empty_book = Inr (fc_book (ts_consumer s)) \<and>
     fp_produced (ts_producer s) = 3"
proof -
  let ?cfg = "(\<lparr>fs_num_messages = 3, fs_send_buffer_bytes = 0, fs_receive_buffer_bytes = 0,
    fs_producer_cpu = 1, fs_consumer_cpu = - 1\<rparr>, True)"
  have new: "stream_sent loop_new = []" "stream_taken loop_new = []" "\<not> stream_shut loop_new"
    by (simp_all add: loop_new_def stream_sent_def)
  obtain s :: "(loop_kernel, order_book) tcp_system" where s:
      "tcp_reachable (loop_tcp 50) on_message ?cfg 3 40000
        (generated (\<lambda>_. 7) (fs_num_messages (fst ?cfg)) [65]) empty_book loop_new s"
      "ts_client s = Client_Exited" "ts_server s = Server_Exited" "ts_todo s = []"
    using tcp_run_complete [OF _ new(1,2), of 50 ?cfg 3 40000 "\<lambda>_. 7" "[65]"] by auto
  obtain m where m: "feed on_message (take m (generated (\<lambda>_. 7) 3 [65])) empty_book = Inr (fc_book (ts_consumer s))"
      "m = unat (fp_produced (ts_producer s))" "unat (fp_produced (ts_producer s)) = 3"
    using tcp_system_delivers [OF s(1) loop_stream new(1,2), of stream_shut] loop_uncut [of 50] new(3) s(2-4)
    by fastforce
  have "fp_produced (ts_producer s) = 3" using m(3) by (simp add: word_unat_eq_iff)
  with m s(2,3) generated_ok(1) [of "\<lambda>_. 7" 3 "[65]"] show ?thesis by (intro exI [of _ s]) simp
qed

end
