(* ===== verification/Tcp_Progress.thy ===== *)
theory Tcp_Progress
  imports Tcp_Delivery
begin

text \<open>
  \<open>benchmark_tcp_feed.cpp\<close> terminates under every scheduler and on every kernel, apart from waiting: each
  step uses up some of a bounded amount of work unless it is a turn of the spin on \<open>accept_ready\<close> or a call
  that a signal interrupted, and until the program is over there is such a step unless a call is
  interrupted.
\<close>

section \<open>Work\<close>

text \<open>A message takes at most one call for each of its bytes and two steps around them.\<close>

definition message_work :: nat where
  "message_work = message_size + 2"

definition client_work :: "('k, 'b) tcp_system \<Rightarrow> nat" where
  "client_work s =
     (case ts_client s of
        Client_Pins \<Rightarrow> message_work * length (ts_todo s) + 5
      | Await_Listener \<Rightarrow> message_work * length (ts_todo s) + 4
      | Next_Send fd \<Rightarrow> message_work * length (ts_todo s) + 3
      | In_Send fd data sent \<Rightarrow> message_work * (length (ts_todo s) - 1) + 4 + (length data - sent)
      | Client_Shuts fd \<Rightarrow> 2
      | Client_Closes fd \<Rightarrow> 1
      | Client_Exited \<Rightarrow> 0
      | Client_Threw e \<Rightarrow> 0)"

definition messages_left :: "u64 \<Rightarrow> ('k, 'b) tcp_system \<Rightarrow> nat" where
  "messages_left num s = unat num - unat (fc_consumed (ts_consumer s))"

definition server_work :: "u64 \<Rightarrow> ('k, 'b) tcp_system \<Rightarrow> nat" where
  "server_work num s =
     (case ts_server s of
        Server_Pins \<Rightarrow> message_work * messages_left num s + 6
      | Server_Announces \<Rightarrow> message_work * messages_left num s + 5
      | Accepting \<Rightarrow> message_work * messages_left num s + 4
      | Next_Receive fd \<Rightarrow> message_work * messages_left num s + 3
      | In_Recv fd received \<Rightarrow> message_work * (messages_left num s - 1) + 4 + (message_size - received)
      | Server_Closes fd \<Rightarrow> 1
      | Server_Exited \<Rightarrow> 0
      | Server_Refused \<Rightarrow> 0)"

definition tcp_work :: "u64 \<Rightarrow> ('k, 'b) tcp_system \<Rightarrow> nat" where
  "tcp_work num s = client_work s + server_work num s"

text \<open>A step that changes nothing but the kernel: a turn of the spin, or a call without a result.\<close>

definition tcp_idles :: "('k, 'b) tcp_system \<Rightarrow> ('k, 'b) tcp_system \<Rightarrow> bool" where
  "tcp_idles s s' \<longleftrightarrow> (\<exists>k. s' = s\<lparr>ts_kernel := k\<rparr>)"

lemma client_work_frame [simp]:
  "client_work (s\<lparr>ts_kernel := k\<rparr>) = client_work s" "client_work (s\<lparr>ts_server := sv\<rparr>) = client_work s"
  "client_work (s\<lparr>ts_consumer := c\<rparr>) = client_work s" "client_work (s\<lparr>ts_producer := p\<rparr>) = client_work s"
  "client_work (s\<lparr>ts_accept_ready := r\<rparr>) = client_work s"
  "client_work (s\<lparr>ts_client_text := line\<rparr>) = client_work s"
  "client_work (s\<lparr>ts_server_text := line\<rparr>) = client_work s"
  by (simp_all add: client_work_def cong: tcp_client.case_cong)

lemma server_work_frame [simp]:
  "server_work num (s\<lparr>ts_kernel := k\<rparr>) = server_work num s"
  "server_work num (s\<lparr>ts_client := cl\<rparr>) = server_work num s"
  "server_work num (s\<lparr>ts_todo := msgs\<rparr>) = server_work num s"
  "server_work num (s\<lparr>ts_producer := p\<rparr>) = server_work num s"
  "server_work num (s\<lparr>ts_accept_ready := r\<rparr>) = server_work num s"
  "server_work num (s\<lparr>ts_client_text := line\<rparr>) = server_work num s"
  "server_work num (s\<lparr>ts_server_text := line\<rparr>) = server_work num s"
  by (simp_all add: server_work_def messages_left_def cong: tcp_server.case_cong)

lemma tcp_idles_work: "tcp_idles s s' \<Longrightarrow> tcp_work num s' = tcp_work num s"
  by (auto simp: tcp_idles_def tcp_work_def)

lemma tcp_idles_refl: "tcp_idles s s" "tcp_idles s (s\<lparr>ts_kernel := k\<rparr>)"
  by (auto simp: tcp_idles_def intro: exI [of _ "ts_kernel s"])

lemma message_work_less: "0 < n \<Longrightarrow> message_work * n = message_work * (n - 1) + message_size + 2"
  by (cases n) (simp_all add: message_work_def)

lemma tcp_step_work:
  assumes "tcp_step os on_msg cfg listen_fd port s s'"
    and "tcp_server_inv delivered on_msg (fs_num_messages (fst cfg)) b s"
    and "\<forall>msg \<in> set (ts_todo s). well_sized msg"
  shows "tcp_work (fs_num_messages (fst cfg)) s' < tcp_work (fs_num_messages (fst cfg)) s \<or> tcp_idles s s'"
  using assms
proof (induction rule: tcp_step.induct)
  case (starts_send s fd msg rest now)
  then have "length (message_bytes (stamp now msg)) = message_size"
    by (simp add: length_message_bytes)
  with starts_send(1,2) show ?case
    by (simp add: tcp_work_def client_work_def message_work_def)
next
  case (starts_receive s fd)
  then have "0 < messages_left (fs_num_messages (fst cfg)) s"
    by (simp add: word_less_nat_alt messages_left_def)
  from message_work_less [OF this] starts_receive(1) show ?case
    by (simp add: tcp_work_def server_work_def messages_left_def)
next
  case (received_all s fd received rd c)
  have lt: "unat (fc_consumed (ts_consumer s)) < unat (fs_num_messages (fst cfg))"
    using received_all(1,5) by (auto simp: tcp_server_inv_def)
  have "fc_consumed c = fc_consumed (ts_consumer s) + 1"
    using received_all(3) by (auto simp: process_received_def cpp_map_Inr_iff)
  then have "unat (fc_consumed c) = unat (fc_consumed (ts_consumer s)) + 1"
    using lt unsigned_less [of "fs_num_messages (fst cfg)", where ?'a = nat] by (simp add: unat_word_ariths(1))
  with received_all(1) show ?case
    by (simp add: tcp_work_def server_work_def messages_left_def)
next
  case (client_yields s)
  then show ?case by (simp add: tcp_idles_refl)
next
  case (send_interrupted s fd data sent r k)
  then show ?case by (simp add: tcp_idles_refl)
next
  case (receive_interrupted s fd received r bs k)
  then show ?case by (simp add: tcp_idles_refl)
next
  case (client_connects s fd k1 cpu k2)
  then show ?case by (simp add: tcp_work_def client_work_def)
next
  case (accepts s fd k1 cpu k2)
  then show ?case by (simp add: tcp_work_def server_work_def messages_left_def)
next
  case (receives_some s fd received r bs k)
  have "message_size - (received + nat r) < message_size - received"
    using receives_some(2,4) by (intro diff_less_mono2) simp_all
  with receives_some(1) show ?case
    by (intro disjI1) (auto simp: tcp_work_def server_work_def messages_left_def)
next
  case (sent_all s fd data sent cpu)
  then show ?case by (simp add: tcp_work_def client_work_def)
next
  case (server_pins s line k)
  then show ?case by (simp add: tcp_work_def server_work_def messages_left_def)
next
  case (sends_some s fd data sent r k)
  have "length data - (sent + nat r) < length data - sent"
    using sends_some(2,4) by (intro diff_less_mono2) simp_all
  with sends_some(1) show ?case by (intro disjI1) (auto simp: tcp_work_def client_work_def)
next
  case (send_fails s fd data sent r k)
  have "4 \<le> client_work s" using send_fails(1) by (simp add: client_work_def)
  moreover have "client_work (s\<lparr>ts_kernel := k, ts_client := Client_Shuts fd\<rparr>) = 2"
    by (simp add: client_work_def)
  ultimately show ?case by (simp add: tcp_work_def)
next
  case (receive_fails s fd received r bs k)
  have "4 \<le> server_work (fs_num_messages (fst cfg)) s" using receive_fails(1) by (simp add: server_work_def)
  moreover have "server_work (fs_num_messages (fst cfg)) (s\<lparr>ts_kernel := k, ts_server := Server_Closes fd\<rparr>) = 1"
    by (simp add: server_work_def)
  ultimately show ?case by (simp add: tcp_work_def)
qed ((simp add: tcp_work_def client_work_def; fail) |
    (simp add: tcp_work_def server_work_def messages_left_def; fail))+

section \<open>Until the program is over, a thread can work\<close>

text \<open>The call a thread is in would be interrupted by a signal.\<close>

definition tcp_interrupted :: "'k os \<Rightarrow> ('k, 'b) tcp_system \<Rightarrow> bool" where
  "tcp_interrupted os s \<longleftrightarrow>
     (\<exists>fd data sent r k. ts_client s = In_Send fd data sent \<and> sent < length data \<and>
        os_send os fd (drop sent data) (ts_kernel s) = (r, k) \<and> r < 0 \<and> os_errno os k = EINTR) \<or>
     (\<exists>fd received r bs k. ts_server s = In_Recv fd received \<and> received < message_size \<and>
        os_recv os fd (message_size - received) (ts_kernel s) = ((r, bs), k) \<and> r < 0 \<and> os_errno os k = EINTR)"

text \<open>Both threads have left, or an exception has ended the program.\<close>

definition tcp_over :: "('k, 'b) tcp_system \<Rightarrow> bool" where
  "tcp_over s \<longleftrightarrow> (\<exists>e. ts_client s = Client_Threw e) \<or>
     ts_client s = Client_Exited \<and> (ts_server s = Server_Exited \<or> ts_server s = Server_Refused)"

definition tcp_can_work :: "'k os \<Rightarrow> ('b \<Rightarrow> market_message \<Rightarrow> 'b cpp) \<Rightarrow> feed_settings \<times> bool \<Rightarrow> int \<Rightarrow> int \<Rightarrow>
   ('k, 'b) tcp_system \<Rightarrow> bool" where
  "tcp_can_work os on_msg cfg listen_fd port s \<longleftrightarrow>
     (\<exists>s'. tcp_step os on_msg cfg listen_fd port s s' \<and> \<not> tcp_idles s s')"

lemma can_workI:
  "tcp_step os on_msg cfg listen_fd port s s' \<Longrightarrow>
   ts_client s' \<noteq> ts_client s \<or> ts_server s' \<noteq> ts_server s \<Longrightarrow> tcp_can_work os on_msg cfg listen_fd port s"
  unfolding tcp_can_work_def tcp_idles_def by auto

text \<open>The server, while the program runs.\<close>

lemma server_can_work:
  assumes "tcp_program_runs s" and "ts_server s \<noteq> Server_Exited" and "ts_server s \<noteq> Server_Refused"
    and full: "\<And>fd received. ts_server s = In_Recv fd received \<Longrightarrow> \<not> received < message_size \<Longrightarrow>
      \<exists>c. process_received on_msg rd (ts_consumer s) = Inr c"
  shows "tcp_can_work os on_msg cfg listen_fd port s \<or> tcp_interrupted os s"
proof (cases "ts_server s")
  case Server_Pins
  from server_pins [OF this surjective_pairing assms(1), THEN can_workI] Server_Pins show ?thesis by simp
next
  case Server_Announces
  from server_announces [OF this assms(1), THEN can_workI] Server_Announces show ?thesis by simp
next
  case Accepting
  obtain fd k where call: "os_accept os listen_fd (ts_kernel s) = (fd, k)" by (meson surj_pair)
  show ?thesis
  proof (cases "fd < 0")
    case True
    from accept_fails [OF Accepting call this assms(1), THEN can_workI] Accepting show ?thesis by simp
  next
    case False
    then have "0 \<le> fd" by simp
    from accepts [OF Accepting call this surjective_pairing assms(1), THEN can_workI] Accepting
    show ?thesis by simp
  qed
next
  case (Next_Receive fd)
  show ?thesis
  proof (cases "fc_consumed (ts_consumer s) < fs_num_messages (fst cfg)")
    case True
    from starts_receive [OF Next_Receive this assms(1), THEN can_workI] Next_Receive show ?thesis by simp
  next
    case False
    from server_has_all [OF Next_Receive this assms(1), THEN can_workI] Next_Receive show ?thesis by simp
  qed
next
  case (In_Recv fd received)
  show ?thesis
  proof (cases "received < message_size")
    case True
    obtain r bs k where call: "os_recv os fd (message_size - received) (ts_kernel s) = ((r, bs), k)"
      by (metis surj_pair)
    consider "r > 0" | "r < 0" "os_errno os k = EINTR" | "r \<le> 0" "\<not> (r < 0 \<and> os_errno os k = EINTR)"
      by linarith
    then show ?thesis
    proof cases
      case 1
      from receives_some [OF In_Recv True call this assms(1), THEN can_workI] In_Recv 1 show ?thesis by simp
    next
      case 2
      with In_Recv True call show ?thesis by (auto simp: tcp_interrupted_def)
    next
      case 3
      from receive_fails [OF In_Recv True call 3 assms(1), THEN can_workI] In_Recv show ?thesis by simp
    qed
  next
    case False
    obtain c where "process_received on_msg rd (ts_consumer s) = Inr c" using full [OF In_Recv False] by blast
    from received_all [OF In_Recv False this assms(1), THEN can_workI] In_Recv show ?thesis by simp
  qed
next
  case (Server_Closes fd)
  from server_closes [OF this assms(1), THEN can_workI] Server_Closes show ?thesis by simp
qed (use assms(2,3) in simp_all)

text \<open>The client, unless it waits for \<open>accept_ready\<close>.\<close>

lemma client_can_work:
  assumes "ts_client s \<noteq> Client_Exited" and "\<nexists>e. ts_client s = Client_Threw e"
    and "ts_client s = Await_Listener \<Longrightarrow> ts_accept_ready s"
  shows "tcp_can_work os on_msg cfg listen_fd port s \<or> tcp_interrupted os s"
proof (cases "ts_client s")
  case Client_Pins
  from client_pins [OF this surjective_pairing, THEN can_workI] Client_Pins show ?thesis by simp
next
  case Await_Listener
  obtain r k where call: "connect_tcp_client os port (snd cfg) (fs_send_buffer_bytes (fst cfg)) (ts_kernel s) = (r, k)"
    by (meson surj_pair)
  show ?thesis
  proof (cases r)
    case (Inl e)
    from client_throws [OF Await_Listener assms(3) [OF Await_Listener] call [unfolded Inl], THEN can_workI]
    show ?thesis by (simp add: Await_Listener)
  next
    case (Inr fd)
    from client_connects [OF Await_Listener assms(3) [OF Await_Listener] call [unfolded Inr] surjective_pairing,
        THEN can_workI]
    show ?thesis by (simp add: Await_Listener)
  qed
next
  case (Next_Send fd)
  show ?thesis
  proof (cases "ts_todo s")
    case Nil
    from sends_over [OF Next_Send this, THEN can_workI] Next_Send show ?thesis by simp
  next
    case (Cons msg rest)
    from starts_send [OF Next_Send this, THEN can_workI] Next_Send show ?thesis by simp
  qed
next
  case (In_Send fd data sent)
  show ?thesis
  proof (cases "sent < length data")
    case True
    obtain r k where call: "os_send os fd (drop sent data) (ts_kernel s) = (r, k)" by (meson surj_pair)
    consider "r > 0" | "r < 0" "os_errno os k = EINTR" | "r \<le> 0" "\<not> (r < 0 \<and> os_errno os k = EINTR)"
      by linarith
    then show ?thesis
    proof cases
      case 1
      from sends_some [OF In_Send True call this, THEN can_workI] In_Send 1 show ?thesis by simp
    next
      case 2
      with In_Send True call show ?thesis by (auto simp: tcp_interrupted_def)
    next
      case 3
      from send_fails [OF In_Send True call 3, THEN can_workI] In_Send show ?thesis by simp
    qed
  next
    case False
    from sent_all [OF In_Send False, THEN can_workI] In_Send show ?thesis by simp
  qed
next
  case (Client_Shuts fd)
  from client_shuts [OF this, THEN can_workI] Client_Shuts show ?thesis by simp
next
  case (Client_Closes fd)
  from client_closes [OF this, THEN can_workI] Client_Closes show ?thesis by simp
qed (use assms(1,2) in auto)

text \<open>The client spins only as long as the server has still to announce.\<close>

lemma accept_ready_inv:
  assumes "tcp_reachable os on_msg cfg listen_fd port messages b k s" and "\<not> ts_accept_ready s"
  shows "ts_server s = Server_Pins \<or> ts_server s = Server_Announces"
  using assms
proof induction
  case start
  then show ?case by (simp add: tcp_system_new_def)
next
  case (step s s')
  from step(2,3,4) show ?case by cases auto
qed

section \<open>Runs\<close>

text \<open>A run from the start, of \<open>steps\<close> steps with \<open>idle\<close> idle ones.\<close>

inductive tcp_run ::
  "'k os \<Rightarrow> ('b \<Rightarrow> market_message \<Rightarrow> 'b cpp) \<Rightarrow> feed_settings \<times> bool \<Rightarrow> int \<Rightarrow> int \<Rightarrow>
   market_message list \<Rightarrow> 'b \<Rightarrow> 'k \<Rightarrow> nat \<Rightarrow> nat \<Rightarrow> ('k, 'b) tcp_system \<Rightarrow> bool"
  for os on_msg cfg listen_fd port messages b k where
  run_start: "tcp_run os on_msg cfg listen_fd port messages b k 0 0 (tcp_system_new messages b k)"
| run_step:
    "tcp_run os on_msg cfg listen_fd port messages b k steps idle s \<Longrightarrow>
     tcp_step os on_msg cfg listen_fd port s s' \<Longrightarrow>
     tcp_run os on_msg cfg listen_fd port messages b k (steps + 1)
       (if tcp_idles s s' then idle + 1 else idle) s'"

lemma tcp_run_reachable:
  "tcp_run os on_msg cfg listen_fd port messages b k steps idle s \<Longrightarrow>
   tcp_reachable os on_msg cfg listen_fd port messages b k s"
  by (induction rule: tcp_run.induct) (auto intro: tcp_reachable.intros)

lemma tcp_run_work:
  assumes "tcp_run os on_msg cfg listen_fd port messages b k steps idle s"
    and "stream_network os accepted delivered" and "\<forall>msg \<in> set messages. well_sized msg"
    and "accepted k = []" and "delivered k = []"
  shows "steps + tcp_work (fs_num_messages (fst cfg)) s \<le>
    message_work * (length messages + unat (fs_num_messages (fst cfg))) + 11 + idle"
  using assms(1)
proof induction
  case run_start
  show ?case
    by (simp add: tcp_work_def client_work_def server_work_def messages_left_def tcp_system_new_def
        consumer_new_def algebra_simps)
next
  case (run_step steps idle s s')
  have inv: "tcp_inv accepted delivered on_msg (fs_num_messages (fst cfg)) messages b s"
    by (rule tcp_reachable_inv [OF tcp_run_reachable [OF run_step(1)] assms(2-5)])
  then obtain j where "ts_todo s = drop j messages" by (auto simp: tcp_inv_def tcp_client_inv_def)
  then have "\<forall>msg \<in> set (ts_todo s). well_sized msg" using assms(3) by (auto dest: in_set_dropD)
  with tcp_step_work [OF run_step(2)] inv run_step(3) tcp_idles_work [of s s'] show ?case
    by (fastforce simp: tcp_inv_def)
qed

section \<open>Properties\<close>

text \<open>
  Property C22. The TCP feed terminates: under every scheduler and on every kernel that delivers the bytes of
  a stream in order, a run of more than 132n + 11 steps has a turn of the spin on \<open>accept_ready\<close> or an
  interrupted call for each of the steps in excess; and until both threads have left, or an exception has
  ended the program, some other step is possible unless a signal interrupts the call a thread is in.
\<close>

theorem tcp_feed_terminates:
  assumes "tcp_run os on_message cfg listen_fd port
      (generated wall (fs_num_messages (fst cfg)) symbol) empty_book k steps idle s"
    and "stream_network os accepted delivered" and "accepted k = []" and "delivered k = []"
  shows "steps \<le> 132 * unat (fs_num_messages (fst cfg)) + 11 + idle \<and>
     (tcp_over s \<or> tcp_interrupted os s \<or>
      (\<exists>s'. tcp_step os on_message cfg listen_fd port s s' \<and> \<not> tcp_idles s s'))"
proof -
  let ?gs = "generated wall (fs_num_messages (fst cfg)) symbol"
  note reach = tcp_run_reachable [OF assms(1)]
  have ws: "\<forall>msg \<in> set ?gs. well_sized msg" using generated_well_sized by blast
  have "steps \<le> 132 * unat (fs_num_messages (fst cfg)) + 11 + idle"
    using tcp_run_work [OF assms(1,2) ws assms(3,4)] generated_ok(1)
    by (simp add: message_work_def message_size_def)
  moreover have "tcp_over s \<or> tcp_interrupted os s \<or> tcp_can_work os on_message cfg listen_fd port s"
  proof (cases "tcp_over s")
    case False
    then have runs: "\<nexists>e. ts_client s = Client_Threw e" by (simp add: tcp_over_def)
    then have prog: "tcp_program_runs s" by (auto simp: tcp_program_runs_def split: tcp_client.split)
    have "tcp_can_work os on_message cfg listen_fd port s \<or> tcp_interrupted os s"
    proof (cases "ts_client s = Client_Exited \<or> \<not> ts_accept_ready s")
      case True
      then have "ts_server s \<noteq> Server_Exited" "ts_server s \<noteq> Server_Refused"
        using False accept_ready_inv [OF reach] by (auto simp: tcp_over_def)
      then show ?thesis by (rule server_can_work [OF prog]) (rule tcp_next_ok [OF reach assms(2-4)])
    next
      case False
      then show ?thesis using client_can_work [OF _ runs] by blast
    qed
    then show ?thesis by blast
  qed simp
  ultimately show ?thesis by (simp add: tcp_can_work_def)
qed

theorem tcp_feed_terminates_witness:
  "\<exists>s. tcp_run (loop_tcp 50) on_message (\<lparr>fs_num_messages = 3, fs_send_buffer_bytes = 0,
       fs_receive_buffer_bytes = 0, fs_producer_cpu = 1, fs_consumer_cpu = - 1\<rparr>, True) 3 40000
       (generated (\<lambda>_. 7) 3 [65]) empty_book loop_new 1 0 s"
proof -
  let ?cfg = "(\<lparr>fs_num_messages = 3, fs_send_buffer_bytes = 0, fs_receive_buffer_bytes = 0,
    fs_producer_cpu = 1, fs_consumer_cpu = - 1\<rparr>, True)"
  have new: "stream_sent loop_new = []" "stream_taken loop_new = []"
    by (simp_all add: loop_new_def stream_sent_def)
  note start = run_start [of "loop_tcp 50" on_message ?cfg 3 40000
      "generated (\<lambda>_. 7) (fs_num_messages (fst ?cfg)) [65]" empty_book loop_new]
  let ?s = "tcp_system_new (generated (\<lambda>_. 7) (fs_num_messages (fst ?cfg)) [65]) empty_book loop_new"
  have "\<not> tcp_over ?s" "\<not> tcp_interrupted (loop_tcp 50) ?s"
    by (simp_all add: tcp_over_def tcp_interrupted_def tcp_system_new_def)
  then obtain s' where "tcp_step (loop_tcp 50) on_message ?cfg 3 40000 ?s s'" "\<not> tcp_idles ?s s'"
    using tcp_feed_terminates [OF start loop_stream new] by blast
  from run_step [OF start this(1)] this(2) show ?thesis by auto
qed

end
