(* ===== verification/False_Sharing.thy ===== *)
theory False_Sharing
  imports Benchmarks
begin

unbundle bit_operations_syntax

text \<open>
  \<open>benchmark_false_sharing.cpp\<close>: two threads increment two atomic counters that share a cache line
  or do not. \<open>run_case\<close> takes the counters through two accessors; a locale states what it needs of
  them, and both structs provide it.
\<close>

section \<open>Counters and accessors\<close>

record unpadded_counters =
  uc_first :: u64
  uc_second :: u64

record padded_counter =
  pc_value :: u64
  pc_padding :: "u8 list"

record padded_counters =
  pcs_first :: padded_counter
  pcs_second :: padded_counter

definition unpadded_new :: unpadded_counters where
  "unpadded_new = \<lparr>uc_first = 0, uc_second = 0\<rparr>"

definition padded_new :: padded_counters where
  "padded_new = (let c = \<lparr>pc_value = 0, pc_padding = replicate 56 0\<rparr> in \<lparr>pcs_first = c, pcs_second = c\<rparr>)"

text \<open>A reference to an atomic inside the counters, as its value and the update of it.\<close>

record 'c accessor =
  ref_load :: "'c \<Rightarrow> u64"
  ref_store :: "u64 \<Rightarrow> 'c \<Rightarrow> 'c"

definition unpadded_first :: "unpadded_counters accessor" where
  "unpadded_first = \<lparr>ref_load = uc_first, ref_store = \<lambda>v. uc_first_update (\<lambda>_. v)\<rparr>"

definition unpadded_second :: "unpadded_counters accessor" where
  "unpadded_second = \<lparr>ref_load = uc_second, ref_store = \<lambda>v. uc_second_update (\<lambda>_. v)\<rparr>"

definition padded_first :: "padded_counters accessor" where
  "padded_first = \<lparr>ref_load = (\<lambda>c. pc_value (pcs_first c)),
     ref_store = \<lambda>v. pcs_first_update (pc_value_update (\<lambda>_. v))\<rparr>"

definition padded_second :: "padded_counters accessor" where
  "padded_second = \<lparr>ref_load = (\<lambda>c. pc_value (pcs_second c)),
     ref_store = \<lambda>v. pcs_second_update (pc_value_update (\<lambda>_. v))\<rparr>"

text \<open>\<open>counter.fetch_add(1)\<close>.\<close>

definition fetch_add :: "'c accessor \<Rightarrow> 'c \<Rightarrow> 'c" where
  "fetch_add r c = ref_store r (ref_load r c + 1) c"

section \<open>The two threads\<close>

record sharing_thread =
  st_iteration :: u64
  st_cpu :: int
  st_migrations :: u64

record 'c sharing =
  sh_counters :: 'c
  sh_first :: sharing_thread
  sh_second :: sharing_thread

text \<open>
  One iteration of a thread's loop; the CPU is sampled every 4096 iterations. Only the
  \<open>fetch_add\<close> touches what the other thread can see, so an iteration is one step.
\<close>

definition next_iteration :: "int \<Rightarrow> sharing_thread \<Rightarrow> sharing_thread" where
  "next_iteration cpu t =
     (if st_iteration t AND 4095 \<noteq> 0 then t\<lparr>st_iteration := st_iteration t + 1\<rparr>
      else t\<lparr>st_iteration := st_iteration t + 1,
             st_migrations := count_migration (st_cpu t) cpu (st_migrations t), st_cpu := cpu\<rparr>)"

inductive sharing_step ::
  "'c accessor \<Rightarrow> 'c accessor \<Rightarrow> u64 \<Rightarrow> 'c sharing \<Rightarrow> 'c sharing \<Rightarrow> bool"
  for first_accessor second_accessor iterations where
  first_step:
    "st_iteration (sh_first s) < iterations \<Longrightarrow>
     sharing_step first_accessor second_accessor iterations s
       (s\<lparr>sh_counters := fetch_add first_accessor (sh_counters s),
          sh_first := next_iteration cpu (sh_first s)\<rparr>)"
| second_step:
    "st_iteration (sh_second s) < iterations \<Longrightarrow>
     sharing_step first_accessor second_accessor iterations s
       (s\<lparr>sh_counters := fetch_add second_accessor (sh_counters s),
          sh_second := next_iteration cpu (sh_second s)\<rparr>)"

definition sharing_new :: "'c \<Rightarrow> int \<Rightarrow> int \<Rightarrow> 'c sharing" where
  "sharing_new c cpu1 cpu2 = \<lparr>sh_counters = c,
     sh_first = \<lparr>st_iteration = 0, st_cpu = cpu1, st_migrations = 0\<rparr>,
     sh_second = \<lparr>st_iteration = 0, st_cpu = cpu2, st_migrations = 0\<rparr>\<rparr>"

text \<open>\<open>run_case_run \<dots> n s\<close>: after \<open>n\<close> steps of the two threads the state is \<open>s\<close>.\<close>

inductive run_case_run ::
  "'c accessor \<Rightarrow> 'c accessor \<Rightarrow> u64 \<Rightarrow> 'c \<Rightarrow> nat \<Rightarrow> 'c sharing \<Rightarrow> bool"
  for first_accessor second_accessor iterations counters where
  case_start: "run_case_run first_accessor second_accessor iterations counters 0
    (sharing_new counters cpu1 cpu2)"
| case_step: "run_case_run first_accessor second_accessor iterations counters n s \<Longrightarrow>
    sharing_step first_accessor second_accessor iterations s s' \<Longrightarrow>
    run_case_run first_accessor second_accessor iterations counters (Suc n) s'"

text \<open>Both threads have been joined.\<close>

definition case_over :: "u64 \<Rightarrow> 'c sharing \<Rightarrow> bool" where
  "case_over iterations s \<longleftrightarrow>
     \<not> st_iteration (sh_first s) < iterations \<and> \<not> st_iteration (sh_second s) < iterations"

section \<open>The contract of the accessors\<close>

locale two_counters =
  fixes first_accessor second_accessor :: "'c accessor"
    and fresh :: 'c
  assumes fresh_zero: "ref_load first_accessor fresh = 0" "ref_load second_accessor fresh = 0"
    and load_store: "ref_load first_accessor (ref_store first_accessor v c) = v"
      "ref_load second_accessor (ref_store second_accessor v c) = v"
    and disjoint: "ref_load second_accessor (ref_store first_accessor v c) = ref_load second_accessor c"
      "ref_load first_accessor (ref_store second_accessor v c) = ref_load first_accessor c"
begin

lemma loads_fetch_add:
  "ref_load first_accessor (fetch_add first_accessor c) = ref_load first_accessor c + 1"
  "ref_load second_accessor (fetch_add first_accessor c) = ref_load second_accessor c"
  "ref_load second_accessor (fetch_add second_accessor c) = ref_load second_accessor c + 1"
  "ref_load first_accessor (fetch_add second_accessor c) = ref_load first_accessor c"
  by (simp_all add: fetch_add_def load_store disjoint)

text \<open>Each counter is the number of iterations its thread has made, and no step is lost.\<close>

lemma run_counts:
  assumes "run_case_run first_accessor second_accessor iterations fresh n s"
  shows "ref_load first_accessor (sh_counters s) = st_iteration (sh_first s) \<and>
     ref_load second_accessor (sh_counters s) = st_iteration (sh_second s) \<and>
     st_iteration (sh_first s) \<le> iterations \<and> st_iteration (sh_second s) \<le> iterations \<and>
     n = unat (st_iteration (sh_first s)) + unat (st_iteration (sh_second s))"
  using assms
proof (induction rule: run_case_run.induct)
  case (case_start cpu1 cpu2)
  then show ?case by (simp add: sharing_new_def fresh_zero)
next
  case (case_step n s s')
  have inc: "i + 1 \<le> iterations \<and> unat (i + 1) = Suc (unat i)" if "i < iterations" for i
  proof -
    have less: "unat i + 1 \<le> unat iterations" using that by (simp add: word_less_nat_alt)
    moreover have "unat iterations < 2 ^ 64" using unsigned_less [of iterations, where ?'a = nat] by simp
    ultimately have "unat (i + 1) = Suc (unat i)" using unat_word_ariths(1) [of i 1] by simp
    with less show ?thesis by (simp add: word_le_nat_alt)
  qed
  from case_step(2,3) show ?case
    by (induction rule: sharing_step.induct) (auto simp: loads_fetch_add next_iteration_def dest: inc)
qed

text \<open>The run is over after exactly twice the iterations, with both counters complete.\<close>

lemma run_result:
  assumes "run_case_run first_accessor second_accessor iterations fresh n s"
  shows "case_over iterations s \<Longrightarrow> ref_load first_accessor (sh_counters s) = iterations \<and>
      ref_load second_accessor (sh_counters s) = iterations \<and> n = 2 * unat iterations"
    and "\<not> case_over iterations s \<Longrightarrow> n < 2 * unat iterations \<and>
      (\<exists>s'. sharing_step first_accessor second_accessor iterations s s')"
proof -
  note counts = run_counts [OF assms]
  show "case_over iterations s \<Longrightarrow> ref_load first_accessor (sh_counters s) = iterations \<and>
      ref_load second_accessor (sh_counters s) = iterations \<and> n = 2 * unat iterations"
    using counts by (auto simp: case_over_def not_less dest: order_antisym)
  assume open_run: "\<not> case_over iterations s"
  then have "\<exists>s'. sharing_step first_accessor second_accessor iterations s s'"
    unfolding case_over_def using first_step second_step by blast
  moreover have "n < 2 * unat iterations"
    using open_run counts by (auto simp: case_over_def word_less_nat_alt word_le_nat_alt)
  ultimately show "n < 2 * unat iterations \<and>
      (\<exists>s'. sharing_step first_accessor second_accessor iterations s s')" by blast
qed

end

interpretation unpadded: two_counters unpadded_first unpadded_second unpadded_new
  by unfold_locales (simp_all add: unpadded_first_def unpadded_second_def unpadded_new_def)

interpretation padded: two_counters padded_first padded_second padded_new
  by unfold_locales (simp_all add: padded_first_def padded_second_def padded_new_def Let_def)

section \<open>Layout\<close>

text \<open>
  Offsets of the two counters in the structs (the second \<open>PaddedCounter\<close> starts at the next multiple
  of its alignment), and the cache line of an address.
\<close>

definition unpadded_offsets :: "nat \<times> nat" where
  "unpadded_offsets = (0, 8)"

definition padded_offsets :: "nat \<times> nat" where
  "padded_offsets = (0, 64)"

definition cache_line :: "nat \<Rightarrow> nat" where
  "cache_line address = address div 64"

section \<open>Properties\<close>

text \<open>
  The false-sharing benchmark counts right with either layout: whatever the
  interleaving, when both threads are done each counter is the number of iterations, which takes
  exactly twice that many steps; until then a thread can run.
\<close>

lemma false_sharing_counts:
  "(\<forall>n s. run_case_run unpadded_first unpadded_second iterations unpadded_new n s \<longrightarrow>
      (if case_over iterations s
       then uc_first (sh_counters s) = iterations \<and> uc_second (sh_counters s) = iterations \<and>
         n = 2 * unat iterations
       else n < 2 * unat iterations \<and> (\<exists>s'. sharing_step unpadded_first unpadded_second iterations s s'))) \<and>
   (\<forall>n s. run_case_run padded_first padded_second iterations padded_new n s \<longrightarrow>
      (if case_over iterations s
       then pc_value (pcs_first (sh_counters s)) = iterations \<and>
         pc_value (pcs_second (sh_counters s)) = iterations \<and> n = 2 * unat iterations
       else n < 2 * unat iterations \<and> (\<exists>s'. sharing_step padded_first padded_second iterations s s')))"
  using unpadded.run_result [of iterations] padded.run_result [of iterations]
  by (simp add: unpadded_first_def unpadded_second_def padded_first_def padded_second_def)

text \<open>
  The padded counters, on addresses that are multiples of 64, never share a cache line; the unpadded
  ones, which are only aligned to 8, do unless the struct starts 8 bytes before the end of a line.
\<close>

lemma padded_lines:
  "64 dvd base \<Longrightarrow> cache_line (base + fst padded_offsets) \<noteq> cache_line (base + snd padded_offsets)"
  by (auto simp: cache_line_def padded_offsets_def elim!: dvdE)

lemma unpadded_lines:
  assumes "8 dvd base"
  shows "cache_line (base + fst unpadded_offsets) = cache_line (base + snd unpadded_offsets) \<longleftrightarrow>
    base mod 64 \<noteq> 56"
proof -
  obtain m where base: "base = 8 * m" using assms by (rule dvdE)
  have "8 * m div 64 = m div 8" and "(8 * m + 8) div 64 = (m + 1) div 8"
    using div_mult_mult1 [of 8 m 8] div_mult_mult1 [of 8 "m + 1" 8] by simp_all
  moreover have "8 * m mod 64 = 8 * (m mod 8)" using mult_mod_right [of 8 m 8] by simp
  moreover have "m div 8 = (m + 1) div 8 \<longleftrightarrow> m mod 8 \<noteq> 7" by presburger
  ultimately show ?thesis using base by (simp add: cache_line_def unpadded_offsets_def)
qed

end
