(* ===== verification/Reports.thy ===== *)
theory Reports
  imports Spsc_Pipeline Mutex_Pipeline Tcp_Feed Udp_Feed False_Sharing Command_Line
begin

text \<open>
  What the programs print after a run: throughput and counters, the latency summaries and the final
  book. A \<open>double\<close> goes to \<open>std::cout\<close> in the default format: six significant digits, fixed or
  scientific, trailing zeros dropped. \<open>duration\<close> is the measured duration in nanoseconds.
\<close>

section \<open>Doubles of a report\<close>

text \<open>Quotients of non-negative doubles: a duration of 0 gives an infinity or no number.\<close>

datatype floating = Finite rat | Infinite | Not_A_Number

definition quotient :: "rat \<Rightarrow> rat \<Rightarrow> floating" where
  "quotient a b =
     (if b = 0 then (if a = 0 then Not_A_Number else Infinite) else Finite (dbl (a / b)))"

fun scaled :: "(rat \<Rightarrow> rat) \<Rightarrow> floating \<Rightarrow> floating" where
  "scaled f (Finite x) = Finite (dbl (f x))"
| "scaled f Infinite = Infinite"
| "scaled f Not_A_Number = Not_A_Number"

definition throughput_msg_per_sec :: "u64 \<Rightarrow> u64 \<Rightarrow> floating" where
  "throughput_msg_per_sec n duration =
     scaled (\<lambda>x. x * 1000000000) (quotient (u64_double n) (u64_double duration))"

section \<open>The default format\<close>

text \<open>The exponent of the leading decimal digit of a positive rational.\<close>

definition decade :: "rat \<Rightarrow> int" where
  "decade x =
     (let (p, q) = quotient_of x; e = int (length (decimal (nat p))) - int (length (decimal (nat q)))
      in if x < 10 powi e then e - 1 else e)"

text \<open>Six digits \<open>m\<close> and the exponent of the first one, rounded to nearest, ties to even.\<close>

definition six_digits :: "rat \<Rightarrow> nat \<times> int" where
  "six_digits x =
     (let e = decade x; m = nat (round_half_even (x / 10 powi (e - 5)))
      in if m = 1000000 then (100000, e + 1) else (m, e))"

definition drop_zeros :: "string \<Rightarrow> string" where
  "drop_zeros s = rev (dropWhile (\<lambda>c. c = digit 0) (rev s))"

definition with_point :: "string \<Rightarrow> string \<Rightarrow> string" where
  "with_point whole fraction =
     (let f = drop_zeros fraction in if f = [] then whole else whole @ ''.'' @ f)"

definition exponent_text :: "int \<Rightarrow> string" where
  "exponent_text e =
     ''e'' @ (if e < 0 then ''-'' else ''+'') @ (if \<bar>e\<bar> < 10 then ''0'' else []) @ decimal (nat \<bar>e\<bar>)"

fun show_double :: "floating \<Rightarrow> string" where
  "show_double Infinite = ''inf''"
| "show_double Not_A_Number = ''nan''"
| "show_double (Finite x) =
     (if x = 0 then ''0''
      else
        let (m, e) = six_digits x; d = decimal m
        in if 0 \<le> e \<and> e < 6 then with_point (take (nat e + 1) d) (drop (nat e + 1) d)
           else if - 4 \<le> e \<and> e < 0 then with_point ''0'' (replicate (nat (- e) - 1) (digit 0) @ d)
           else with_point (take 1 d) (drop 1 d) @ exponent_text e)"

section \<open>Correct rounding\<close>

lemma decimal_length:
  assumes "0 < n"
  shows "10 ^ (length (decimal n) - 1) \<le> n" and "n < 10 ^ length (decimal n)" and "0 < length (decimal n)"
proof -
  have "0 < length (decimal n) \<and> (0 < n \<longrightarrow> 10 ^ (length (decimal n) - 1) \<le> n) \<and> n < 10 ^ length (decimal n)"
  proof (induction n rule: decimal.induct)
    case (1 n)
    show ?case
    proof (cases "n < 10")
      case True
      then show ?thesis by (simp add: decimal.simps [of n])
    next
      case False
      with 1 have IH: "0 < length (decimal (n div 10))" "10 ^ (length (decimal (n div 10)) - 1) \<le> n div 10"
          "n div 10 < 10 ^ length (decimal (n div 10))" by auto
      then obtain l where l: "length (decimal (n div 10)) = Suc l" by (cases "length (decimal (n div 10))") auto
      have "length (decimal n) = Suc (Suc l)" using False l by (simp add: decimal.simps [of n])
      moreover have "n = 10 * (n div 10) + n mod 10" and "n mod 10 < 10" by simp_all
      then have "10 * 10 ^ l \<le> n" and "n < 10 * (10 * 10 ^ l)" using IH(2,3) unfolding l by simp_all
      ultimately show ?thesis by simp
    qed
  qed
  then show "10 ^ (length (decimal n) - 1) \<le> n" and "n < 10 ^ length (decimal n)"
    and "0 < length (decimal n)" using assms by simp_all
qed

lemma pow10_pos [simp]: "0 < (10 :: rat) powi e"
  by (rule zero_less_power_int) simp

lemma pow10_le_iff: "(10 :: rat) powi d \<le> 10 powi e \<longleftrightarrow> d \<le> e"
proof
  show "d \<le> e" if "(10 :: rat) powi d \<le> 10 powi e"
    using that power_int_strict_increasing [of e d "10 :: rat"]
    by (meson linorder_not_le one_less_numeral_iff semiring_norm(76))
qed (simp add: power_int_increasing)

lemma decimal_powi:
  assumes "0 < n"
  shows "10 powi (int (length (decimal n)) - 1) \<le> (of_nat n :: rat)"
    and "(of_nat n :: rat) < 10 powi (int (length (decimal n)))"
proof -
  note b = decimal_length [OF assms]
  have "(10 :: rat) powi (int (length (decimal n)) - 1) = of_nat (10 ^ (length (decimal n) - 1))"
    using b(3) by (simp add: power_int_def nat_diff_distrib)
  moreover have "(10 :: rat) powi (int (length (decimal n))) = of_nat (10 ^ length (decimal n))"
    by (simp add: power_int_def)
  ultimately show "10 powi (int (length (decimal n)) - 1) \<le> (of_nat n :: rat)"
    and "(of_nat n :: rat) < 10 powi (int (length (decimal n)))"
    using b(1,2) by (simp_all only: of_nat_le_iff of_nat_less_iff)
qed

lemma decade_bounds:
  assumes "0 < x"
  shows "10 powi (decade x) \<le> x" and "x < 10 powi (decade x + 1)"
proof -
  obtain p q where pq: "quotient_of x = (p, q)" by fastforce
  have q: "0 < q" using pq by (rule quotient_of_denom_pos)
  have xpq: "x = of_int p / of_int q" using pq by (rule quotient_of_div)
  with assms q have p: "0 < p" by (simp add: zero_less_divide_iff)
  have x: "x = of_nat (nat p) / of_nat (nat q)" using p q xpq by simp
  let ?lp = "int (length (decimal (nat p)))" and ?lq = "int (length (decimal (nat q)))"
  have np: "0 < nat p" and nq: "0 < nat q" using p q by simp_all
  have "x < 10 powi ?lp / 10 powi (?lq - 1)"
    unfolding x by (rule frac_less) (use p q decimal_powi [OF np] decimal_powi [OF nq] in auto)
  also have "\<dots> = 10 powi (?lp - ?lq + 1)" by (simp add: power_int_diff power_int_add)
  finally have u: "x < 10 powi (?lp - ?lq + 1)" .
  have "10 powi (?lp - 1) / 10 powi ?lq \<le> x"
    unfolding x using np nq decimal_powi [OF np] decimal_powi [OF nq]
    by (intro frac_le) (auto intro: less_imp_le)
  then have l: "10 powi (?lp - ?lq - 1) \<le> x" by (simp add: power_int_diff power_int_add)
  show "10 powi (decade x) \<le> x" and "x < 10 powi (decade x + 1)"
    using u l by (auto simp: decade_def pq Let_def)
qed

text \<open>The digits and the exponent differ from the number by at most half a unit of the sixth digit.\<close>

lemma six_digits_spec:
  assumes "0 < x" and "six_digits x = (m, e)"
  shows "100000 \<le> m \<and> m < 1000000 \<and> \<bar>x - of_nat m * 10 powi (e - 5)\<bar> \<le> 10 powi (e - 5) / 2"
proof -
  let ?d = "decade x"
  let ?u = "10 powi (?d - 5) :: rat"
  let ?r = "round_half_even (x / ?u)"
  have u: "0 < ?u" by simp
  have lo: "100000 * ?u \<le> x" and hi: "x < 1000000 * ?u"
    using decade_bounds [OF assms(1)]
    by (simp_all add: power_int_diff power_int_add)
  have "100000 \<le> x / ?u" and "x / ?u \<le> 1000000" using lo hi u by (simp_all add: field_simps)
  then have r: "100000 \<le> ?r" "?r \<le> 1000000"
    using round_half_even_mono [of "of_int 100000" "x / ?u"] round_half_even_mono [of "x / ?u" "of_int 1000000"]
      round_half_even_of_int [of 100000] round_half_even_of_int [of 1000000] by simp_all
  have "\<bar>of_int ?r - x / ?u\<bar> * ?u \<le> 1 / 2 * ?u"
    by (rule mult_right_mono [OF round_half_even_near]) (use u in simp)
  then have near: "\<bar>x - of_int ?r * ?u\<bar> \<le> ?u / 2"
    using u by (simp add: abs_if field_simps split: if_splits)
  show ?thesis
  proof (cases "nat ?r = 1000000")
    case True
    then have me: "m = 100000" "e = ?d + 1" and full: "?r = 1000000"
      using assms(2) r by (auto simp: six_digits_def Let_def)
    have ten: "10 powi (e - 5) = 10 * ?u"
      using me(2) power_int_add [of "10 :: rat" 1 "?d - 5"] by (simp add: algebra_simps)
    have "\<bar>x - of_nat m * 10 powi (e - 5)\<bar> \<le> ?u / 2"
      using near full me(1) unfolding ten by simp
    also have "\<dots> \<le> 10 powi (e - 5) / 2" using u unfolding ten by simp
    finally show ?thesis using me(1) by simp
  next
    case False
    then have me: "m = nat ?r" "e = ?d" using assms(2) by (auto simp: six_digits_def Let_def)
    moreover have "?r < 1000000" using False r by linarith
    ultimately show ?thesis using near r by auto
  qed
qed

lemma decade_unique:
  assumes "10 powi e \<le> x" and "x < 10 powi (e + 1)"
  shows "decade x = e"
proof -
  have "0 < x" using assms(1) pow10_pos [of e] by linarith
  note b = decade_bounds [OF this]
  have "10 powi e < (10 :: rat) powi (decade x + 1)" and "10 powi (decade x) < (10 :: rat) powi (e + 1)"
    using assms b by linarith+
  then show ?thesis by (simp add: less_le_not_le pow10_le_iff) 
qed

lemma decimal_shift: "0 < n \<Longrightarrow> decimal (n * 10 ^ k) = decimal n @ replicate k (digit 0)"
proof (induction k)
  case (Suc k)
  have "10 \<le> n * 10 ^ Suc k" using Suc.prems by (simp add: Suc_le_eq)
  then have "decimal (n * 10 ^ Suc k) = decimal (n * 10 ^ k) @ [digit 0]"
    by (subst decimal.simps) simp
  with Suc show ?case by (simp add: replicate_append_same)
qed simp

lemma drop_zeros_replicate [simp]: "drop_zeros (replicate k (digit 0)) = []"
  by (simp add: drop_zeros_def)

lemma six_digits_exact:
  assumes "decade x = e" and "x = of_nat m * 10 powi (e - 5)" and "m < 1000000"
  shows "six_digits x = (m, e)"
proof -
  have "x / 10 powi (e - 5) = of_int (int m)" unfolding assms(2) by simp
  then have "round_half_even (x / 10 powi (e - 5)) = int m" by (simp only: round_half_even_of_int)
  then show ?thesis using assms(1,3) by (simp add: six_digits_def Let_def)
qed

lemma six_digits_nat:
  assumes "0 < n" and "n < 1000000"
  shows "length (decimal n) \<le> 6"
    and "six_digits (of_nat n) = (n * 10 ^ (6 - length (decimal n)), int (length (decimal n)) - 1)"
proof -
  let ?l = "length (decimal n)"
  have "(10 :: nat) ^ (?l - 1) < 10 ^ 6" using decimal_length(1) [OF assms(1)] assms(2) by simp
  then have "?l - 1 < 6" by (rule power_less_imp_less_exp [rotated]) simp
  then show l: "?l \<le> 6" by simp
  have "n * 10 ^ (6 - ?l) < 10 ^ ?l * 10 ^ (6 - ?l)" using decimal_length(2) [OF assms(1)] by simp
  also have "\<dots> = 10 ^ 6" using l by (simp flip: power_add)
  finally have small: "n * 10 ^ (6 - ?l) < 1000000" by simp
  have e: "int ?l - 1 - 5 = - int (6 - ?l)" using l by simp
  show "six_digits (of_nat n) = (n * 10 ^ (6 - ?l), int ?l - 1)"
  proof (rule six_digits_exact [OF _ _ small])
    show "decade (of_nat n) = int ?l - 1"
      by (rule decade_unique) (use decimal_powi [OF assms(1)] in simp_all)
    show "of_nat n = of_nat (n * 10 ^ (6 - ?l)) * (10 :: rat) powi (int ?l - 1 - 5)"
      unfolding e by (simp add: power_int_minus)
  qed
qed

lemma show_double_nat:
  assumes "n < 1000000"
  shows "show_double (Finite (of_nat n)) = decimal n"
proof (cases "n = 0")
  case True
  have "decimal 0 = ''0''" by code_simp
  with True show ?thesis by simp
next
  case False
  then have n: "0 < n" by simp
  have "int (length (decimal n)) - 1 = int (length (decimal n) - 1)" using decimal_length(3) [OF n] by linarith
  then show ?thesis
    using False decimal_length(3) [OF n] six_digits_nat(1) [OF n assms]
    by (simp add: six_digits_nat(2) [OF n assms] decimal_shift [OF n] with_point_def del: of_nat_diff)
qed

lemma show_double_examples:
  "show_double (Finite (3 / 2)) = ''1.5''" "show_double (Finite 1000000) = ''1e+06''"
  "show_double (Finite (1 / 80)) = ''0.0125''"
proof -
  have d: "decade (3 / 2) = 0" "decade 1000000 = 6" "decade (1 / 80) = - 2"
    by (rule decade_unique; simp add: power_int_def power_one_over)+
  have "six_digits (3 / 2) = (150000, 0)"
    by (rule six_digits_exact [OF d(1)]) (simp_all add: power_int_def power_one_over)
  moreover have "six_digits 1000000 = (100000, 6)"
    by (rule six_digits_exact [OF d(2)]) (simp_all add: power_int_def)
  moreover have "six_digits (1 / 80) = (125000, - 2)"
    by (rule six_digits_exact [OF d(3)]) (simp_all add: power_int_def power_one_over)
  moreover have digits: "char_of (48 :: nat) = CHR ''0''" "char_of (49 :: nat) = CHR ''1''"
      "char_of (50 :: nat) = CHR ''2''" "char_of (53 :: nat) = CHR ''5''" "char_of (54 :: nat) = CHR ''6''"
    by code_simp+
  then have "decimal 150000 = ''150000''" and "decimal 100000 = ''100000''" and "decimal 6 = ''6''"
      "decimal 125000 = ''125000''" "digit 0 = CHR ''0''"
    by (simp_all add: decimal.simps digit_def)
  ultimately show "show_double (Finite (3 / 2)) = ''1.5''" "show_double (Finite 1000000) = ''1e+06''"
    "show_double (Finite (1 / 80)) = ''0.0125''"
    by (simp_all add: with_point_def drop_zeros_def exponent_text_def numeral_2_eq_2)
qed


section \<open>Parts of a report\<close>

definition counter_line :: "string \<Rightarrow> u64 \<Rightarrow> string" where
  "counter_line label n = label @ decimal (unat n) @ newline"

definition timing_lines :: "u64 \<Rightarrow> u64 \<Rightarrow> string" where
  "timing_lines n duration =
     ''Total Time: '' @ show_double (Finite (dbl (u64_double duration / 1000000000))) @ '' seconds'' @ newline @
     ''Throughput: '' @ show_double (scaled (\<lambda>x. x / 1000000) (throughput_msg_per_sec n duration)) @
     '' M msg/sec'' @ newline"

text \<open>The pieces of a report one after the other: undefined behaviour in one is undefined behaviour.\<close>

fun pieces :: "string cpp list \<Rightarrow> string cpp" where
  "pieces [] = Inr []"
| "pieces (p # ps) = cpp_bind p (\<lambda>s. cpp_map (\<lambda>t. s @ t) (pieces ps))"

definition latency_section :: "string \<Rightarrow> string \<Rightarrow> latency_recorder \<Rightarrow> string cpp" where
  "latency_section title what r =
     cpp_map (\<lambda>s. newline @ title @ newline @ what @ newline @ s) (print_summary r)"

definition pool_lines :: "pooled_book \<Rightarrow> string" where
  "pool_lines b = counter_line ''Pool Allocations: '' (pool_allocations b) @
     counter_line ''Pool Deallocations: '' (pool_deallocations b) @
     counter_line ''Pool Available: '' (of_nat (pooled_available b)) @
     counter_line ''Pool Exhaustions: '' (pool_exhaustions b)"

definition results_title :: string where
  "results_title = newline @ ''=== Benchmark Results ==='' @ newline"

definition state_title :: string where
  "state_title = ''=== Final Order Book State ==='' @ newline"

section \<open>The reports\<close>

definition single_thread_report :: "u64 \<Rightarrow> u64 \<Rightarrow> order_book bench \<Rightarrow> string cpp" where
  "single_thread_report num_messages duration s = pieces
     [Inr (results_title @ counter_line ''Total Messages: '' num_messages @
        timing_lines num_messages duration),
      print_summary (bench_latency s),
      Inr (state_title @ base_report (bench_book s))]"

definition run_case_head :: "string \<Rightarrow> nat \<Rightarrow> u64 \<Rightarrow> string" where
  "run_case_head name message_count duration = newline @ ''=== '' @ name @ '' ==='' @ newline @
     counter_line ''Messages: '' (of_nat message_count) @ timing_lines (of_nat message_count) duration"

definition run_case_report ::
  "string \<Rightarrow> nat \<Rightarrow> u64 \<Rightarrow> ('b \<Rightarrow> string) \<Rightarrow> ('b \<Rightarrow> string) \<Rightarrow> 'b bench \<Rightarrow> string cpp" where
  "run_case_report name message_count duration after_run final_state s = pieces
     [Inr (run_case_head name message_count duration),
      print_summary (bench_latency s),
      Inr (after_run (bench_book s) @ final_state (bench_book s))]"

definition memory_pool_reports ::
  "nat \<Rightarrow> order_book bench \<times> u64 \<Rightarrow> pooled_book bench \<times> u64 \<Rightarrow> string cpp" where
  "memory_pool_reports message_count base pooled = pieces
     [run_case_report ''OrderBook Baseline'' message_count (snd base) (\<lambda>_. []) base_report (fst base),
      run_case_report ''PooledOrderBook'' message_count (snd pooled) pool_lines pooled_report (fst pooled)]"

definition batch_head :: "nat \<Rightarrow> u64 \<Rightarrow> u64 \<Rightarrow> string" where
  "batch_head batch_size num_messages duration =
     newline @ ''=== Batch Size '' @ decimal batch_size @ '' ==='' @ newline @
     timing_lines num_messages duration"

definition batch_book_lines :: "order_book \<Rightarrow> string" where
  "batch_book_lines b = counter_line ''Total Orders in Book: '' (total_orders b) @
     ''Buy Side Levels: '' @ decimal (unat (buy_side_levels b)) @ newline @
     ''Sell Side Levels: '' @ decimal (unat (sell_side_levels b)) @ newline"

definition batch_report :: "nat \<Rightarrow> u64 \<Rightarrow> u64 \<Rightarrow> order_book bench \<Rightarrow> string cpp" where
  "batch_report batch_size num_messages duration s = pieces
     [Inr (batch_head batch_size num_messages duration),
      print_summary (bench_latency s),
      Inr (batch_book_lines (bench_book s))]"

definition pipeline_counters :: "u64 \<Rightarrow> 'b pipeline \<Rightarrow> string" where
  "pipeline_counters duration s = results_title @
     counter_line ''Produced: '' (produced s) @ counter_line ''Consumed: '' (consumed s) @
     timing_lines (consumed s) duration @
     counter_line ''Producer Spins: '' (producer_spins s) @
     counter_line ''Consumer Spins: '' (consumer_spins s) @
     counter_line ''Producer CPU Migrations: '' (producer_migrations s) @
     counter_line ''Consumer CPU Migrations: '' (consumer_migrations s)"

definition queue_latencies ::
  "string \<Rightarrow> latency_recorder \<Rightarrow> latency_recorder \<Rightarrow> latency_recorder \<Rightarrow> string cpp" where
  "queue_latencies book_class pipe wait processing = pieces
     [latency_section ''=== Pipeline Latency ===''
        ''producer timestamp -> consumer finished processing'' pipe,
      latency_section ''=== Queue Wait / Residence Time ===''
        ''producer push timestamp -> consumer pop timestamp'' wait,
      latency_section ''=== Book Processing Latency ===''
        (''before '' @ book_class @ ''::on_message() -> after '' @ book_class @ ''::on_message()'') processing]"

definition spsc_report :: "u64 \<Rightarrow> order_book pipeline \<Rightarrow> string cpp" where
  "spsc_report duration s = pieces
     [Inr (pipeline_counters duration s),
      queue_latencies ''OrderBook'' (pipeline_time s) (queue_wait s) (book_time s),
      Inr (state_title @ base_report (final_book s))]"

definition spsc_pooled_report :: "u64 \<Rightarrow> pooled_book pipeline \<Rightarrow> string cpp" where
  "spsc_pooled_report duration s = pieces
     [Inr (pipeline_counters duration s @ pool_lines (final_book s)),
      queue_latencies ''PooledOrderBook'' (pipeline_time s) (queue_wait s) (book_time s),
      Inr (state_title @ pooled_report (final_book s))]"

definition producer_consumer_report :: "u64 \<Rightarrow> order_book blocking_pipeline \<Rightarrow> string cpp" where
  "producer_consumer_report duration s = pieces
     [Inr (results_title @
        counter_line ''Produced: '' (bproduced s) @ counter_line ''Consumed: '' (bconsumed s) @
        timing_lines (bconsumed s) duration @
        counter_line ''Producer CPU Migrations: '' (bproducer_migrations s) @
        counter_line ''Consumer CPU Migrations: '' (bconsumer_migrations s)),
      queue_latencies ''OrderBook'' (bpipeline_time s) (bqueue_wait s) (bbook_time s),
      Inr (state_title @ base_report (bbook s))]"

definition feed_latencies :: "'b feed_consumer \<Rightarrow> string cpp" where
  "feed_latencies s = pieces
     [latency_section ''=== Network To Book Latency ===''
        ''producer send timestamp -> before OrderBook::on_message()'' (fc_network s),
      latency_section ''=== Book Processing Latency ===''
        ''before OrderBook::on_message() -> after OrderBook::on_message()'' (fc_processing s)]"

definition tcp_report :: "u64 \<Rightarrow> feed_producer \<Rightarrow> order_book feed_consumer \<Rightarrow> string cpp" where
  "tcp_report duration p s = pieces
     [Inr (results_title @
        counter_line ''Produced: '' (fp_produced p) @ counter_line ''Consumed: '' (fc_consumed s) @
        timing_lines (fc_consumed s) duration @
        counter_line ''Producer CPU Migrations: '' (fp_migrations p) @
        counter_line ''Consumer CPU Migrations: '' (fc_migrations s)),
      feed_latencies s,
      Inr (state_title @ base_report (fc_book s))]"

definition udp_report :: "u64 \<Rightarrow> feed_producer \<Rightarrow> order_book feed_consumer \<Rightarrow> string cpp" where
  "udp_report duration p s = pieces
     [Inr (results_title @
        counter_line ''Produced: '' (fp_produced p) @ counter_line ''Consumed: '' (fc_consumed s) @
        counter_line ''Dropped/Unreceived: '' (dropped p s) @
        timing_lines (fc_consumed s) duration @
        counter_line ''Producer CPU Migrations: '' (fp_migrations p) @
        counter_line ''Consumer CPU Migrations: '' (fc_migrations s)),
      feed_latencies s,
      Inr (state_title @ base_report (fc_book s))]"

text \<open>The case of the false-sharing benchmark; the operations are counted as a double.\<close>

definition sharing_times :: "u64 \<Rightarrow> u64 \<Rightarrow> string" where
  "sharing_times iterations duration =
     (let total_operations = dbl (u64_double iterations * 2);
          throughput = scaled (\<lambda>x. x * 1000000000) (quotient total_operations (u64_double duration))
      in ''Total Time: '' @ show_double (Finite (dbl (u64_double duration / 1000000000))) @ '' seconds'' @
         newline @
         ''Throughput: '' @ show_double (scaled (\<lambda>x. x / 1000000) throughput) @ '' M increments/sec'' @
         newline)"

definition sharing_report ::
  "string \<Rightarrow> u64 \<Rightarrow> u64 \<Rightarrow> 'c accessor \<Rightarrow> 'c accessor \<Rightarrow> 'c sharing \<Rightarrow> string" where
  "sharing_report name iterations duration first_accessor second_accessor s =
     newline @ ''=== '' @ name @ '' ==='' @ newline @
     counter_line ''Iterations per thread: '' iterations @ sharing_times iterations duration @
     counter_line ''First Counter: '' (ref_load first_accessor (sh_counters s)) @
     counter_line ''Second Counter: '' (ref_load second_accessor (sh_counters s)) @
     counter_line ''First CPU Migrations: '' (st_migrations (sh_first s)) @
     counter_line ''Second CPU Migrations: '' (st_migrations (sh_second s))"

section \<open>Banners\<close>

definition setting_line :: "string \<Rightarrow> int \<Rightarrow> string" where
  "setting_line label i = label @ decimal_int i @ newline"

definition queue_banner :: "string \<Rightarrow> string \<Rightarrow> queue_settings \<Rightarrow> string" where
  "queue_banner title after_capacity cfg = title @ newline @
     counter_line ''Messages: '' (qs_num_messages cfg) @
     counter_line ''Queue Capacity: '' (qs_queue_capacity cfg) @ after_capacity @
     setting_line ''Producer CPU: '' (qs_producer_cpu cfg) @
     setting_line ''Consumer CPU: '' (qs_consumer_cpu cfg)"

definition spsc_banner :: "queue_settings \<Rightarrow> string" where
  "spsc_banner cfg = queue_banner ''=== SPSC Ring Buffer Order Book Benchmark ==='' [] cfg"

definition spsc_pooled_banner :: "queue_settings \<times> u64 \<Rightarrow> string" where
  "spsc_pooled_banner cfg = queue_banner ''=== SPSC Ring Buffer Pooled Order Book Benchmark ===''
     (counter_line ''Pool Capacity: '' (snd cfg)) (fst cfg)"

definition producer_consumer_banner :: "queue_settings \<Rightarrow> string" where
  "producer_consumer_banner cfg = queue_banner ''=== Producer-Consumer Order Book Benchmark ==='' [] cfg"

definition tcp_banner :: "feed_settings \<times> bool \<Rightarrow> string" where
  "tcp_banner cfg = ''=== TCP Feed Order Book Benchmark ==='' @ newline @
     counter_line ''Messages: '' (fs_num_messages (fst cfg)) @
     ''TCP_NODELAY: '' @ (if snd cfg then ''on'' else ''off'') @ newline @
     setting_line ''SO_SNDBUF: '' (fs_send_buffer_bytes (fst cfg)) @
     setting_line ''SO_RCVBUF: '' (fs_receive_buffer_bytes (fst cfg)) @
     setting_line ''Producer CPU: '' (fs_producer_cpu (fst cfg)) @
     setting_line ''Consumer CPU: '' (fs_consumer_cpu (fst cfg))"

definition udp_banner :: "feed_settings \<times> int \<Rightarrow> string" where
  "udp_banner cfg = ''=== UDP Feed Order Book Benchmark ==='' @ newline @
     counter_line ''Messages: '' (fs_num_messages (fst cfg)) @
     setting_line ''SO_SNDBUF: '' (fs_send_buffer_bytes (fst cfg)) @
     setting_line ''SO_RCVBUF: '' (fs_receive_buffer_bytes (fst cfg)) @
     setting_line ''Producer CPU: '' (fs_producer_cpu (fst cfg)) @
     setting_line ''Consumer CPU: '' (fs_consumer_cpu (fst cfg)) @
     ''Receive Timeout: '' @ decimal_int (snd cfg) @ '' ms'' @ newline"

definition sharing_banner :: "sharing_settings \<Rightarrow> string" where
  "sharing_banner cfg = ''=== False Sharing Benchmark ==='' @ newline @
     counter_line ''Iterations per thread: '' (ss_iterations cfg) @
     setting_line ''First CPU: '' (ss_first_cpu cfg) @ setting_line ''Second CPU: '' (ss_second_cpu cfg)"

definition memory_pool_banner :: "u64 \<times> u64 \<Rightarrow> string" where
  "memory_pool_banner cfg = ''=== Memory Pool Order Book Benchmark ==='' @ newline @
     counter_line ''Messages: '' (fst cfg) @ counter_line ''Pool Capacity: '' (snd cfg)"

definition batching_banner :: "u64 \<Rightarrow> string" where
  "batching_banner num_messages = ''=== Batching Order Book Benchmark ==='' @ newline @
     counter_line ''Messages: '' num_messages @
     ''Latency metric: amortized batch processing time per message'' @ newline"

end
