(* ===== verification/Programs.thy ===== *)
theory Programs
  imports Reports
begin

text \<open>
  \<open>main\<close> of the programs of one thread, from the arguments to the whole output:
  \<open>benchmark_single_thread.cpp\<close>, \<open>benchmark_memory_pool.cpp\<close> and \<open>benchmark_batching.cpp\<close>. The clock
  is the sequence of the readings of one measurement; a steady clock never goes back.
\<close>

section \<open>Whole programs of one thread\<close>

text \<open>The left side is the exception an argument raises: it ends the program before any output.\<close>

definition single_thread_banner :: "u64 \<Rightarrow> nat \<Rightarrow> string" where
  "single_thread_banner num_messages message_count =
     ''=== Single-Thread Order Book Benchmark ==='' @ newline @
     ''Generating '' @ decimal (unat num_messages) @ '' messages...'' @ newline @
     ''Generated '' @ decimal message_count @ '' messages.'' @ newline @
     ''Warm-up complete.'' @ newline"

definition single_thread_main ::
  "(u64 \<Rightarrow> u64) \<Rightarrow> (nat \<Rightarrow> u64) \<Rightarrow> string list \<Rightarrow> parse_error + string cpp" where
  "single_thread_main wall clock argv =
     and_then (single_thread_settings argv) (\<lambda>num_messages.
       let messages = generated wall num_messages (map of_char ''AAPL'')
       in Inr (cpp_bind (single_thread on_message clock messages empty_book) (\<lambda>(s, duration).
            cpp_map (\<lambda>report. single_thread_banner num_messages (length messages) @ report)
              (single_thread_report num_messages duration s))))"

definition memory_pool_main ::
  "(u64 \<Rightarrow> u64) \<Rightarrow> (nat \<Rightarrow> u64) \<Rightarrow> (nat \<Rightarrow> u64) \<Rightarrow> u64 \<Rightarrow> string list \<Rightarrow> parse_error + string cpp" where
  "memory_pool_main wall clock1 clock2 base argv =
     and_then (memory_pool_settings argv) (\<lambda>cfg.
       let (baseline, pooled) = memory_pool_benchmark wall clock1 clock2 base (fst cfg) (snd cfg);
           message_count = length (generated wall (fst cfg) (map of_char ''AAPL''))
       in Inr (cpp_bind baseline (\<lambda>b. cpp_bind pooled (\<lambda>p.
            cpp_map (\<lambda>report. memory_pool_banner cfg @ report)
              (memory_pool_reports message_count b p)))))"

text \<open>The cases one after the other: one that does not end is the end of the program.\<close>

fun cases_in_turn :: "('a \<Rightarrow> string cpp) \<Rightarrow> 'a cpp option list \<Rightarrow> string cpp option" where
  "cases_in_turn report [] = Some (Inr [])"
| "cases_in_turn report (None # cs) = None"
| "cases_in_turn report (Some c # cs) =
     (case cpp_bind c report of
        Inl e \<Rightarrow> Some (Inl e)
      | Inr s \<Rightarrow> map_option (cpp_map (\<lambda>t. s @ t)) (cases_in_turn report cs))"

definition batching_main ::
  "(u64 \<Rightarrow> u64) \<Rightarrow> (nat \<Rightarrow> nat \<Rightarrow> u64) \<Rightarrow> string list \<Rightarrow> parse_error + string cpp option" where
  "batching_main wall clock argv =
     and_then (batching_settings argv) (\<lambda>num_messages.
       let messages = generated wall num_messages (map of_char ''AAPL'')
       in Inr (map_option (cpp_map (\<lambda>reports. batching_banner num_messages @ reports))
            (cases_in_turn (\<lambda>(batch_size, s, duration). batch_report batch_size num_messages duration s)
              (map (\<lambda>(batch_size, c). map_option (cpp_map (\<lambda>r. (batch_size, r))) c)
                (zip default_batch_sizes (batching_benchmark clock messages))))))"

section \<open>A steady clock\<close>

lemma timed_loop_times:
  "timed_loop on_msg clock msgs s = Inr s' \<Longrightarrow>
   bench_reads s' = bench_reads s + 2 * length msgs \<and>
   samples (bench_latency s') = samples (bench_latency s) @
     map (\<lambda>i. clock (bench_reads s + 2 * i + 1) - clock (bench_reads s + 2 * i)) [0..<length msgs]"
proof (induction msgs arbitrary: s)
  case (Cons msg msgs)
  from Cons.prems obtain t where t: "timed_message on_msg clock msg s = Inr t"
      "timed_loop on_msg clock msgs t = Inr s'"
    by (auto simp: cpp_bind_Inr_iff)
  then have "bench_reads t = bench_reads s + 2"
      "samples (bench_latency t) =
       samples (bench_latency s) @ [clock (bench_reads s + 1) - clock (bench_reads s)]"
    by (auto simp: timed_message_def Let_def cpp_map_Inr_iff recorder_record_def)
  with Cons.IH [OF t(2)] show ?case
    by (simp add: upt_rec [of 0 "Suc (length msgs)"] map_Suc_upt [symmetric] del: upt_Suc)
qed simp

lemma steady_samples:
  assumes "\<And>i j. i \<le> j \<Longrightarrow> clock i \<le> (clock j :: u64)"
  shows "sum_list (map (unat \<circ> (\<lambda>i. clock (r + 2 * i + 1) - clock (r + 2 * i))) [0..<n]) \<le>
    unat (clock (r + 2 * n)) - unat (clock r)"
proof (induction n)
  case (Suc n)
  have "unat (clock (r + 2 * n + 1) - clock (r + 2 * n)) = unat (clock (r + 2 * n + 1)) - unat (clock (r + 2 * n))"
    by (rule unat_sub) (rule assms, simp)
  moreover have "unat (clock (r + 2 * n + 1)) \<le> unat (clock (r + 2 * Suc n))" and "unat (clock r) \<le> unat (clock (r + 2 * n))"
    and "unat (clock (r + 2 * n)) \<le> unat (clock (r + 2 * n + 1))"
    using assms by (simp_all add: word_le_nat_alt)
  ultimately show ?case using Suc by simp
qed simp


lemma timed_summary:
  assumes "timed_loop on_msg clock msgs ((bench_new b)\<lparr>bench_reads := 1\<rparr>) = Inr s"
    and "length msgs \<le> 2 ^ 53" and steady: "\<And>i j. i \<le> j \<Longrightarrow> clock i \<le> clock j"
    and short: "unat (clock (2 * length msgs + 1)) - unat (clock 0) \<le> 2 ^ 50"
  shows "bench_reads s = 2 * length msgs + 1"
    and "length (samples (bench_latency s)) = length msgs"
    and "\<exists>summary. print_summary (bench_latency s) = Inr summary"
proof -
  have times: "map unat (samples (bench_latency s)) =
      map (unat \<circ> (\<lambda>i. clock (1 + 2 * i + 1) - clock (1 + 2 * i))) [0..<length msgs]"
    and "bench_reads s = 2 * length msgs + 1" and "length (samples (bench_latency s)) = length msgs"
    using timed_loop_times [OF assms(1)] by (simp_all add: bench_new_def recorder_new_def comp_def)
  then show "bench_reads s = 2 * length msgs + 1" and len: "length (samples (bench_latency s)) = length msgs"
    by simp_all
  have "unat (clock (1 + 2 * length msgs)) - unat (clock 1) \<le> 2 ^ 50"
    using short steady [of 0 1] by (simp add: word_le_nat_alt)
  then have total: "sum_list (map unat (samples (bench_latency s))) \<le> 2 ^ 50"
    using steady_samples [where clock = clock and r = 1 and n = "length msgs", OF steady]
    unfolding times by linarith
  then have "\<forall>x \<in> set (samples (bench_latency s)). unat x \<le> 2 ^ 50"
    using member_le_sum_list [of _ "map unat (samples (bench_latency s))"] by fastforce
  then show "\<exists>summary. print_summary (bench_latency s) = Inr summary"
    using print_summary_defined [of "bench_latency s"] total len assms(2) by fastforce
qed

section \<open>Batches under a steady clock\<close>

lemma record_times_total:
  "sum_list (map unat (samples (record_times n v r))) = sum_list (map unat (samples r)) + n * unat v"
  by (simp add: record_times_samples sum_list_replicate)

lemma unat_at_least_one: "p < 2 ^ 64 \<Longrightarrow> unat (max (of_nat p) 1 :: u64) = max p 1"
  by (simp add: max_def word_le_nat_alt unat_of_nat take_bit_nat_eq_self)

lemma shared_out: "p * (a div max p 1) \<le> (a :: nat)"
  by (cases p) (simp_all add: max_def times_div_less_eq_dividend del: mult_Suc)

lemma run_batch_time:
  assumes run: "run_batch on_msg clock msgs n start s = Inr s'"
    and steady: "\<And>i j. i \<le> j \<Longrightarrow> clock i \<le> clock j" and "length msgs < 2 ^ 64"
  shows "bench_reads s' = bench_reads s + 2"
    and "sum_list (map unat (samples (bench_latency s'))) + unat (clock (bench_reads s)) \<le>
      sum_list (map unat (samples (bench_latency s))) + unat (clock (bench_reads s'))"
proof -
  let ?t = "clock (bench_reads s + 1) - clock (bench_reads s)"
  let ?p = "min (start + n) (length msgs) - start"
  show reads: "bench_reads s' = bench_reads s + 2"
    using run by (auto simp: run_batch_def Let_def cpp_map_Inr_iff)
  have total: "sum_list (map unat (samples (bench_latency s'))) =
      sum_list (map unat (samples (bench_latency s))) + ?p * unat (?t div max (of_nat ?p) 1)"
    using run by (auto simp: run_batch_def Let_def cpp_map_Inr_iff record_times_total)
  have "?p < 2 ^ 64" using assms(3) by linarith
  then have "unat (max (of_nat ?p) 1 :: u64) = max ?p 1" by (rule unat_at_least_one)
  then have "?p * unat (?t div max (of_nat ?p) 1) \<le> unat ?t"
    by (simp only: unat_div shared_out)
  moreover have "unat ?t = unat (clock (bench_reads s + 1)) - unat (clock (bench_reads s))"
    by (rule unat_sub) (rule steady, simp)
  moreover have "unat (clock (bench_reads s)) \<le> unat (clock (bench_reads s + 1))"
      "unat (clock (bench_reads s + 1)) \<le> unat (clock (bench_reads s'))"
    using steady reads by (simp_all add: word_le_nat_alt)
  ultimately show "sum_list (map unat (samples (bench_latency s'))) + unat (clock (bench_reads s)) \<le>
      sum_list (map unat (samples (bench_latency s))) + unat (clock (bench_reads s'))"
    unfolding total by linarith
qed

lemma batch_loop_time:
  assumes "0 < n" and "batch_loop on_msg clock msgs n start s = Some (Inr s')"
    and steady: "\<And>i j. i \<le> j \<Longrightarrow> clock i \<le> clock j" and len: "length msgs < 2 ^ 64"
  shows "bench_reads s' \<le> bench_reads s + 2 * (length msgs - start) \<and>
     sum_list (map unat (samples (bench_latency s'))) + unat (clock (bench_reads s)) \<le>
     sum_list (map unat (samples (bench_latency s))) + unat (clock (bench_reads s'))"
  using assms(2)
proof (induction "length msgs - start" arbitrary: start s rule: less_induct)
  case less
  show ?case
  proof (cases "start < length msgs")
    case False
    with less.prems show ?thesis by (subst (asm) batch_loop.simps) simp
  next
    case True
    with less.prems obtain t where t: "run_batch on_msg clock msgs n start s = Inr t"
        "batch_loop on_msg clock msgs n (start + n) t = Some (Inr s')"
      by (subst (asm) batch_loop.simps) (simp split: sum.splits)
    have "length msgs - (start + n) < length msgs - start" using True assms(1) by simp
    from less.hyps [OF this t(2)] run_batch_time [OF t(1) steady len]
    show ?thesis using True assms(1) by linarith
  qed
qed

lemma cases_in_turn_ok:
  assumes "\<And>x. x \<in> set xs \<Longrightarrow> \<exists>a. f x = Some (Inr a) \<and> report a = Inr (out x)"
  shows "cases_in_turn report (map f xs) = Some (Inr (concat (map out xs)))"
  using assms
proof (induction xs)
  case (Cons x xs)
  from Cons.prems obtain a where "f x = Some (Inr a)" "report a = Inr (out x)" by auto
  with Cons show ?case by simp
qed simp

lemma zip_self_map: "zip xs (map f xs) = map (\<lambda>x. (x, f x)) xs"
  by (induction xs) simp_all

lemma batch_case_ok:
  assumes "0 < batch_size" and feed: "feed on_message msgs empty_book = Inr book0"
    and len: "length msgs \<le> 2 ^ 53" and steady: "\<And>i j. i \<le> j \<Longrightarrow> clock i \<le> clock j"
    and short: "unat (clock (2 * length msgs + 1)) - unat (clock 0) \<le> 2 ^ 50"
  shows "\<exists>s duration summary. batch_case clock msgs batch_size = Some (Inr (s, duration)) \<and>
     bench_book s = book0 \<and> length (samples (bench_latency s)) = length msgs \<and>
     print_summary (bench_latency s) = Inr summary"
proof -
  let ?s = "(bench_new empty_book)\<lparr>bench_reads := 1\<rparr>"
  obtain x where x: "batch_loop on_message clock msgs batch_size 0 ?s = Some x"
      "map_sum id (\<lambda>s. (bench_book s, length (samples (bench_latency s)))) x = Inr (book0, length msgs)"
    using batch_loop_feed [OF assms(1), of on_message clock msgs 0 ?s] feed
    by (auto simp: bench_new_def recorder_new_def)
  then obtain s where s: "batch_loop on_message clock msgs batch_size 0 ?s = Some (Inr s)"
      "bench_book s = book0" "length (samples (bench_latency s)) = length msgs"
    by (cases x) auto
  have "length msgs < 2 ^ 64" using len by simp
  from batch_loop_time [OF assms(1) s(1) steady this]
  have "bench_reads s \<le> 2 * length msgs + 1"
    and time: "sum_list (map unat (samples (bench_latency s))) \<le> unat (clock (bench_reads s)) - unat (clock 1)"
    by (simp_all add: bench_new_def recorder_new_def le_diff_conv2 add_le_imp_le_diff)
  from steady [OF this(1)] steady [of 0 1]
  have "unat (clock (bench_reads s)) \<le> unat (clock (2 * length msgs + 1))"
    and "unat (clock 0) \<le> unat (clock 1)" by (simp_all add: word_le_nat_alt)
  with time short have total: "sum_list (map unat (samples (bench_latency s))) \<le> 2 ^ 50" by linarith
  then have "\<forall>x \<in> set (samples (bench_latency s)). unat x \<le> 2 ^ 50"
    using member_le_sum_list [of _ "map unat (samples (bench_latency s))"] by fastforce
  then obtain summary where "print_summary (bench_latency s) = Inr summary"
    using print_summary_defined [of "bench_latency s"] total s(3) len by fastforce
  with s show ?thesis by (simp add: batch_case_def)
qed

section \<open>Properties\<close>

text \<open>
  Property C34. The single-thread program from its command line to its output: if the argument is a
  number, the clock is steady and the run takes at most 2^50 ns, the whole program has no undefined
  behaviour, prints its banner, the throughput, the summary of exactly one sample per message and the
  book of the warm-up prefix followed by the stream.
\<close>

theorem single_thread_main_prints:
  assumes "single_thread_settings argv = Inr n" and "unat n \<le> 2 ^ 53"
    and steady: "\<And>i j. i \<le> j \<Longrightarrow> clock i \<le> clock j"
    and short: "unat (clock (2 * unat n + 1)) - unat (clock 0) \<le> 2 ^ 50"
  shows "\<exists>(s :: order_book bench) summary. single_thread_main wall clock argv = Inr (Inr
       (single_thread_banner n (unat n) @ results_title @ counter_line ''Total Messages: '' n @
        timing_lines n (clock (2 * unat n + 1) - clock 0) @ summary @
        state_title @ base_report (bench_book s))) \<and>
     print_summary (bench_latency s) = Inr summary \<and>
     length (samples (bench_latency s)) = unat n \<and>
     book_rel (bench_book s) (spec_run (take 1000 (generated wall n (map of_char ''AAPL'')) @
       generated wall n (map of_char ''AAPL'')) [])"
proof -
  let ?ms = "generated wall n (map of_char ''AAPL'')"
  have len: "length ?ms = unat n" by (rule generated_ok(1))
  obtain s t where run: "single_thread on_message clock ?ms empty_book = Inr (s, t)"
      "length (samples (bench_latency s)) = unat n" "book_rel (bench_book s) (spec_run (take 1000 ?ms @ ?ms) [])"
    using single_thread_run [of clock wall n "map of_char ''AAPL''"] by blast
  then obtain b s' where loop: "timed_loop on_message clock ?ms ((bench_new b)\<lparr>bench_reads := 1\<rparr>) = Inr s'"
      and s: "s = s'\<lparr>bench_reads := bench_reads s' + 1\<rparr>" "t = clock (bench_reads s') - clock 0"
    by (auto simp: single_thread_def Let_def cpp_bind_Inr_iff cpp_map_Inr_iff)
  have reads: "bench_reads s' = 2 * unat n + 1"
    and "\<exists>summary. print_summary (bench_latency s') = Inr summary"
    using timed_summary [OF loop _ steady] assms(2) short unfolding len by blast+
  then obtain summary where summary: "print_summary (bench_latency s) = Inr summary"
    unfolding s(1) by auto
  have "t = clock (2 * unat n + 1) - clock 0" using s(2) reads by simp
  with run(1) have run': "single_thread on_message clock ?ms empty_book = Inr (s, clock (2 * unat n + 1) - clock 0)"
    by (simp only:)
  have "single_thread_main wall clock argv = Inr (Inr
       (single_thread_banner n (unat n) @ results_title @ counter_line ''Total Messages: '' n @
        timing_lines n (clock (2 * unat n + 1) - clock 0) @ summary @
        state_title @ base_report (bench_book s)))"
    unfolding single_thread_main_def assms(1) and_then_simps Let_def run' len
    by (simp add: single_thread_report_def summary)
  with summary run(2,3) show ?thesis by blast
qed

theorem single_thread_main_prints_witness:
  "\<exists>text. single_thread_main (\<lambda>_. 7) (\<lambda>i. of_nat (min i 100)) [''benchmark'', ''3''] = Inr (Inr text)"
proof -
  have arg: "single_thread_settings [''benchmark'', ''3''] = Inr 3"
    by (simp add: single_thread_settings_def stoull_def strto_number_def is_space_def is_digit_def
        number_def digit_value_def)
  have steady: "(of_nat (min i 100) :: u64) \<le> of_nat (min j 100)" if "i \<le> j" for i j
    using that by (simp add: word_le_nat_alt unat_of_nat take_bit_nat_eq_self min_def)
  show ?thesis
    using single_thread_main_prints [where clock = "\<lambda>i. of_nat (min i 100)" and wall = "\<lambda>_. 7",
        OF arg _ steady] by auto
qed

lemma single_thread_main_throws:
  "single_thread_settings argv = Inl e \<Longrightarrow> single_thread_main wall clock argv = Inl e"
  by (simp add: single_thread_main_def)

text \<open>
  Property C32. The memory-pool program from its command line to its output: if the arguments are numbers
  and the pool has at least min(messages, 10000) slots, both cases run without undefined behaviour, the
  pooled book never finds its pool exhausted, and the text printed for the final book is the same for
  both cases.
\<close>

theorem memory_pool_main_prints:
  assumes "memory_pool_settings argv = Inr (n, capacity)"
    and "min (unat n) 10000 \<le> unat capacity" and "unat capacity * 24 < 2 ^ 64" and "unat n \<le> 2 ^ 53"
    and steady: "\<And>i j. i \<le> j \<Longrightarrow> clock1 i \<le> clock1 j" "\<And>i j. i \<le> j \<Longrightarrow> clock2 i \<le> clock2 j"
    and short: "unat (clock1 (2 * unat n + 1)) - unat (clock1 0) \<le> 2 ^ 50"
      "unat (clock2 (2 * unat n + 1)) - unat (clock2 0) \<le> 2 ^ 50"
  shows "\<exists>summary1 summary2 final_state pooled. pool_exhaustions pooled = 0 \<and>
     memory_pool_main wall clock1 clock2 base argv = Inr (Inr
       (memory_pool_banner (n, capacity) @
        run_case_head ''OrderBook Baseline'' (unat n) (clock1 (2 * unat n + 1) - clock1 0) @
        summary1 @ final_state @
        run_case_head ''PooledOrderBook'' (unat n) (clock2 (2 * unat n + 1) - clock2 0) @
        summary2 @ pool_lines pooled @ final_state))"
proof -
  let ?ms = "generated wall n (map of_char ''AAPL'')"
  have len: "length ?ms = unat n" by (rule generated_ok(1))
  obtain s1 t1 s2 t2 where
    run: "memory_pool_benchmark wall clock1 clock2 base n capacity = (Inr (s1, t1), Inr (s2, t2))"
    and same: "base_report (bench_book s1) = pooled_report (bench_book s2)"
    and exh: "pool_exhaustions (bench_book s2) = 0"
    using memory_pool_same_report [OF assms(2,3), of wall clock1 clock2 base] by blast
  then obtain u1 u2 where
    u1: "timed_loop on_message clock1 ?ms ((bench_new empty_book)\<lparr>bench_reads := 1\<rparr>) = Inr u1"
      "s1 = u1\<lparr>bench_reads := bench_reads u1 + 1\<rparr>" "t1 = clock1 (bench_reads u1) - clock1 0" and
    u2: "timed_loop pooled_on_message clock2 ?ms
        ((bench_new (pooled_new base (unat capacity)))\<lparr>bench_reads := 1\<rparr>) = Inr u2"
      "s2 = u2\<lparr>bench_reads := bench_reads u2 + 1\<rparr>" "t2 = clock2 (bench_reads u2) - clock2 0"
    by (auto simp: memory_pool_benchmark_def pool_run_case_def Let_def cpp_map_Inr_iff)
  note sum = timed_summary [OF u1(1) _ steady(1), unfolded len, OF assms(4) _ short(1)]
    timed_summary [OF u2(1) _ steady(2), unfolded len, OF assms(4) _ short(2)]
  obtain summary1 summary2 where "print_summary (bench_latency s1) = Inr summary1"
      "print_summary (bench_latency s2) = Inr summary2"
    using sum unfolding u1(2) u2(2) by auto
  then have "memory_pool_main wall clock1 clock2 base argv = Inr (Inr
       (memory_pool_banner (n, capacity) @
        run_case_head ''OrderBook Baseline'' (unat n) (clock1 (2 * unat n + 1) - clock1 0) @
        summary1 @ pooled_report (bench_book s2) @
        run_case_head ''PooledOrderBook'' (unat n) (clock2 (2 * unat n + 1) - clock2 0) @
        summary2 @ pool_lines (bench_book s2) @ pooled_report (bench_book s2)))"
    unfolding memory_pool_main_def assms(1) and_then_simps fst_conv snd_conv run len Let_def prod.case
    by (simp add: memory_pool_reports_def run_case_report_def same u1(3) u2(3) sum)
  with exh show ?thesis by blast
qed

theorem memory_pool_main_prints_witness:
  "\<exists>text. memory_pool_main (\<lambda>_. 7) (\<lambda>_. 0) (\<lambda>_. 9) 4096 [''benchmark'', ''3''] = Inr (Inr text)"
proof -
  have args: "memory_pool_settings [''benchmark'', ''3''] = Inr (3, 3)"
    by (simp add: memory_pool_settings_def argument_def parse_u64_arg_def stoull_def strto_number_def
        is_space_def is_digit_def number_def digit_value_def)
  show ?thesis
    using memory_pool_main_prints [OF args, of "\<lambda>_. 0" "\<lambda>_. 9" "\<lambda>_. 7" 4096] by auto
qed

text \<open>
  Property C33. The batching program from its command line to its output: under a steady clock it ends
  for every number of messages, without undefined behaviour, and prints for each of the batch sizes 1, 8,
  32 and 64 a summary and the same book, the one of the message loop without batches.
\<close>

theorem batching_main_prints:
  assumes "batching_settings argv = Inr n" and "unat n \<le> 2 ^ 53"
    and steady: "\<And>batch_size i j. i \<le> j \<Longrightarrow> clock batch_size i \<le> clock batch_size j"
    and short: "\<And>batch_size. unat (clock batch_size (2 * unat n + 1)) - unat (clock batch_size 0) \<le> 2 ^ 50"
  shows "\<exists>final duration summary.
     feed on_message (generated wall n (map of_char ''AAPL'')) empty_book = Inr final \<and>
     batching_main wall clock argv = Inr (Some (Inr (batching_banner n @
       concat (map (\<lambda>batch_size. batch_head batch_size n (duration batch_size) @
         summary batch_size @ batch_book_lines final) [1, 8, 32, 64]))))"
proof -
  let ?ms = "generated wall n (map of_char ''AAPL'')"
  have len: "length ?ms = unat n" by (rule generated_ok(1))
  obtain final where final: "feed on_message ?ms empty_book = Inr final"
    using base.feed_ok [OF book_rel_empty replay_shallow [OF order_refl]] by blast
  have "\<exists>s d summary. batch_case (clock k) ?ms k = Some (Inr (s, d)) \<and> bench_book s = final \<and>
      print_summary (bench_latency s) = Inr summary" if "0 < k" for k
    using batch_case_ok [where clock = "clock k", OF that final _ steady] assms(2) short
    unfolding len by blast
  then obtain s duration summary where
    c: "\<And>k. 0 < k \<Longrightarrow> batch_case (clock k) ?ms k = Some (Inr (s k, duration k))"
      "\<And>k. 0 < k \<Longrightarrow> bench_book (s k) = final"
      "\<And>k. 0 < k \<Longrightarrow> print_summary (bench_latency (s k)) = Inr (summary k)"
    by metis
  let ?out = "\<lambda>k. batch_head k n (duration k) @ summary k @ batch_book_lines final"
  have cases: "map (\<lambda>(k, c). map_option (cpp_map (\<lambda>r. (k, r))) c)
      (zip default_batch_sizes (batching_benchmark clock ?ms)) =
    map (\<lambda>k. map_option (cpp_map (\<lambda>r. (k, r))) (batch_case (clock k) ?ms k)) default_batch_sizes"
    by (simp add: batching_benchmark_def zip_self_map)
  have "cases_in_turn (\<lambda>(k, s, d). batch_report k n d s)
      (map (\<lambda>k. map_option (cpp_map (\<lambda>r. (k, r))) (batch_case (clock k) ?ms k)) default_batch_sizes) =
    Some (Inr (concat (map ?out default_batch_sizes)))"
    by (rule cases_in_turn_ok) (use c in \<open>auto simp: default_batch_sizes_def batch_report_def\<close>)
  then have "batching_main wall clock argv =
      Inr (Some (Inr (batching_banner n @ concat (map ?out default_batch_sizes))))"
    by (simp only: batching_main_def assms(1) and_then_simps Let_def cases option.map cpp_map_simps)
  with final show ?thesis unfolding default_batch_sizes_def by blast
qed

theorem batching_main_prints_witness:
  "\<exists>text. batching_main (\<lambda>_. 7) (\<lambda>_ _. 0) [''benchmark'', ''3''] = Inr (Some (Inr text))"
proof -
  have arg: "batching_settings [''benchmark'', ''3''] = Inr 3"
    by (simp add: batching_settings_def argument_def parse_u64_arg_def stoull_def strto_number_def
        is_space_def is_digit_def number_def digit_value_def)
  show ?thesis using batching_main_prints [OF arg, of "\<lambda>_ _. 0" "\<lambda>_. 7"] by auto
qed

end
