(* ===== verification/Threaded_Programs.thy ===== *)
theory Threaded_Programs
  imports Reports Startup
begin

text \<open>
  \<open>main\<close> of the programs of two threads without sockets, from the arguments to the whole output:
  \<open>benchmark_spsc_queue.cpp\<close>, \<open>benchmark_spsc_queue_pooled.cpp\<close>, \<open>benchmark_producer_consumer.cpp\<close> and
  \<open>benchmark_false_sharing.cpp\<close>. A program of threads has one outcome for each interleaving and each
  reading of the clocks, so \<open>main\<close> is a relation. A run that does not end has no outcome. Beside the outcome
  the relations of the queue programs show what was measured: the latency recorders that are printed, in
  the order of the report.
\<close>

section \<open>How a program ends\<close>

text \<open>
  An exception that leaves \<open>main\<close> or a thread terminates the program; it comes from an argument or from
  a socket that cannot be opened.
\<close>

datatype program_end =
    Bad_Argument parse_error
  | Threw string
  | Finished "string cpp"

text \<open>The lines of the two threads on one \<open>std::cout\<close>.\<close>

inductive pin_lines :: "string \<Rightarrow> string \<Rightarrow> int \<Rightarrow> int \<Rightarrow> string \<Rightarrow> bool" for who1 who2 cpu1 cpu2 where
  "pins \<in> shuffles (pin_output who1 cpu1 pinned1) (pin_output who2 cpu2 pinned2) \<Longrightarrow>
   pin_lines who1 who2 cpu1 cpu2 pins"

lemma pin_lines_some: "\<exists>pins. pin_lines who1 who2 cpu1 cpu2 pins"
  using pin_lines.intros [OF splice_in_shuffles] by blast

lemma pin_lines_silent: "pin_lines who1 who2 cpu1 cpu2 pins \<Longrightarrow> cpu1 < 0 \<Longrightarrow> cpu2 < 0 \<Longrightarrow> pins = []"
  by (auto simp: pin_output_def elim!: pin_lines.cases)

section \<open>The programs over a queue\<close>

inductive spsc_main ::
  "(u64 \<Rightarrow> u64) \<Rightarrow> string list \<Rightarrow> latency_recorder list \<Rightarrow> program_end \<Rightarrow> bool" for wall argv where
  spsc_bad_argument: "spsc_settings argv = Inl e \<Longrightarrow> spsc_main wall argv [] (Bad_Argument e)"
| spsc_joined:
    "spsc_settings argv = Inr cfg \<Longrightarrow>
     spsc_benchmark wall (qs_num_messages cfg) (qs_queue_capacity cfg) s \<Longrightarrow>
     producer s = Producer_Exited \<Longrightarrow> consumer s = Consumer_Exited \<Longrightarrow>
     pin_lines ''Producer'' ''Consumer'' (qs_producer_cpu cfg) (qs_consumer_cpu cfg) pins \<Longrightarrow>
     spsc_main wall argv [pipeline_time s, queue_wait s, book_time s] (Finished (cpp_map (\<lambda>report. spsc_banner cfg @ pins @ report)
       (spsc_report duration s)))"

inductive spsc_pooled_main ::
  "(u64 \<Rightarrow> u64) \<Rightarrow> u64 \<Rightarrow> string list \<Rightarrow> latency_recorder list \<Rightarrow> program_end \<Rightarrow> bool"
  for wall base argv where
  pooled_bad_argument: "spsc_pooled_settings argv = Inl e \<Longrightarrow> spsc_pooled_main wall base argv [] (Bad_Argument e)"
| pooled_joined:
    "spsc_pooled_settings argv = Inr cfg \<Longrightarrow>
     spsc_pooled_benchmark wall (qs_num_messages (fst cfg)) (qs_queue_capacity (fst cfg)) base (snd cfg) s \<Longrightarrow>
     producer s = Producer_Exited \<Longrightarrow> consumer s = Consumer_Exited \<Longrightarrow>
     pin_lines ''Producer'' ''Consumer'' (qs_producer_cpu (fst cfg)) (qs_consumer_cpu (fst cfg)) pins \<Longrightarrow>
     spsc_pooled_main wall base argv [pipeline_time s, queue_wait s, book_time s] (Finished (cpp_map (\<lambda>report. spsc_pooled_banner cfg @ pins @ report)
       (spsc_pooled_report duration s)))"

inductive producer_consumer_main ::
  "(u64 \<Rightarrow> u64) \<Rightarrow> string list \<Rightarrow> latency_recorder list \<Rightarrow> program_end \<Rightarrow> bool"
  for wall argv where
  blocking_bad_argument: "producer_consumer_settings argv = Inl e \<Longrightarrow>
     producer_consumer_main wall argv [] (Bad_Argument e)"
| blocking_joined:
    "producer_consumer_settings argv = Inr cfg \<Longrightarrow>
     producer_consumer_benchmark wall (qs_num_messages cfg) (qs_queue_capacity cfg) s \<Longrightarrow>
     bproducer s = Closed \<Longrightarrow> bconsumer s = Drained \<Longrightarrow>
     pin_lines ''Producer'' ''Consumer'' (qs_producer_cpu cfg) (qs_consumer_cpu cfg) pins \<Longrightarrow>
     producer_consumer_main wall argv [bpipeline_time s, bqueue_wait s, bbook_time s] (Finished (cpp_map (\<lambda>report. producer_consumer_banner cfg @ pins @ report)
       (producer_consumer_report duration s)))"

section \<open>The false-sharing program\<close>

text \<open>\<open>run_case\<close>, with what it prints.\<close>

inductive sharing_case ::
  "string \<Rightarrow> sharing_settings \<Rightarrow> 'c accessor \<Rightarrow> 'c accessor \<Rightarrow> 'c \<Rightarrow> string \<Rightarrow> bool"
  for name cfg first_accessor second_accessor counters where
  "run_case_run first_accessor second_accessor (ss_iterations cfg) counters n s \<Longrightarrow>
   case_over (ss_iterations cfg) s \<Longrightarrow>
   pin_lines (name @ '' first'') (name @ '' second'') (ss_first_cpu cfg) (ss_second_cpu cfg) pins \<Longrightarrow>
   sharing_case name cfg first_accessor second_accessor counters
     (pins @ sharing_report name (ss_iterations cfg) duration first_accessor second_accessor s)"

inductive sharing_main :: "string list \<Rightarrow> program_end \<Rightarrow> bool" for argv where
  sharing_bad_argument: "sharing_settings_of argv = Inl e \<Longrightarrow> sharing_main argv (Bad_Argument e)"
| sharing_cases:
    "sharing_settings_of argv = Inr cfg \<Longrightarrow>
     sharing_case ''Unpadded Counters'' cfg unpadded_first unpadded_second unpadded_new text1 \<Longrightarrow>
     sharing_case ''Cache-Line Padded Counters'' cfg padded_first padded_second padded_new text2 \<Longrightarrow>
     sharing_main argv (Finished (Inr (sharing_banner cfg @ text1 @ text2)))"

inductive_cases spsc_mainE: "spsc_main wall argv measured out"
inductive_cases spsc_pooled_mainE: "spsc_pooled_main wall base argv measured out"
inductive_cases producer_consumer_mainE: "producer_consumer_main wall argv measured out"
inductive_cases sharing_mainE: "sharing_main argv out"

section \<open>Shape of the output\<close>

text \<open>
  What a run of a queue program has printed: the counters of \<open>n\<close> messages produced and consumed, the
  summaries of the measured latencies, of \<open>n\<close> samples each, and the final book. It is a text: undefined
  behaviour is no such output.
\<close>

definition queue_output ::
  "string \<Rightarrow> string \<Rightarrow> queue_settings \<Rightarrow> string \<Rightarrow> latency_recorder list \<Rightarrow> program_end \<Rightarrow> bool" where
  "queue_output banner book_class cfg final_state measured out \<longleftrightarrow>
     (\<exists>pins counters pipe wait processing latencies.
        pin_lines ''Producer'' ''Consumer'' (qs_producer_cpu cfg) (qs_consumer_cpu cfg) pins \<and>
        measured = [pipe, wait, processing] \<and>
        (\<forall>r \<in> set measured. length (samples r) = unat (qs_num_messages cfg)) \<and>
        queue_latencies book_class pipe wait processing = Inr latencies \<and>
        out = Finished (Inr (banner @ pins @ results_title @
            counter_line ''Produced: '' (qs_num_messages cfg) @
            counter_line ''Consumed: '' (qs_num_messages cfg) @ counters @ latencies @
            state_title @ final_state)))"

text \<open>
  The other way a run can end: every message was measured, and a conversion in a summary is undefined
  because the samples are too long or too many for it.
\<close>

definition overflowed :: "nat \<Rightarrow> latency_recorder list \<Rightarrow> program_end \<Rightarrow> bool" where
  "overflowed n measured out \<longleftrightarrow>
     (\<exists>e. out = Finished (Inl e)) \<and> (\<forall>r \<in> set measured. length (samples r) = n) \<and>
     (\<exists>r \<in> set measured. \<not> short_samples r)"

lemma not_overflowed:
  "(\<forall>r \<in> set measured. all_zero r) \<Longrightarrow> n \<le> 2 ^ 53 \<Longrightarrow> \<not> overflowed n measured out"
  unfolding overflowed_def by (metis all_zero_short)

text \<open>The latencies are printed without undefined behaviour when the samples are short.\<close>

lemma latency_section_defined: "short_samples r \<Longrightarrow> \<exists>text. latency_section title what r = Inr text"
  using print_summary_defined [of r] by (auto simp: short_samples_def latency_section_def)

lemma queue_latencies_defined:
  "short_samples pipe \<Longrightarrow> short_samples wait \<Longrightarrow> short_samples processing \<Longrightarrow>
   \<exists>text. queue_latencies book_class pipe wait processing = Inr text"
proof -
  assume "short_samples pipe" "short_samples wait" "short_samples processing"
  then obtain a b c where "latency_section ''=== Pipeline Latency ===''
      ''producer timestamp -> consumer finished processing'' pipe = Inr a"
    "latency_section ''=== Queue Wait / Residence Time ===''
      ''producer push timestamp -> consumer pop timestamp'' wait = Inr b"
    "latency_section ''=== Book Processing Latency ===''
      (''before '' @ book_class @ ''::on_message() -> after '' @ book_class @ ''::on_message()'') processing = Inr c"
    using latency_section_defined by metis
  then show ?thesis by (simp add: queue_latencies_def)
qed

lemma cpp_bind_Inr: "cpp_bind p (\<lambda>a. Inr (f a)) = cpp_map f p"
  by (cases p) simp_all

lemma cpp_map_comp: "cpp_map f (cpp_map g x) = cpp_map (\<lambda>a. f (g a)) x"
  by (cases x) simp_all

lemma queue_outputI:
  assumes "pin_lines ''Producer'' ''Consumer'' (qs_producer_cpu cfg) (qs_consumer_cpu cfg) pins"
    and "\<forall>r \<in> {pipe, wait, processing}. length (samples r) = unat (qs_num_messages cfg)"
    and "out = Finished (cpp_map (\<lambda>latencies. banner @ pins @ results_title @
            counter_line ''Produced: '' (qs_num_messages cfg) @
            counter_line ''Consumed: '' (qs_num_messages cfg) @ counters @ latencies @
            state_title @ final_state)
          (queue_latencies book_class pipe wait processing))"
  shows "queue_output banner book_class cfg final_state [pipe, wait, processing] out \<or>
     overflowed (unat (qs_num_messages cfg)) [pipe, wait, processing] out"
proof (cases "queue_latencies book_class pipe wait processing")
  case (Inl e)
  then have "\<not> (short_samples pipe \<and> short_samples wait \<and> short_samples processing)"
    using queue_latencies_defined [of pipe wait processing book_class] by fastforce
  with assms(2,3) Inl have "overflowed (unat (qs_num_messages cfg)) [pipe, wait, processing] out"
    by (auto simp: overflowed_def)
  then show ?thesis ..
next
  case (Inr latencies)
  with assms show ?thesis unfolding queue_output_def by (intro disjI1) (simp, blast)
qed

text \<open>A finished run of either pipeline has the shape.\<close>

lemma spsc_main_output:
  assumes "spsc_main wall argv measured out" and "spsc_settings argv = Inr cfg" and "qs_queue_capacity cfg < - 1"
    and "feed on_message (generated wall (qs_num_messages cfg) (map of_char ''AAPL'')) empty_book = Inr b"
  shows "queue_output (spsc_banner cfg) ''OrderBook'' cfg (base_report b) measured out \<or>
     overflowed (unat (qs_num_messages cfg)) measured out"
  using assms(1)
proof (rule spsc_mainE)
  fix e assume "out = Bad_Argument e" "spsc_settings argv = Inl e"
  with assms(2) show ?thesis by simp
next
  fix c s pins duration
  assume measured: "measured = [pipeline_time s, queue_wait s, book_time s]"
    and out: "out = Finished (cpp_map (\<lambda>report. spsc_banner c @ pins @ report) (spsc_report duration s))"
    and c: "spsc_settings argv = Inr c" and run: "spsc_benchmark wall (qs_num_messages c) (qs_queue_capacity c) s"
    and over: "consumer s = Consumer_Exited"
    and pins: "pin_lines ''Producer'' ''Consumer'' (qs_producer_cpu c) (qs_consumer_cpu c) pins"
  have cfg: "c = cfg" using c assms(2) by simp
  note inv = pipeline_reachable_inv [OF run [unfolded spsc_benchmark_def cfg] assms(3)]
  have "final_book s = b" "produced s = qs_num_messages cfg" "consumed s = qs_num_messages cfg"
      "\<forall>r \<in> {pipeline_time s, queue_wait s, book_time s}. length (samples r) = unat (qs_num_messages cfg)"
    using pipeline_exited [OF inv over] assms(4) by (simp_all add: generated_ok(1))
  with pins out cfg show ?thesis
    unfolding measured
    by (intro queue_outputI [where pins = pins and counters = "timing_lines (consumed s) duration @
        counter_line ''Producer Spins: '' (producer_spins s) @
        counter_line ''Consumer Spins: '' (consumer_spins s) @
        counter_line ''Producer CPU Migrations: '' (producer_migrations s) @
        counter_line ''Consumer CPU Migrations: '' (consumer_migrations s)"])
      (simp_all add: spsc_report_def pipeline_counters_def cpp_bind_Inr cpp_map_comp)
qed

lemma spsc_pooled_main_output:
  assumes "spsc_pooled_main wall base argv measured out" and "spsc_pooled_settings argv = Inr (cfg, pool)"
    and "qs_queue_capacity cfg < - 1"
    and "feed pooled_on_message (generated wall (qs_num_messages cfg) (map of_char ''AAPL''))
      (pooled_new base (unat pool)) = Inr b"
  shows "queue_output (spsc_pooled_banner (cfg, pool)) ''PooledOrderBook'' cfg (pooled_report b) measured out \<or>
     overflowed (unat (qs_num_messages cfg)) measured out"
  using assms(1)
proof (rule spsc_pooled_mainE)
  fix e assume "out = Bad_Argument e" "spsc_pooled_settings argv = Inl e"
  with assms(2) show ?thesis by simp
next
  fix c s pins duration
  assume measured: "measured = [pipeline_time s, queue_wait s, book_time s]"
    and out: "out = Finished (cpp_map (\<lambda>report. spsc_pooled_banner c @ pins @ report)
      (spsc_pooled_report duration s))"
    and c: "spsc_pooled_settings argv = Inr c"
    and run: "spsc_pooled_benchmark wall (qs_num_messages (fst c)) (qs_queue_capacity (fst c)) base (snd c) s"
    and over: "consumer s = Consumer_Exited"
    and pins: "pin_lines ''Producer'' ''Consumer'' (qs_producer_cpu (fst c)) (qs_consumer_cpu (fst c)) pins"
  have cfg: "c = (cfg, pool)" using c assms(2) by simp
  note inv = pipeline_reachable_inv [OF run [unfolded spsc_pooled_benchmark_def cfg fst_conv snd_conv] assms(3)]
  have "final_book s = b" "produced s = qs_num_messages cfg" "consumed s = qs_num_messages cfg"
      "\<forall>r \<in> {pipeline_time s, queue_wait s, book_time s}. length (samples r) = unat (qs_num_messages cfg)"
    using pipeline_exited [OF inv over] assms(4) by (simp_all add: generated_ok(1))
  with pins out cfg show ?thesis
    unfolding measured
    by (intro queue_outputI [where pins = pins and counters = "timing_lines (consumed s) duration @
        counter_line ''Producer Spins: '' (producer_spins s) @
        counter_line ''Consumer Spins: '' (consumer_spins s) @
        counter_line ''Producer CPU Migrations: '' (producer_migrations s) @
        counter_line ''Consumer CPU Migrations: '' (consumer_migrations s) @ pool_lines (final_book s)"])
      (simp_all add: spsc_pooled_report_def pipeline_counters_def cpp_bind_Inr cpp_map_comp)
qed

lemma producer_consumer_main_output:
  assumes "producer_consumer_main wall argv measured out" and "producer_consumer_settings argv = Inr cfg"
    and "feed on_message (generated wall (qs_num_messages cfg) (map of_char ''AAPL'')) empty_book = Inr b"
  shows "queue_output (producer_consumer_banner cfg) ''OrderBook'' cfg (base_report b) measured out \<or>
     overflowed (unat (qs_num_messages cfg)) measured out"
  using assms(1)
proof (rule producer_consumer_mainE)
  fix e assume "out = Bad_Argument e" "producer_consumer_settings argv = Inl e"
  with assms(2) show ?thesis by simp
next
  fix c s pins duration
  assume measured: "measured = [bpipeline_time s, bqueue_wait s, bbook_time s]"
    and out: "out = Finished (cpp_map (\<lambda>report. producer_consumer_banner c @ pins @ report)
      (producer_consumer_report duration s))"
    and c: "producer_consumer_settings argv = Inr c"
    and run: "producer_consumer_benchmark wall (qs_num_messages c) (qs_queue_capacity c) s"
    and over: "bconsumer s = Drained"
    and pins: "pin_lines ''Producer'' ''Consumer'' (qs_producer_cpu c) (qs_consumer_cpu c) pins"
  have cfg: "c = cfg" using c assms(2) by simp
  note inv = blocking_reachable_inv [OF run [unfolded producer_consumer_benchmark_def cfg]]
  have "bbook s = b" "bproduced s = qs_num_messages cfg" "bconsumed s = qs_num_messages cfg"
      "\<forall>r \<in> {bpipeline_time s, bqueue_wait s, bbook_time s}. length (samples r) = unat (qs_num_messages cfg)"
    using blocking_drained [OF inv over] assms(3) by (simp_all add: generated_ok(1))
  with pins out cfg show ?thesis
    unfolding measured
    by (intro queue_outputI [where pins = pins and counters = "timing_lines (bconsumed s) duration @
        counter_line ''Producer CPU Migrations: '' (bproducer_migrations s) @
        counter_line ''Consumer CPU Migrations: '' (bconsumer_migrations s)"])
      (simp_all add: producer_consumer_report_def cpp_bind_Inr cpp_map_comp)
qed

section \<open>Every program can finish\<close>

lemma exI2: "P x y \<Longrightarrow> Q x \<Longrightarrow> \<exists>x y. P x y \<and> Q x"
  by blast

lemma spsc_main_ends:
  assumes "spsc_settings argv = Inr cfg" and "0 < qs_queue_capacity cfg" and "qs_queue_capacity cfg < - 1"
  shows "\<exists>measured out. spsc_main wall argv measured out \<and> (\<forall>r \<in> set measured. all_zero r)"
proof -
  obtain b where "feed on_message (generated wall (qs_num_messages cfg) (map of_char ''AAPL'')) empty_book = Inr b"
    using base.feed_ok [OF book_rel_empty replay_shallow [OF order_refl]] by blast
  from complete_run [OF assms(2,3) this] obtain s where
    s: "spsc_benchmark wall (qs_num_messages cfg) (qs_queue_capacity cfg) s" "consumer s = Consumer_Exited"
    "instant s"
    unfolding spsc_benchmark_def by blast
  have "producer s = Producer_Exited"
    by (rule pipeline_exited(5) [OF pipeline_reachable_inv [OF s(1) [unfolded spsc_benchmark_def] assms(3)] s(2)])
  from spsc_joined [OF assms(1) s(1) this s(2)] pin_lines_some
  obtain out where "spsc_main wall argv [pipeline_time s, queue_wait s, book_time s] out" by blast
  then show ?thesis by (rule exI2) (use s(3) in \<open>simp add: instant_def\<close>)
qed

lemma spsc_pooled_main_ends:
  assumes "spsc_pooled_settings argv = Inr (cfg, pool)" and "unat pool * 24 < 2 ^ 64"
    and "0 < qs_queue_capacity cfg" and "qs_queue_capacity cfg < - 1"
  shows "\<exists>measured out. spsc_pooled_main wall base argv measured out \<and> (\<forall>r \<in> set measured. all_zero r)"
proof -
  obtain b where "feed pooled_on_message (generated wall (qs_num_messages cfg) (map of_char ''AAPL''))
      (pooled_new base (unat pool)) = Inr b"
    using feed_pooled_memory [OF memory_ok_new [OF assms(2)]] by blast
  from complete_run [OF assms(3,4) this] obtain s where
    s: "spsc_pooled_benchmark wall (qs_num_messages cfg) (qs_queue_capacity cfg) base pool s"
      "consumer s = Consumer_Exited" "instant s"
    unfolding spsc_pooled_benchmark_def by blast
  have "producer s = Producer_Exited"
    by (rule pipeline_exited(5) [OF pipeline_reachable_inv
          [OF s(1) [unfolded spsc_pooled_benchmark_def] assms(4)] s(2)])
  from pooled_joined [OF assms(1), unfolded fst_conv snd_conv, OF s(1) this s(2)] pin_lines_some
  obtain out where "spsc_pooled_main wall base argv [pipeline_time s, queue_wait s, book_time s] out" by blast
  then show ?thesis by (rule exI2) (use s(3) in \<open>simp add: instant_def\<close>)
qed

lemma producer_consumer_main_ends:
  assumes "producer_consumer_settings argv = Inr cfg" and "0 < qs_queue_capacity cfg"
  shows "\<exists>measured out. producer_consumer_main wall argv measured out \<and> (\<forall>r \<in> set measured. all_zero r)"
proof -
  obtain b where b: "feed on_message (generated wall (qs_num_messages cfg) (map of_char ''AAPL'')) empty_book = Inr b"
    using base.feed_ok [OF book_rel_empty replay_shallow [OF order_refl]] by blast
  have "0 < unat (qs_queue_capacity cfg)" using assms(2) by (simp add: word_less_nat_alt)
  from blocking_complete_run [OF this b] obtain s where
    s: "producer_consumer_benchmark wall (qs_num_messages cfg) (qs_queue_capacity cfg) s"
      "bconsumer s = Drained" "bproducer s = Closed"
      "\<forall>r \<in> {bqueue_wait s, bbook_time s, bpipeline_time s}. all_zero r"
    unfolding producer_consumer_benchmark_def by blast
  from blocking_joined [OF assms(1) s(1,3,2)] pin_lines_some
  obtain out where "producer_consumer_main wall argv [bpipeline_time s, bqueue_wait s, bbook_time s] out" by blast
  then show ?thesis by (rule exI2) (use s(4) in simp)
qed

section \<open>The false-sharing program: both cases end\<close>

definition sharing_output :: "string \<Rightarrow> sharing_settings \<Rightarrow> string \<Rightarrow> bool" where
  "sharing_output name cfg text \<longleftrightarrow> (\<exists>pins duration migrations1 migrations2.
     pin_lines (name @ '' first'') (name @ '' second'') (ss_first_cpu cfg) (ss_second_cpu cfg) pins \<and>
     text = pins @ newline @ ''=== '' @ name @ '' ==='' @ newline @
       counter_line ''Iterations per thread: '' (ss_iterations cfg) @
       sharing_times (ss_iterations cfg) duration @
       counter_line ''First Counter: '' (ss_iterations cfg) @
       counter_line ''Second Counter: '' (ss_iterations cfg) @
       counter_line ''First CPU Migrations: '' migrations1 @
       counter_line ''Second CPU Migrations: '' migrations2)"

lemma sharing_case_text:
  assumes "two_counters first_accessor second_accessor counters"
    and "sharing_case name cfg first_accessor second_accessor counters text"
  shows "sharing_output name cfg text"
  using assms(2)
proof cases
  case (1 n s pins duration)
  have "ref_load first_accessor (sh_counters s) = ss_iterations cfg"
      "ref_load second_accessor (sh_counters s) = ss_iterations cfg"
    using two_counters.run_result(1) [OF assms(1) 1(2,3)] by simp_all
  with 1 show ?thesis unfolding sharing_output_def sharing_report_def by auto
qed

lemma sharing_case_ends:
  assumes "two_counters first_accessor second_accessor counters"
  shows "\<exists>text. sharing_case name cfg first_accessor second_accessor counters text"
proof -
  let ?run = "run_case_run first_accessor second_accessor (ss_iterations cfg) counters"
  have reach: "\<exists>n s. ?run n s \<and> (k \<le> n \<or> case_over (ss_iterations cfg) s)" for k
  proof (induction k)
    case 0
    show ?case
      by (intro exI [of _ 0] exI [of _ "sharing_new counters 0 0"]) (simp add: case_start)
  next
    case (Suc k)
    then obtain n s where s: "?run n s" "k \<le> n \<or> case_over (ss_iterations cfg) s" by blast
    show ?case
    proof (cases "case_over (ss_iterations cfg) s")
      case True
      with s(1) show ?thesis by blast
    next
      case False
      then obtain s' where "sharing_step first_accessor second_accessor (ss_iterations cfg) s s'"
        using two_counters.run_result(2) [OF assms s(1)] by blast
      from case_step [OF s(1) this] s(2) False show ?thesis by (meson Suc_le_mono)
    qed
  qed
  obtain n s where s: "?run n s" "2 * unat (ss_iterations cfg) \<le> n \<or> case_over (ss_iterations cfg) s"
    using reach by blast
  then have over: "case_over (ss_iterations cfg) s"
    using two_counters.run_result(2) [OF assms s(1)] by linarith
  obtain pins where "pin_lines (name @ '' first'') (name @ '' second'') (ss_first_cpu cfg) (ss_second_cpu cfg) pins"
    using pin_lines_some by blast
  from sharing_case.intros [OF s(1) over this] show ?thesis by blast
qed

section \<open>Properties\<close>

text \<open>
  Property C12. The three queue programs from their command lines to their output, all with \<open>n\<close>
  messages, with queue capacities above 0 (those of the ring buffers below 2^64 - 1) and a pool of at
  least min(n, 10000) slots and fewer than 2^64 / 24: whatever the interleaving and the clocks, every
  finished run prints \<open>n\<close> messages produced and consumed, summaries of \<open>n\<close> samples each, and the
  text of the same final book, the one of the plain message loop. The only other end of a run is undefined
  behaviour in a summary, and then the samples measured were not short: one above 2^50 ns, a sum above
  2^53, or more than 2^53 of them. For \<open>n\<close> up to 2^53 each program has a run that prints.
\<close>

theorem queue_programs_print:
  assumes "spsc_settings argv1 = Inr c1" and "spsc_pooled_settings argv2 = Inr (c2, pool)"
    and "producer_consumer_settings argv3 = Inr c3"
    and "qs_num_messages c1 = n" and "qs_num_messages c2 = n" and "qs_num_messages c3 = n"
    and "0 < qs_queue_capacity c1" and "qs_queue_capacity c1 < - 1" and "0 < qs_queue_capacity c2"
    and "qs_queue_capacity c2 < - 1" and "0 < qs_queue_capacity c3"
    and "min (unat n) 10000 \<le> unat pool" and "unat pool * 24 < 2 ^ 64"
  shows "\<exists>b. feed on_message (generated wall n (map of_char ''AAPL'')) empty_book = Inr b \<and>
     (\<forall>measured out. spsc_main wall argv1 measured out \<longrightarrow>
        queue_output (spsc_banner c1) ''OrderBook'' c1 (base_report b) measured out \<or>
        overflowed (unat n) measured out) \<and>
     (\<forall>measured out. spsc_pooled_main wall base argv2 measured out \<longrightarrow>
        queue_output (spsc_pooled_banner (c2, pool)) ''PooledOrderBook'' c2 (base_report b) measured out \<or>
        overflowed (unat n) measured out) \<and>
     (\<forall>measured out. producer_consumer_main wall argv3 measured out \<longrightarrow>
        queue_output (producer_consumer_banner c3) ''OrderBook'' c3 (base_report b) measured out \<or>
        overflowed (unat n) measured out) \<and>
     (unat n \<le> 2 ^ 53 \<longrightarrow>
        (\<exists>measured out. spsc_main wall argv1 measured out \<and>
           queue_output (spsc_banner c1) ''OrderBook'' c1 (base_report b) measured out) \<and>
        (\<exists>measured out. spsc_pooled_main wall base argv2 measured out \<and>
           queue_output (spsc_pooled_banner (c2, pool)) ''PooledOrderBook'' c2 (base_report b) measured out) \<and>
        (\<exists>measured out. producer_consumer_main wall argv3 measured out \<and>
           queue_output (producer_consumer_banner c3) ''OrderBook'' c3 (base_report b) measured out))"
proof -
  let ?ms = "generated wall n (map of_char ''AAPL'')"
  obtain b where b: "feed on_message ?ms empty_book = Inr b"
    using base.feed_ok [OF book_rel_empty replay_shallow [OF order_refl]] by blast
  obtain p where p: "feed pooled_on_message ?ms (pooled_new base (unat pool)) = Inr p"
    using feed_pooled_memory [OF memory_ok_new [OF assms(13)]] by blast
  note same = same_report [OF order_refl assms(12,13) b p]
  note ends = spsc_main_output [OF _ assms(1,8), unfolded assms(4), OF _ b]
    spsc_pooled_main_output [OF _ assms(2,10), unfolded assms(5), OF _ p, folded same]
    producer_consumer_main_output [OF _ assms(3), unfolded assms(6), OF _ b]
  note runs = spsc_main_ends [OF assms(1,7,8)] spsc_pooled_main_ends [OF assms(2,13,9,10)]
    producer_consumer_main_ends [OF assms(3,11)]
  have "\<exists>measured out. spsc_main wall argv1 measured out \<and>
      queue_output (spsc_banner c1) ''OrderBook'' c1 (base_report b) measured out" if "unat n \<le> 2 ^ 53"
    using runs(1) ends(1) not_overflowed [OF _ that] by blast
  moreover have "\<exists>measured out. spsc_pooled_main wall base argv2 measured out \<and>
      queue_output (spsc_pooled_banner (c2, pool)) ''PooledOrderBook'' c2 (base_report b) measured out"
    if "unat n \<le> 2 ^ 53"
    using runs(2) ends(2) not_overflowed [OF _ that] by blast
  moreover have "\<exists>measured out. producer_consumer_main wall argv3 measured out \<and>
      queue_output (producer_consumer_banner c3) ''OrderBook'' c3 (base_report b) measured out"
    if "unat n \<le> 2 ^ 53"
    using runs(3) ends(3) not_overflowed [OF _ that] by blast
  ultimately show ?thesis using b ends by blast
qed

text \<open>Three messages through a ring of two slots and through a blocking queue of one: all three print.\<close>

theorem queue_programs_print_witness:
  "\<exists>b measured1 text1 measured2 text2 measured3 text3.
     spsc_main (\<lambda>_. 7) [''spsc'', ''3'', ''2''] measured1 (Finished (Inr text1)) \<and>
     spsc_pooled_main (\<lambda>_. 7) 4096 [''pooled'', ''3'', ''2''] measured2 (Finished (Inr text2)) \<and>
     producer_consumer_main (\<lambda>_. 7) [''blocking'', ''3'', ''1''] measured3 (Finished (Inr text3)) \<and>
     queue_output (spsc_banner \<lparr>qs_num_messages = 3, qs_queue_capacity = 2, qs_producer_cpu = - 1,
       qs_consumer_cpu = - 1\<rparr>) ''OrderBook'' \<lparr>qs_num_messages = 3, qs_queue_capacity = 2,
       qs_producer_cpu = - 1, qs_consumer_cpu = - 1\<rparr> (base_report b) measured1 (Finished (Inr text1))"
proof -
  have n: "stoull ''3'' = Inr 3" "stoull ''2'' = Inr 2" "stoull ''1'' = Inr 1"
    by (simp_all add: stoull_def strto_number_def is_space_def is_digit_def number_def digit_value_def)
  note defs = spsc_settings_def spsc_pooled_settings_def producer_consumer_settings_def argument_def
    parse_u64_arg_def
  have args: "spsc_settings [''spsc'', ''3'', ''2''] = Inr \<lparr>qs_num_messages = 3, qs_queue_capacity = 2,
      qs_producer_cpu = - 1, qs_consumer_cpu = - 1\<rparr>"
    "spsc_pooled_settings [''pooled'', ''3'', ''2''] = Inr (\<lparr>qs_num_messages = 3, qs_queue_capacity = 2,
      qs_producer_cpu = - 1, qs_consumer_cpu = - 1\<rparr>, 3)"
    "producer_consumer_settings [''blocking'', ''3'', ''1''] = Inr \<lparr>qs_num_messages = 3,
      qs_queue_capacity = 1, qs_producer_cpu = - 1, qs_consumer_cpu = - 1\<rparr>"
    by (simp_all add: defs n)
  have prints: "\<exists>printed. out = Finished (Inr printed)"
    if "queue_output banner book_class cfg final_state measured out"
    for banner book_class cfg final_state measured out
    using that unfolding queue_output_def by blast
  note all = queue_programs_print [OF args, of 3 "\<lambda>_. 7" 4096]
  show ?thesis using all prints by simp metis
qed

text \<open>
  Property C35. The false-sharing program from its command line to its output: it never has undefined
  behaviour, ends, and whatever the interleaving prints the number of iterations as the value of both
  counters of both layouts.
\<close>

theorem sharing_main_prints:
  assumes "sharing_settings_of argv = Inr cfg"
  shows "(\<forall>out. sharing_main argv out \<longrightarrow> (\<exists>text1 text2.
       out = Finished (Inr (sharing_banner cfg @ text1 @ text2)) \<and>
       sharing_output ''Unpadded Counters'' cfg text1 \<and>
       sharing_output ''Cache-Line Padded Counters'' cfg text2)) \<and>
     (\<exists>out. sharing_main argv out)"
proof -
  note texts = sharing_case_text [OF unpadded.two_counters_axioms] sharing_case_text [OF padded.two_counters_axioms]
  have "\<exists>text1 text2. out = Finished (Inr (sharing_banner cfg @ text1 @ text2)) \<and>
      sharing_output ''Unpadded Counters'' cfg text1 \<and> sharing_output ''Cache-Line Padded Counters'' cfg text2"
    if "sharing_main argv out" for out
    using that
  proof (rule sharing_mainE)
    fix c text1 text2
    assume out: "out = Finished (Inr (sharing_banner c @ text1 @ text2))" "sharing_settings_of argv = Inr c"
      "sharing_case ''Unpadded Counters'' c unpadded_first unpadded_second unpadded_new text1"
      "sharing_case ''Cache-Line Padded Counters'' c padded_first padded_second padded_new text2"
    then have "sharing_output ''Unpadded Counters'' c text1"
        "sharing_output ''Cache-Line Padded Counters'' c text2" by (blast intro: texts)+
    moreover have "c = cfg" using out(2) assms by simp
    ultimately show ?thesis using out(1) by blast
  qed (use assms in simp)
  moreover have "\<exists>out. sharing_main argv out"
    using sharing_cases [OF assms] sharing_case_ends [OF unpadded.two_counters_axioms]
      sharing_case_ends [OF padded.two_counters_axioms] by blast
  ultimately show ?thesis by blast
qed

theorem sharing_main_prints_witness:
  "\<exists>text1 text2. sharing_main [''sharing'', ''5''] (Finished (Inr (sharing_banner
       \<lparr>ss_iterations = 5, ss_first_cpu = - 1, ss_second_cpu = - 1\<rparr> @ text1 @ text2))) \<and>
     sharing_output ''Unpadded Counters'' \<lparr>ss_iterations = 5, ss_first_cpu = - 1, ss_second_cpu = - 1\<rparr> text1"
proof -
  have "sharing_settings_of [''sharing'', ''5''] =
      Inr \<lparr>ss_iterations = 5, ss_first_cpu = - 1, ss_second_cpu = - 1\<rparr>"
    by (simp add: sharing_settings_of_def argument_def parse_u64_arg_def stoull_def strto_number_def
        is_space_def is_digit_def number_def digit_value_def)
  from sharing_main_prints [OF this] show ?thesis by blast
qed

end
