(* ===== verification/Feed_Programs.thy ===== *)
theory Feed_Programs
  imports Threaded_Programs Tcp_Delivery
begin

text \<open>
  \<open>main\<close> of \<open>benchmark_udp_feed.cpp\<close> and \<open>benchmark_tcp_feed.cpp\<close>, from the arguments to the whole output:
  the receiving socket is opened, both threads run interleaved on the kernel it left, and their counters,
  latencies and book are printed after both were joined. An exception of a socket function, in \<open>main\<close> or
  in the sending thread, terminates the program. Beside the outcome the relations show the two latency recorders as
  they are when the program ends.
\<close>

section \<open>The programs\<close>

inductive udp_main ::
  "'k os \<Rightarrow> (u64 \<Rightarrow> u64) \<Rightarrow> string list \<Rightarrow> 'k \<Rightarrow> latency_recorder list \<Rightarrow> program_end \<Rightarrow> bool"
  for os wall argv k where
  udp_bad_argument: "udp_settings argv = Inl e \<Longrightarrow> udp_main os wall argv k [] (Bad_Argument e)"
| udp_no_receiver:
    "udp_settings argv = Inr (cfg, timeout) \<Longrightarrow>
     open_udp_feed os (fs_receive_buffer_bytes cfg) timeout k = (Inl e, k') \<Longrightarrow>
     udp_main os wall argv k [] (Threw e)"
| udp_sender_throws:
    "udp_settings argv = Inr (cfg, timeout) \<Longrightarrow>
     open_udp_feed os (fs_receive_buffer_bytes cfg) timeout k = (Inr (receive_fd, port), k') \<Longrightarrow>
     udp_reachable os on_message cfg receive_fd port
       (generated wall (fs_num_messages cfg) (map of_char ''AAPL'')) empty_book k' s \<Longrightarrow>
     us_sender s = Sender_Threw e \<Longrightarrow> udp_main os wall argv k
       [fc_network (us_consumer s), fc_processing (us_consumer s)] (Threw e)"
| udp_joined:
    "udp_settings argv = Inr (cfg, timeout) \<Longrightarrow>
     open_udp_feed os (fs_receive_buffer_bytes cfg) timeout k = (Inr (receive_fd, port), k') \<Longrightarrow>
     udp_reachable os on_message cfg receive_fd port
       (generated wall (fs_num_messages cfg) (map of_char ''AAPL'')) empty_book k' s \<Longrightarrow>
     us_sender s = Sender_Exited \<Longrightarrow> us_receiver s = Receiver_Exited \<Longrightarrow>
     pins \<in> shuffles (us_sender_text s) (us_receiver_text s) \<Longrightarrow>
     udp_main os wall argv k [fc_network (us_consumer s), fc_processing (us_consumer s)]
       (Finished (cpp_map (\<lambda>report. udp_banner (cfg, timeout) @ pins @ report)
       (udp_report duration (us_producer s) (us_consumer s))))"

inductive tcp_main ::
  "'k os \<Rightarrow> (u64 \<Rightarrow> u64) \<Rightarrow> string list \<Rightarrow> 'k \<Rightarrow> latency_recorder list \<Rightarrow> program_end \<Rightarrow> bool"
  for os wall argv k where
  tcp_bad_argument: "tcp_settings argv = Inl e \<Longrightarrow> tcp_main os wall argv k [] (Bad_Argument e)"
| tcp_no_listener:
    "tcp_settings argv = Inr cfg \<Longrightarrow>
     open_tcp_feed os (fs_receive_buffer_bytes (fst cfg)) k = (Inl e, k') \<Longrightarrow>
     tcp_main os wall argv k [] (Threw e)"
| tcp_client_throws:
    "tcp_settings argv = Inr cfg \<Longrightarrow>
     open_tcp_feed os (fs_receive_buffer_bytes (fst cfg)) k = (Inr (listen_fd, port), k') \<Longrightarrow>
     tcp_reachable os on_message cfg listen_fd port
       (generated wall (fs_num_messages (fst cfg)) (map of_char ''AAPL'')) empty_book k' s \<Longrightarrow>
     ts_client s = Client_Threw e \<Longrightarrow> tcp_main os wall argv k
       [fc_network (ts_consumer s), fc_processing (ts_consumer s)] (Threw e)"
| tcp_joined:
    "tcp_settings argv = Inr cfg \<Longrightarrow>
     open_tcp_feed os (fs_receive_buffer_bytes (fst cfg)) k = (Inr (listen_fd, port), k') \<Longrightarrow>
     tcp_reachable os on_message cfg listen_fd port
       (generated wall (fs_num_messages (fst cfg)) (map of_char ''AAPL'')) empty_book k' s \<Longrightarrow>
     ts_client s = Client_Exited \<Longrightarrow> ts_server s = Server_Exited \<or> ts_server s = Server_Refused \<Longrightarrow>
     pins \<in> shuffles (ts_client_text s) (ts_server_text s) \<Longrightarrow>
     tcp_main os wall argv k [fc_network (ts_consumer s), fc_processing (ts_consumer s)]
       (Finished (cpp_map (\<lambda>report. tcp_banner cfg @ pins @ report)
       (tcp_report duration (ts_producer s) (ts_consumer s))))"

section \<open>The lines on pinning\<close>

lemma start_thread_text: "start_thread os who cpu k = (line, k') \<Longrightarrow> \<exists>r. line = pin_output who cpu r"
  using start_thread_simps(2) [of os who cpu k] by force

lemma udp_texts:
  assumes "udp_reachable os on_msg cfg receive_fd port messages b k s"
  shows "us_sender s = Sender_Pins \<or> (\<exists>r. us_sender_text s = pin_output ''Producer'' (fs_producer_cpu cfg) r)"
    and "us_receiver s = Receiver_Pins \<or> (\<exists>r. us_receiver_text s = pin_output ''Consumer'' (fs_consumer_cpu cfg) r)"
proof -
  have "(us_sender s = Sender_Pins \<or> (\<exists>r. us_sender_text s = pin_output ''Producer'' (fs_producer_cpu cfg) r)) \<and>
      (us_receiver s = Receiver_Pins \<or> (\<exists>r. us_receiver_text s = pin_output ''Consumer'' (fs_consumer_cpu cfg) r))"
    using assms
  proof induction
    case start
    then show ?case by (simp add: udp_system_new_def)
  next
    case (step s s')
    from step(2,3) show ?case by cases (auto dest: start_thread_text)
  qed
  then show "us_sender s = Sender_Pins \<or> (\<exists>r. us_sender_text s = pin_output ''Producer'' (fs_producer_cpu cfg) r)"
    and "us_receiver s = Receiver_Pins \<or> (\<exists>r. us_receiver_text s = pin_output ''Consumer'' (fs_consumer_cpu cfg) r)"
    by blast+
qed

lemma tcp_texts:
  assumes "tcp_reachable os on_msg cfg listen_fd port messages b k s"
  shows "ts_client s = Client_Pins \<or> (\<exists>r. ts_client_text s = pin_output ''Producer'' (fs_producer_cpu (fst cfg)) r)"
    and "ts_server s = Server_Pins \<or> (\<exists>r. ts_server_text s = pin_output ''Consumer'' (fs_consumer_cpu (fst cfg)) r)"
proof -
  have "(ts_client s = Client_Pins \<or> (\<exists>r. ts_client_text s = pin_output ''Producer'' (fs_producer_cpu (fst cfg)) r)) \<and>
      (ts_server s = Server_Pins \<or> (\<exists>r. ts_server_text s = pin_output ''Consumer'' (fs_consumer_cpu (fst cfg)) r))"
    using assms
  proof induction
    case start
    then show ?case by (simp add: tcp_system_new_def)
  next
    case (step s s')
    from step(2,3) show ?case by cases (auto dest: start_thread_text)
  qed
  then show "ts_client s = Client_Pins \<or> (\<exists>r. ts_client_text s = pin_output ''Producer'' (fs_producer_cpu (fst cfg)) r)"
    and "ts_server s = Server_Pins \<or> (\<exists>r. ts_server_text s = pin_output ''Consumer'' (fs_consumer_cpu (fst cfg)) r)"
    by blast+
qed

text \<open>The server leaves early only if \<open>accept\<close> failed.\<close>

lemma tcp_not_refused:
  assumes "tcp_reachable os on_msg cfg listen_fd port messages b k s"
    and "\<And>fd k. 0 \<le> fst (os_accept os fd k)"
  shows "ts_server s \<noteq> Server_Refused"
  using assms(1)
proof induction
  case start
  then show ?case by (simp add: tcp_system_new_def)
next
  case (step s s')
  from step(2,3) show ?case
  proof cases
    case (accept_fails fd k)
    with assms(2) [of listen_fd "ts_kernel s"] show ?thesis by simp
  qed auto
qed

section \<open>Shape of the output\<close>

text \<open>
  What a finished run has printed when \<open>ms\<close> are the messages the book has taken and \<open>sent_count\<close> is the
  producer's counter; \<open>dropped_line\<close> is what the UDP program prints more. It is a text: undefined
  behaviour is no such output.
\<close>

definition feed_output ::
  "string \<Rightarrow> feed_settings \<Rightarrow> (u64 \<Rightarrow> u64 \<Rightarrow> string) \<Rightarrow> market_message list \<Rightarrow> u64 \<Rightarrow>
   latency_recorder list \<Rightarrow> program_end \<Rightarrow> bool" where
  "feed_output banner cfg dropped_line ms sent_count measured out \<longleftrightarrow>
     (\<exists>(c :: order_book feed_consumer) pins duration migrations1 migrations2 latencies.
        pin_lines ''Producer'' ''Consumer'' (fs_producer_cpu cfg) (fs_consumer_cpu cfg) pins \<and>
        feed on_message ms empty_book = Inr (fc_book c) \<and>
        measured = [fc_network c, fc_processing c] \<and>
        (\<forall>r \<in> set measured. length (samples r) = length ms) \<and>
        feed_latencies c = Inr latencies \<and>
        out = Finished (Inr (banner @ pins @ results_title @
            counter_line ''Produced: '' sent_count @ counter_line ''Consumed: '' (of_nat (length ms)) @
            dropped_line sent_count (of_nat (length ms)) @
            timing_lines (of_nat (length ms)) duration @
            counter_line ''Producer CPU Migrations: '' migrations1 @
            counter_line ''Consumer CPU Migrations: '' migrations2 @
            latencies @ state_title @ base_report (fc_book c))))"

definition no_dropped_line :: "u64 \<Rightarrow> u64 \<Rightarrow> string" where
  "no_dropped_line sent_count taken_count = []"

definition udp_dropped_line :: "u64 \<Rightarrow> u64 \<Rightarrow> string" where
  "udp_dropped_line sent_count taken_count =
     counter_line ''Dropped/Unreceived: '' (sent_count - taken_count)"

lemma feed_latencies_defined:
  "short_samples (fc_network c) \<Longrightarrow> short_samples (fc_processing c) \<Longrightarrow> \<exists>text. feed_latencies c = Inr text"
proof -
  assume "short_samples (fc_network c)" "short_samples (fc_processing c)"
  then obtain a b where "latency_section ''=== Network To Book Latency ===''
      ''producer send timestamp -> before OrderBook::on_message()'' (fc_network c) = Inr a"
    "latency_section ''=== Book Processing Latency ===''
      ''before OrderBook::on_message() -> after OrderBook::on_message()'' (fc_processing c) = Inr b"
    using latency_section_defined by metis
  then show ?thesis by (simp add: feed_latencies_def)
qed

lemma unat_eq_of_nat: "unat (x :: u64) = m \<Longrightarrow> x = of_nat m"
  by (drule sym) simp

lemma feed_outputI:
  assumes "pin_lines ''Producer'' ''Consumer'' (fs_producer_cpu cfg) (fs_consumer_cpu cfg) pins"
    and "feed on_message ms empty_book = Inr (fc_book c)"
    and "length (samples (fc_network c)) = length ms" and "length (samples (fc_processing c)) = length ms"
    and "out = Finished (cpp_map (\<lambda>latencies. banner @ pins @ results_title @
            counter_line ''Produced: '' sent_count @ counter_line ''Consumed: '' (of_nat (length ms)) @
            dropped_line sent_count (of_nat (length ms)) @
            timing_lines (of_nat (length ms)) duration @
            counter_line ''Producer CPU Migrations: '' migrations1 @
            counter_line ''Consumer CPU Migrations: '' migrations2 @
            latencies @ state_title @ base_report (fc_book c)) (feed_latencies c))"
  shows "feed_output banner cfg dropped_line ms sent_count [fc_network c, fc_processing c] out \<or>
     overflowed (length ms) [fc_network c, fc_processing c] out"
proof (cases "feed_latencies c")
  case (Inl e)
  then have "\<not> (short_samples (fc_network c) \<and> short_samples (fc_processing c))"
    using feed_latencies_defined [of c] by fastforce
  with assms Inl have "overflowed (length ms) [fc_network c, fc_processing c] out" by (auto simp: overflowed_def)
  then show ?thesis ..
next
  case (Inr latencies)
  with assms show ?thesis
    unfolding feed_output_def by (intro disjI1 exI [of _ c] exI [of _ pins] exI [of _ latencies]) (simp, blast)
qed

lemma udp_joined_output:
  assumes "pin_lines ''Producer'' ''Consumer'' (fs_producer_cpu cfg) (fs_consumer_cpu cfg) pins"
    and "feed on_message ms empty_book = Inr (fc_book c)" and "unat (fc_consumed c) = length ms"
    and "length (samples (fc_network c)) = length ms" and "length (samples (fc_processing c)) = length ms"
    and "out = Finished (cpp_map (\<lambda>report. udp_banner (cfg, timeout) @ pins @ report) (udp_report duration p c))"
  shows "feed_output (udp_banner (cfg, timeout)) cfg udp_dropped_line ms (fp_produced p)
       [fc_network c, fc_processing c] out \<or> overflowed (length ms) [fc_network c, fc_processing c] out"
  using assms unat_eq_of_nat [OF assms(3)]
  by (intro feed_outputI [where pins = pins and duration = duration and ?migrations1.0 = "fp_migrations p" and
        ?migrations2.0 = "fc_migrations c"])
    (simp_all add: udp_report_def udp_dropped_line_def dropped_def cpp_bind_Inr cpp_map_comp)

lemma tcp_joined_output:
  assumes "pin_lines ''Producer'' ''Consumer'' (fs_producer_cpu (fst cfg)) (fs_consumer_cpu (fst cfg)) pins"
    and "feed on_message ms empty_book = Inr (fc_book c)" and "unat (fc_consumed c) = length ms"
    and "length (samples (fc_network c)) = length ms" and "length (samples (fc_processing c)) = length ms"
    and "out = Finished (cpp_map (\<lambda>report. tcp_banner cfg @ pins @ report) (tcp_report duration p c))"
  shows "feed_output (tcp_banner cfg) (fst cfg) no_dropped_line ms (fp_produced p)
       [fc_network c, fc_processing c] out \<or> overflowed (length ms) [fc_network c, fc_processing c] out"
  using assms unat_eq_of_nat [OF assms(3)]
  by (intro feed_outputI [where pins = pins and duration = duration and ?migrations1.0 = "fp_migrations p" and
        ?migrations2.0 = "fc_migrations c"])
    (simp_all add: tcp_report_def no_dropped_line_def cpp_bind_Inr cpp_map_comp)

text \<open>The dropped count does not wrap when it adds up.\<close>

lemma dropped_exact:
  assumes "unat (fc_consumed c) = n" and "unat (dropped p c) + n = unat (fp_produced p)"
  shows "unat (fp_produced p - of_nat n) = unat (fp_produced p) - n \<and> n \<le> unat (fp_produced p)"
proof -
  have "dropped p c = fp_produced p - of_nat n" unfolding dropped_def unat_eq_of_nat [OF assms(1)] ..
  with assms(2) have "unat (fp_produced p - of_nat n) + n = unat (fp_produced p)" by (simp only:)
  then show ?thesis by linarith
qed

section \<open>Runs on the loopback kernel\<close>

lemma loop_port: "get_bound_port (loop_os receive chunk) fd k = (40000, k)"
  by (simp add: get_bound_port_def loop_os_def loopback_def)

lemma loop_open_udp:
  "open_udp_feed loop_udp bytes timeout loop_new = (Inr (3, 40000), snd (loop_open loop_new))"
  by (simp add: open_udp_feed_def open_receiver_def create_udp_receiver_def loop_udp_def loop_port
      set_socket_receive_buffer_def Let_def case_prod_beta split: if_splits)
    (simp add: loop_os_def loop_open_def loop_new_def)

lemma loop_open_tcp:
  "open_tcp_feed (loop_tcp chunk) bytes loop_new = (Inr (3, 40000), snd (loop_open loop_new))"
  by (simp add: open_tcp_feed_def open_receiver_def create_tcp_listener_def loop_tcp_def loop_port
      set_socket_receive_buffer_def Let_def case_prod_beta split: if_splits)
    (simp add: loop_os_def loop_open_def loop_new_def)

lemma udp_main_ends:
  assumes "udp_settings argv = Inr (cfg, timeout)"
  shows "\<exists>measured out. udp_main loop_udp wall argv loop_new measured out \<and> (\<forall>r \<in> set measured. all_zero r) \<and>
     (\<forall>e. out \<noteq> Threw e)"
proof -
  let ?k = "snd (loop_open loop_new)"
  have k: "datagrams_sent ?k = []" "datagrams_taken ?k = []"
    by (simp_all add: loop_open_def loop_new_def datagrams_sent_def)
  obtain s where s: "udp_reachable loop_udp on_message cfg 3 40000
      (generated wall (fs_num_messages cfg) (map of_char ''AAPL'')) empty_book ?k s"
      "us_sender s = Sender_Exited" "us_receiver s = Receiver_Exited"
    and zero: "instant_feed (us_consumer s)"
    using udp_run_complete [OF k, of cfg 3 40000 wall "map of_char ''AAPL''"] by blast
  from udp_joined [OF assms loop_open_udp s splice_in_shuffles] show ?thesis
    by (intro exI conjI) (use zero in \<open>auto simp: instant_feed_def\<close>)
qed

lemma tcp_main_ends:
  assumes "tcp_settings argv = Inr cfg" and "0 < chunk"
  shows "\<exists>measured out. tcp_main (loop_tcp chunk) wall argv loop_new measured out \<and>
     (\<forall>r \<in> set measured. all_zero r) \<and> (\<forall>e. out \<noteq> Threw e)"
proof -
  let ?k = "snd (loop_open loop_new)"
  have k: "stream_sent ?k = []" "stream_taken ?k = []"
    by (simp_all add: loop_open_def loop_new_def stream_sent_def)
  obtain s where s: "tcp_reachable (loop_tcp chunk) on_message cfg 3 40000
      (generated wall (fs_num_messages (fst cfg)) (map of_char ''AAPL'')) empty_book ?k s"
      "ts_client s = Client_Exited" "ts_server s = Server_Exited"
    and zero: "instant_feed (ts_consumer s)"
    using tcp_run_complete [OF assms(2) k, of cfg 3 40000 wall "map of_char ''AAPL''"] by blast
  from tcp_joined [OF assms(1) loop_open_tcp s(1,2) disjI1 [OF s(3)] splice_in_shuffles]
  show ?thesis by (intro exI conjI) (use zero in \<open>auto simp: instant_feed_def\<close>)
qed

section \<open>Properties\<close>

text \<open>
  Property C14. The UDP program from its command line to its output, on a network that may lose, duplicate
  and reorder: it ends with an exception of a socket, or prints as consumed the number of the messages in
  its final book and the summaries of that many samples of both latencies, or has undefined behaviour in a
  summary, and then the samples measured were not short (one above 2^50 ns, a sum above 2^53, or more than
  2^53 of them). If the network neither duplicates nor reorders the messages are a subsequence of the
  generated stream and the dropped line is the exact number of those that were produced and not consumed.
\<close>

theorem udp_main_prints:
  assumes "udp_settings argv = Inr (cfg, timeout)" and "datagram_network os sent_in got_out"
    and "sent_in k = []" and "got_out k = []" and "udp_main os wall argv k measured out"
  shows "(\<exists>e. out = Threw e) \<or> (\<exists>ms sent_count.
     (feed_output (udp_banner (cfg, timeout)) cfg udp_dropped_line ms sent_count measured out \<or>
      overflowed (length ms) measured out) \<and>
     set ms \<subseteq> set (generated wall (fs_num_messages cfg) (map of_char ''AAPL'')) \<and>
     length ms \<le> unat (fs_num_messages cfg) \<and>
     (in_order sent_in got_out \<longrightarrow>
        subseq ms (generated wall (fs_num_messages cfg) (map of_char ''AAPL'')) \<and>
        unat (sent_count - of_nat (length ms)) = unat sent_count - length ms \<and>
        length ms \<le> unat sent_count \<and> sent_count \<le> fs_num_messages cfg))"
proof (rule udp_main.cases [OF assms(5)])
  fix e assume "udp_settings argv = Inl e"
  with assms(1) show ?thesis by simp
next
  fix c :: feed_settings and t receive_fd port k' s pins duration
  assume measured: "measured = [fc_network (us_consumer s), fc_processing (us_consumer s)]"
    and out: "out = Finished (cpp_map (\<lambda>report. udp_banner (c, t) @ pins @ report)
      (udp_report duration (us_producer s) (us_consumer s)))"
    and args: "udp_settings argv = Inr (c, t)"
    and opened: "open_udp_feed os (fs_receive_buffer_bytes c) t k = (Inr (receive_fd, port), k')"
    and run: "udp_reachable os on_message c receive_fd port
      (generated wall (fs_num_messages c) (map of_char ''AAPL'')) empty_book k' s"
    and over: "us_sender s = Sender_Exited" "us_receiver s = Receiver_Exited"
    and pins: "pins \<in> shuffles (us_sender_text s) (us_receiver_text s)"
  have cfg: "c = cfg" "t = timeout" using args assms(1) by simp_all
  have new: "sent_in k' = []" "got_out k' = []"
    using network_helpers(5) [OF assms(2) opened] assms(3,4) by (simp_all add: no_traffic_def)
  obtain ms where ms: "set ms \<subseteq> set (generated wall (fs_num_messages c) (map of_char ''AAPL''))"
      "feed on_message ms empty_book = Inr (fc_book (us_consumer s))"
      "unat (fc_consumed (us_consumer s)) = length ms" "length ms \<le> unat (fs_num_messages c)"
      "length (samples (fc_network (us_consumer s))) = length ms"
      "length (samples (fc_processing (us_consumer s))) = length ms"
      "in_order sent_in got_out \<longrightarrow>
        subseq ms (generated wall (fs_num_messages c) (map of_char ''AAPL'')) \<and>
        unat (dropped (us_producer s) (us_consumer s)) + length ms = unat (fp_produced (us_producer s))"
    using udp_messages [OF run assms(2) new] by blast
  have "pin_lines ''Producer'' ''Consumer'' (fs_producer_cpu c) (fs_consumer_cpu c) pins"
    using udp_texts [OF run] over pins by (auto intro: pin_lines.intros)
  from udp_joined_output [OF this ms(2,3,5,6) out]
  have "feed_output (udp_banner (cfg, timeout)) cfg udp_dropped_line ms (fp_produced (us_producer s)) measured out \<or>
      overflowed (length ms) measured out"
    unfolding measured cfg .
  moreover have "fp_produced (us_producer s) \<le> fs_num_messages cfg"
    using udp_produced_bound [OF run assms(2) new] unfolding cfg by blast
  moreover have "unat (fp_produced (us_producer s) - of_nat (length ms)) =
        unat (fp_produced (us_producer s)) - length ms \<and> length ms \<le> unat (fp_produced (us_producer s))"
    if "in_order sent_in got_out"
    using dropped_exact [OF ms(3) conjunct2 [OF mp [OF ms(7) that]]] .
  ultimately show ?thesis using ms(1,4,7) unfolding cfg by blast
qed auto

text \<open>Three messages over the loopback kernel: the program prints, and the counts add up.\<close>

theorem udp_main_prints_witness:
  "\<exists>measured printed ms sent_count.
     udp_main loop_udp (\<lambda>_. 7) [''udp'', ''3''] loop_new measured (Finished (Inr printed)) \<and>
     feed_output (udp_banner (\<lparr>fs_num_messages = 3, fs_send_buffer_bytes = 0,
       fs_receive_buffer_bytes = 0, fs_producer_cpu = - 1, fs_consumer_cpu = - 1\<rparr>, 1000))
       \<lparr>fs_num_messages = 3, fs_send_buffer_bytes = 0, fs_receive_buffer_bytes = 0,
        fs_producer_cpu = - 1, fs_consumer_cpu = - 1\<rparr> udp_dropped_line ms sent_count measured
       (Finished (Inr printed)) \<and>
     subseq ms (generated (\<lambda>_. 7) 3 (map of_char ''AAPL'')) \<and> length ms \<le> unat sent_count"
proof -
  let ?cfg = "\<lparr>fs_num_messages = 3, fs_send_buffer_bytes = 0,
      fs_receive_buffer_bytes = 0, fs_producer_cpu = - 1, fs_consumer_cpu = - 1\<rparr>"
  let ?gs = "generated (\<lambda>_. 7) 3 (map of_char ''AAPL'')"
  have args: "udp_settings [''udp'', ''3''] = Inr (?cfg, 1000)"
    by (simp add: udp_settings_def argument_def parse_u64_arg_def stoull_def strto_number_def
        is_space_def is_digit_def number_def digit_value_def)
  obtain measured out where run: "udp_main loop_udp (\<lambda>_. 7) [''udp'', ''3''] loop_new measured out"
    and zero: "\<forall>r \<in> set measured. all_zero r" and finished: "\<forall>e. out \<noteq> Threw e"
    using udp_main_ends [OF args] by blast
  have "datagrams_sent loop_new = []" "datagrams_taken loop_new = []"
    by (simp_all add: loop_new_def datagrams_sent_def)
  from udp_main_prints [OF args loop_network this run] finished loop_in_order
  obtain ms sent_count where ms: "feed_output (udp_banner (?cfg, 1000)) ?cfg udp_dropped_line ms sent_count measured out \<or>
      overflowed (length ms) measured out" "length ms \<le> 3" "subseq ms ?gs" "length ms \<le> unat sent_count"
    by auto
  have "length ms \<le> 2 ^ 53" by (rule order_trans [OF ms(2)]) simp
  with ms(1) not_overflowed [OF zero]
  have "feed_output (udp_banner (?cfg, 1000)) ?cfg udp_dropped_line ms sent_count measured out" by blast
  moreover from this obtain printed where "out = Finished (Inr printed)" unfolding feed_output_def by blast
  ultimately show ?thesis using run ms(3,4) by blast
qed

text \<open>
  Property C13. The TCP program from its command line to its output, under any short transfers and
  interruptions: it ends with an exception of a socket, or prints as consumed a number \<open>m\<close>, the summaries
  of \<open>m\<close> samples of both latencies and the book of the first \<open>m\<close> generated messages, where \<open>m\<close> is at most
  the number printed as produced, or has undefined behaviour in a summary, and then the samples measured
  were not short (one above 2^50 ns, a sum above 2^53, or more than 2^53 of them). If \<open>accept\<close> succeeds and
  the connection is not cut, both numbers are equal.
\<close>

theorem tcp_main_prints:
  assumes "tcp_settings argv = Inr cfg" and "stream_network os sent_in got_out"
    and "sent_in k = []" and "got_out k = []" and "tcp_main os wall argv k measured out"
  shows "(\<exists>e. out = Threw e) \<or> (\<exists>m sent_count.
     (feed_output (tcp_banner cfg) (fst cfg) no_dropped_line
       (take m (generated wall (fs_num_messages (fst cfg)) (map of_char ''AAPL''))) sent_count measured out \<or>
      overflowed m measured out) \<and>
     m \<le> unat sent_count \<and> sent_count \<le> fs_num_messages (fst cfg) \<and>
     ((\<forall>fd k. 0 \<le> fst (os_accept os fd k)) \<longrightarrow> uncut os sent_in got_out shut \<longrightarrow> \<not> shut k \<longrightarrow>
        m = unat sent_count))"
proof (rule tcp_main.cases [OF assms(5)])
  fix e assume "tcp_settings argv = Inl e"
  with assms(1) show ?thesis by simp
next
  fix c :: "feed_settings \<times> bool" and listen_fd port k' s pins duration
  let ?gs = "generated wall (fs_num_messages (fst c)) (map of_char ''AAPL'')"
  assume measured: "measured = [fc_network (ts_consumer s), fc_processing (ts_consumer s)]"
    and out: "out = Finished (cpp_map (\<lambda>report. tcp_banner c @ pins @ report)
      (tcp_report duration (ts_producer s) (ts_consumer s)))"
    and args: "tcp_settings argv = Inr c"
    and opened: "open_tcp_feed os (fs_receive_buffer_bytes (fst c)) k = (Inr (listen_fd, port), k')"
    and run: "tcp_reachable os on_message c listen_fd port ?gs empty_book k' s"
    and over: "ts_client s = Client_Exited" "ts_server s = Server_Exited \<or> ts_server s = Server_Refused"
    and pins: "pins \<in> shuffles (ts_client_text s) (ts_server_text s)"
  have cfg: "c = cfg" using args assms(1) by simp
  have new: "sent_in k' = []" "got_out k' = []"
    using kept_helpers(7) [OF stream_network_kept(1) [OF assms(2)] opened]
      kept_helpers(7) [OF stream_network_kept(2) [OF assms(2)] opened] assms(3,4) by simp_all
  obtain m where m: "feed on_message (take m ?gs) empty_book = Inr (fc_book (ts_consumer s))"
      "unat (fc_consumed (ts_consumer s)) = m" "m \<le> unat (fs_num_messages (fst c))"
      "length (samples (fc_network (ts_consumer s))) = m" "length (samples (fc_processing (ts_consumer s))) = m"
      "m \<le> unat (fp_produced (ts_producer s))"
      "unat (fp_produced (ts_producer s)) + length (ts_todo s) = unat (fs_num_messages (fst c))"
      "uncut os sent_in got_out shut \<longrightarrow> \<not> shut k' \<longrightarrow> ts_server s = Server_Exited \<longrightarrow>
        m = unat (fp_produced (ts_producer s))"
    using tcp_progress [OF run assms(2) new, of shut] over(1) by auto
  have len: "length (take m ?gs) = m" using m(3) generated_ok(1) by simp
  have "pin_lines ''Producer'' ''Consumer'' (fs_producer_cpu (fst c)) (fs_consumer_cpu (fst c)) pins"
    using tcp_texts [OF run] over pins by (auto intro: pin_lines.intros)
  from tcp_joined_output [OF this m(1), unfolded len, OF m(2,4,5) out]
  have "feed_output (tcp_banner c) (fst c) no_dropped_line (take m ?gs) (fp_produced (ts_producer s)) measured out \<or>
      overflowed m measured out"
    unfolding measured .
  moreover have "m = unat (fp_produced (ts_producer s))"
    if "\<forall>fd k. 0 \<le> fst (os_accept os fd k)" "uncut os sent_in got_out shut" "\<not> shut k"
  proof -
    have "ts_server s = Server_Exited" using tcp_not_refused [OF run] over(2) that(1) by blast
    moreover have "\<not> shut k'" using kept_helpers(7) [OF uncutD(4) [OF that(2)] opened] that(3) by simp
    ultimately show ?thesis using m(8) that(2) by blast
  qed
  moreover have "fp_produced (ts_producer s) \<le> fs_num_messages (fst c)" using m(7) by (simp add: word_le_nat_alt)
  ultimately show ?thesis unfolding cfg using m(6) by blast
qed auto

text \<open>Three messages over the loopback kernel, 50 bytes at a time: the program prints equal counts.\<close>

theorem tcp_main_prints_witness:
  "\<exists>measured printed m sent_count.
     tcp_main (loop_tcp 50) (\<lambda>_. 7) [''tcp'', ''3''] loop_new measured (Finished (Inr printed)) \<and>
     feed_output (tcp_banner (\<lparr>fs_num_messages = 3, fs_send_buffer_bytes = 0,
       fs_receive_buffer_bytes = 0, fs_producer_cpu = - 1, fs_consumer_cpu = - 1\<rparr>, True))
       \<lparr>fs_num_messages = 3, fs_send_buffer_bytes = 0, fs_receive_buffer_bytes = 0,
        fs_producer_cpu = - 1, fs_consumer_cpu = - 1\<rparr> no_dropped_line
       (take m (generated (\<lambda>_. 7) 3 (map of_char ''AAPL''))) sent_count measured (Finished (Inr printed)) \<and>
     m = unat sent_count"
proof -
  let ?cfg = "(\<lparr>fs_num_messages = 3, fs_send_buffer_bytes = 0,
      fs_receive_buffer_bytes = 0, fs_producer_cpu = - 1, fs_consumer_cpu = - 1\<rparr>, True)"
  let ?gs = "generated (\<lambda>_. 7) 3 (map of_char ''AAPL'')"
  have args: "tcp_settings [''tcp'', ''3''] = Inr ?cfg"
    by (simp add: tcp_settings_def argument_def parse_u64_arg_def stoull_def strto_number_def
        is_space_def is_digit_def number_def digit_value_def)
  obtain measured out where run: "tcp_main (loop_tcp 50) (\<lambda>_. 7) [''tcp'', ''3''] loop_new measured out"
    and zero: "\<forall>r \<in> set measured. all_zero r" and finished: "\<forall>e. out \<noteq> Threw e"
    using tcp_main_ends [OF args zero_less_numeral] by blast
  have new: "stream_sent loop_new = []" "stream_taken loop_new = []" "\<not> stream_shut loop_new"
    by (simp_all add: loop_new_def stream_sent_def)
  have "\<forall>fd k. 0 \<le> fst (os_accept (loop_tcp 50) fd k)" by (simp add: loop_tcp_def loop_os_def loop_open_def)
  moreover have "uncut (loop_tcp 50) stream_sent stream_taken stream_shut" by (rule loop_uncut) simp
  ultimately obtain m sent_count where m:
      "feed_output (tcp_banner ?cfg) (fst ?cfg) no_dropped_line (take m ?gs) sent_count measured out \<or>
       overflowed m measured out" "m = unat sent_count" "sent_count \<le> 3"
    using tcp_main_prints [OF args loop_stream new(1,2) run, of stream_shut] new(3) finished by auto
  have "unat sent_count \<le> unat (3 :: u64)" using m(3) by (simp only: word_le_nat_alt)
  then have "m \<le> 2 ^ 53" using m(2) by simp
  with m(1) not_overflowed [OF zero]
  have "feed_output (tcp_banner ?cfg) (fst ?cfg) no_dropped_line (take m ?gs) sent_count measured out" by blast
  moreover from this obtain printed where "out = Finished (Inr printed)" unfolding feed_output_def by blast
  ultimately show ?thesis using run m(2) by (intro exI [of _ measured] exI [of _ printed] exI [of _ m]) auto
qed

end
