(* ===== verification/Unit_Tests.thy ===== *)
theory Unit_Tests
  imports Pooled_Order_Book Metrics
begin

text \<open>
  The repository's own tests, \<open>tests/test_order_book.cpp\<close> and \<open>tests/test_pooled_order_book.cpp\<close>, on
  the model: each test is the conjunction of its assertions. A dereference of an empty
  \<open>std::optional\<close> and a step with undefined behaviour fail the test; a failed assertion aborts the test
  program, whose output and exit code the last section gives.
\<close>

section \<open>Messages and assertions\<close>

definition level_is :: "price_level option \<Rightarrow> int64 \<Rightarrow> u32 \<Rightarrow> bool" where
  "level_is best p q \<longleftrightarrow>
     (case best of None \<Rightarrow> False | Some l \<Rightarrow> lvl_price l = p \<and> lvl_total_quantity l = q)"

definition quantity_is :: "price_level option \<Rightarrow> u32 \<Rightarrow> bool" where
  "quantity_is best q \<longleftrightarrow> (case best of None \<Rightarrow> False | Some l \<Rightarrow> lvl_total_quantity l = q)"

definition price_is :: "price_level option \<Rightarrow> int64 \<Rightarrow> bool" where
  "price_is best p \<longleftrightarrow> (case best of None \<Rightarrow> False | Some l \<Rightarrow> lvl_price l = p)"

text \<open>Assertions on the book after some messages.\<close>

definition after ::
  "('b \<Rightarrow> market_message \<Rightarrow> 'b cpp) \<Rightarrow> market_message list \<Rightarrow> 'b \<Rightarrow> ('b \<Rightarrow> bool) \<Rightarrow> bool" where
  "after on_msg msgs b holds \<longleftrightarrow> (case feed on_msg msgs b of Inl e \<Rightarrow> False | Inr b' \<Rightarrow> holds b')"

section \<open>The baseline book\<close>

definition test_add_buy_order :: bool where
  "test_add_buy_order = after on_message [make_message Add 1 Buy (Int64 10000) 100] empty_book
     (\<lambda>book. level_is (best_bid book) (Int64 10000) 100 \<and> total_orders book = 1)"

definition test_add_sell_order :: bool where
  "test_add_sell_order = after on_message [make_message Add 1 Sell (Int64 10500) 50] empty_book
     (\<lambda>book. level_is (best_ask book) (Int64 10500) 50 \<and> total_orders book = 1)"

definition test_best_bid_updates :: bool where
  "test_best_bid_updates = after on_message
     [make_message Add 1 Buy (Int64 10000) 100, make_message Add 2 Buy (Int64 10100) 50] empty_book
     (\<lambda>book. price_is (best_bid book) (Int64 10100))"

definition test_cancel_order :: bool where
  "test_cancel_order = after on_message [make_message Add 1 Buy (Int64 10000) 100] empty_book
     (\<lambda>book. total_orders book = 1 \<and>
        after on_message [zero_message\<lparr>msg_order_id := 1, msg_type := Cancel\<rparr>] book
          (\<lambda>book. total_orders book = 0 \<and> best_bid book = None))"

definition test_modify_order :: bool where
  "test_modify_order = after on_message [make_message Add 1 Buy (Int64 10000) 100] empty_book
     (\<lambda>book. quantity_is (best_bid book) 100 \<and>
        after on_message [zero_message\<lparr>msg_order_id := 1, msg_quantity := 150, msg_type := Modify\<rparr>] book
          (\<lambda>book. quantity_is (best_bid book) 150 \<and> total_orders book = 1))"

definition test_trade_partial_fill :: bool where
  "test_trade_partial_fill = after on_message
     [make_message Add 1 Buy (Int64 10000) 100,
      zero_message\<lparr>msg_order_id := 1, msg_quantity := 30, msg_type := Trade\<rparr>] empty_book
     (\<lambda>book. quantity_is (best_bid book) 70 \<and> total_orders book = 1)"

definition test_trade_full_fill :: bool where
  "test_trade_full_fill = after on_message
     [make_message Add 1 Buy (Int64 10000) 100,
      zero_message\<lparr>msg_order_id := 1, msg_quantity := 100, msg_type := Trade\<rparr>] empty_book
     (\<lambda>book. total_orders book = 0 \<and> best_bid book = None)"

definition test_multiple_orders_same_price :: bool where
  "test_multiple_orders_same_price = after on_message
     (map (\<lambda>i. make_message Add (100 + of_nat i) Buy (Int64 10000) 100) [0..<2]) empty_book
     (\<lambda>book. quantity_is (best_bid book) 200 \<and> total_orders book = 2)"

definition test_duplicate_add_is_ignored :: bool where
  "test_duplicate_add_is_ignored = after on_message
     [make_message Add 1 Buy (Int64 10000) 100, make_message Add 1 Buy (Int64 10100) 50] empty_book
     (\<lambda>book. level_is (best_bid book) (Int64 10000) 100 \<and> total_orders book = 1 \<and>
        buy_side_levels book = 1)"

section \<open>The pooled book\<close>

text \<open>The pool lies at any base address.\<close>

definition pooled_test_add_and_best_levels :: "u64 \<Rightarrow> bool" where
  "pooled_test_add_and_best_levels base = after pooled_on_message
     [make_message Add 1 Buy (Int64 100) 10, make_message Add 2 Sell (Int64 105) 20] (pooled_new base 16)
     (\<lambda>book. level_is (pooled_best_bid book) (Int64 100) 10 \<and>
        level_is (pooled_best_ask book) (Int64 105) 20 \<and> pool_allocations book = 2)"

definition pooled_test_cancel_recycles_order :: "u64 \<Rightarrow> bool" where
  "pooled_test_cancel_recycles_order base = after pooled_on_message
     [make_message Add 1 Buy (Int64 100) 10, make_message Cancel 1 Buy (Int64 100) 0,
      make_message Add 2 Sell (Int64 101) 5] (pooled_new base 1)
     (\<lambda>book. pooled_total_orders book = 1 \<and> pool_allocations book = 2 \<and> pool_deallocations book = 1 \<and>
        pool_exhaustions book = 0 \<and> pooled_best_ask book \<noteq> None)"

definition pooled_test_pool_exhaustion_drops_add :: "u64 \<Rightarrow> bool" where
  "pooled_test_pool_exhaustion_drops_add base = after pooled_on_message
     [make_message Add 1 Buy (Int64 100) 10, make_message Add 2 Sell (Int64 101) 5] (pooled_new base 1)
     (\<lambda>book. pooled_total_orders book = 1 \<and> pool_allocations book = 1 \<and> pool_exhaustions book = 1)"

definition pooled_test_trade_removes_filled_order :: "u64 \<Rightarrow> bool" where
  "pooled_test_trade_removes_filled_order base = after pooled_on_message
     [make_message Add 1 Buy (Int64 100) 10, make_message Trade 1 Buy (Int64 100) 10] (pooled_new base 4)
     (\<lambda>book. pooled_total_orders book = 0 \<and> pooled_best_bid book = None \<and> pool_deallocations book = 1)"

definition pooled_test_duplicate_add_is_ignored :: "u64 \<Rightarrow> bool" where
  "pooled_test_duplicate_add_is_ignored base = after pooled_on_message
     [make_message Add 1 Buy (Int64 100) 10, make_message Add 1 Buy (Int64 101) 20] (pooled_new base 4)
     (\<lambda>book. level_is (pooled_best_bid book) (Int64 100) 10 \<and> pooled_total_orders book = 1 \<and>
        pooled_buy_side_levels book = 1 \<and> pool_allocations book = 1)"

section \<open>They pass\<close>

lemma order_book_tests_pass:
  "test_add_buy_order" "test_add_sell_order" "test_best_bid_updates" "test_cancel_order"
  "test_modify_order" "test_trade_partial_fill" "test_trade_full_fill"
  "test_multiple_orders_same_price" "test_duplicate_add_is_ignored"
  by code_simp+

lemma pooled_order_book_tests_pass:
  "pooled_test_add_and_best_levels 4096" "pooled_test_cancel_recycles_order 4096"
  "pooled_test_pool_exhaustion_drops_add 4096" "pooled_test_trade_removes_filled_order 4096"
  "pooled_test_duplicate_add_is_ignored 4096"
  by code_simp+

section \<open>The test programs\<close>

text \<open>
  A test of the baseline book prints its name first and \<open>PASS\<close> last; \<open>None\<close> is the abort of an
  assertion. Nothing the tests call throws, so the handler of exceptions is not reached.
\<close>

fun run_tests :: "(string \<times> bool) list \<Rightarrow> string \<times> bool" where
  "run_tests [] = ([], True)"
| "run_tests ((name, passes) # tests) =
     (if passes
      then (case run_tests tests of (out, all) \<Rightarrow>
        (''Test: '' @ name @ ''... '' @ ''PASS'' @ newline @ out, all))
      else (''Test: '' @ name @ ''... '', False))"

definition order_book_tests_main :: "string \<times> int option" where
  "order_book_tests_main =
     (let title = ''=== Order Book Unit Tests ==='' @ newline @ newline;
          (out, all) = run_tests
            [(''add_buy_order'', test_add_buy_order), (''add_sell_order'', test_add_sell_order),
             (''best_bid_updates'', test_best_bid_updates), (''cancel_order'', test_cancel_order),
             (''modify_order'', test_modify_order), (''trade_partial_fill'', test_trade_partial_fill),
             (''trade_full_fill'', test_trade_full_fill),
             (''multiple_orders_same_price'', test_multiple_orders_same_price),
             (''duplicate_add_is_ignored'', test_duplicate_add_is_ignored)]
      in if all then (title @ out @ newline @ ''All tests passed!'' @ newline, Some 0)
         else (title @ out, None))"

definition pooled_order_book_tests_main :: "u64 \<Rightarrow> string \<times> int option" where
  "pooled_order_book_tests_main base =
     (let title = ''=== Pooled Order Book Unit Tests ==='' @ newline
      in if pooled_test_add_and_best_levels base \<and> pooled_test_cancel_recycles_order base \<and>
            pooled_test_pool_exhaustion_drops_add base \<and> pooled_test_trade_removes_filled_order base \<and>
            pooled_test_duplicate_add_is_ignored base
         then (title @ ''All pooled order book tests passed!'' @ newline, Some 0) else (title, None))"

lemma run_tests_pass: "list_all snd tests \<Longrightarrow> snd (run_tests tests)"
  by (induction tests rule: run_tests.induct) (auto split: prod.splits)

lemma test_programs_pass:
  "snd order_book_tests_main = Some 0" "snd (pooled_order_book_tests_main 4096) = Some 0"
proof -
  let ?tests = "[(''add_buy_order'', test_add_buy_order), (''add_sell_order'', test_add_sell_order),
    (''best_bid_updates'', test_best_bid_updates), (''cancel_order'', test_cancel_order),
    (''modify_order'', test_modify_order), (''trade_partial_fill'', test_trade_partial_fill),
    (''trade_full_fill'', test_trade_full_fill),
    (''multiple_orders_same_price'', test_multiple_orders_same_price),
    (''duplicate_add_is_ignored'', test_duplicate_add_is_ignored)]"
  have "snd (run_tests ?tests)" by (rule run_tests_pass) (simp add: order_book_tests_pass)
  then show "snd order_book_tests_main = Some 0"
    unfolding order_book_tests_main_def Let_def by (simp only: case_prod_beta if_True snd_conv)
  show "snd (pooled_order_book_tests_main 4096) = Some 0"
    by (simp add: pooled_order_book_tests_main_def pooled_order_book_tests_pass)
qed

end
