(* ===== verification/Spec2Isabelle.thy ===== *)
theory Spec2Isabelle
  imports Spsc_Progress Mutex_Progress Tcp_Progress Programs Threaded_Programs Feed_Programs Unit_Tests
begin

text \<open>
  A verification development for latency_lab, a C++20 laboratory that feeds generated market data to
  limit order books through different channels and measures the latency. Paths below are relative to
  \<open>src/\<close>.

  \<^bold>\<open>The program.\<close> A generator (\<open>src/generator.cpp\<close>) makes a stream of 64-byte messages
  (\<open>include/latency_lab/market_message.hpp\<close>). A book applies them: \<open>OrderBook\<close>
  (\<open>src/order_book.cpp\<close>) or \<open>PooledOrderBook\<close> (\<open>src/pooled_order_book.cpp\<close>), which keeps its
  orders in an \<open>ObjectPool\<close> (\<open>include/latency_lab/object_pool.hpp\<close>). The stream reaches the book
  directly, through a lock-free ring buffer (\<open>spsc_ring_buffer.hpp\<close>), a blocking queue
  (\<open>mutex_queue.hpp\<close>), a TCP connection or UDP datagrams (\<open>src/socket_utils.cpp\<close>). A
  \<open>LatencyRecorder\<close> (\<open>src/metrics.cpp\<close>) keeps the samples. Each file of \<open>apps/\<close> is a program that
  puts these together.

  \<^bold>\<open>Theories.\<close>
  \<^item> Prelude: fixed-width integers as words, undefined behaviour as the left side of a sum (type
    \<open>cpp\<close>), checked \<open>std::int32_t\<close> arithmetic, the signed price type as a linear order.
  \<^item> Containers: \<open>std::map\<close> and \<open>std::unordered_map\<close> as association lists (sorted for the former),
    with insert, write, erase and find.
  \<^item> Message: the enumerations and \<open>MarketMessage\<close> as a record.
  \<^item> Book_Spec: what a book promises, over the list of the resting orders in arrival order:
    \<open>spec_message\<close>, depth of a level, best level.
  \<^item> Book_Client: the locale \<open>book\<close> with the contract a client relies on, \<open>book_pair\<close> for two
    books that implement the same specification, \<open>feed\<close> (a loop over messages), and streams with
    bounded ids and quantities.
  \<^item> Order_Book: \<open>OrderBook\<close>, one definition per handler and per lambda; refinement of the
    specification, exact condition of undefined behaviour, interpretation \<open>base\<close> of \<open>book\<close>.
  \<^item> Object_Pool: slots, free list and counters; pointers are base plus index times 24.
  \<^item> Pooled_Order_Book: \<open>PooledOrderBook\<close> over the pool; refinement with exhaustion, memory
    safety, interpretation \<open>two_books\<close> of \<open>book_pair\<close> on the two books, and two inputs on which the
    books differ.
  \<^item> Generator: the linear congruential generator and the loop of \<open>generate\<close>; ranges of the
    messages; any replay of them is safe on either book.
  \<^item> Bounded_Queue: the locale \<open>bounded_queue\<close> both queues implement (interpretations \<open>ring\<close> and
    \<open>monitor\<close>): first in first out, fill, drain.
  \<^item> Ring_Buffer, Ring_Concurrent: \<open>SpscRingBuffer\<close> called sequentially, and under two threads
    with one step per shared access; \<open>spsc_inv\<close>, race freedom, linearisation, wait freedom.
  \<^item> Mutex_Queue: \<open>BoundedMutexQueue\<close>: critical sections as functions, any number of threads as
    the relation \<open>monitor_step\<close> with waiting, notification and spurious wake-ups.
  \<^item> Doubles, Metrics: IEEE double arithmetic as exact rationals rounded to 53 bits after each
    operation, and \<open>LatencyRecorder\<close> on it, with the text of \<open>print_summary\<close>; \<open>rank_value\<close> is the exact
    interpolation percentiles are compared with, \<open>short_samples\<close> what a summary is defined for.
  \<^item> Benchmarks: \<open>benchmark_single_thread\<close>, \<open>benchmark_memory_pool\<close>, \<open>benchmark_batching\<close>.
  \<^item> Spsc_Pipeline: \<open>benchmark_spsc_queue\<close> and \<open>benchmark_spsc_queue_pooled\<close>, both threads as
    \<open>pipeline_step\<close>. Mutex_Pipeline: \<open>benchmark_producer_consumer\<close>, as \<open>blocking_step\<close>.
    Spsc_Progress: from every reachable state both threads of the former can still leave. Mutex_Progress:
    the latter terminates, by a bound on the work that each step uses up.
  \<^item> Wire: the bytes of a message and their reading. Sockets: \<open>src/socket_utils.cpp\<close>,
    \<open>src/thread_utils.cpp\<close> and the functions that open the feeds' sockets, over a record of system
    calls. Feed, Tcp_Feed, Udp_Feed: the threads of \<open>benchmark_tcp_feed\<close> and \<open>benchmark_udp_feed\<close>,
    each alone on the kernel as it sees it, error paths and descriptors included.
  \<^item> Loopback: a small kernel both threads share. Udp_System, Tcp_System: both threads on one kernel, as
    \<open>udp_step\<close> and \<open>tcp_step\<close>, with the spins on \<open>receiver_ready\<close> and \<open>accept_ready\<close>. Tcp_Delivery:
    what arrives, and that a thread of \<open>tcp_step\<close> left alone does what the functions of Tcp_Feed do.
    Tcp_Progress: the TCP feed terminates, apart from spinning and interrupted calls.
  \<^item> Startup: the line a thread prints on the result of pinning.
  \<^item> False_Sharing: \<open>benchmark_false_sharing\<close>, with the locale \<open>two_counters\<close> for the accessors of
    \<open>run_case\<close> and its interpretations \<open>unpadded\<close> and \<open>padded\<close>.
  \<^item> Command_Line: \<open>std::stoull\<close>, \<open>std::stoi\<close>, the \<open>parse_*_arg\<close> functions and the settings each
    \<open>main\<close> reads.
  \<^item> Reports: what the programs print, with doubles in the default stream format. Programs: the
    programs of one thread, \<open>benchmark_single_thread\<close>, \<open>benchmark_memory_pool\<close> and
    \<open>benchmark_batching\<close>, from the arguments to the whole output. Threaded_Programs, Feed_Programs: the
    other programs likewise, as relations \<open>spsc_main\<close>, \<open>spsc_pooled_main\<close>, \<open>producer_consumer_main\<close>,
    \<open>sharing_main\<close>, \<open>udp_main\<close>, \<open>tcp_main\<close>: one outcome per interleaving and reading of the clocks,
    related with the recorders as they are when it ends. \<open>queue_output\<close> and \<open>feed_output\<close> hold of a printed
    text only; \<open>overflowed\<close> is the run that undefined behaviour in a summary ends.
  \<^item> Unit_Tests: the tests of \<open>tests/\<close> on the model, and both test programs.

  \<^bold>\<open>How code becomes definitions.\<close> A class is a record and a method a function of it; a method that
  can have undefined behaviour returns in \<open>cpp\<close>. A loop over a container is structural recursion;
  a loop that may not end (\<open>send_all\<close>, \<open>recv_all\<close>, the receive loops, the batch loop) is a partial
  function whose \<open>None\<close> is "does not return", and the properties prove that it returns; for the retry
  loops of \<open>send_all\<close> and \<open>recv_all\<close> that rests on an assumption of its own, which no documentation of the
  calls gives, that signals interrupt only finitely many calls in a row (\<open>signals_end\<close>, and the clause on
  \<open>interrupts\<close> of \<open>stream_sender\<close> and \<open>stream_receiver\<close>). Threads are
  step relations; \<open>_reachable\<close> are the states of all interleavings. Clock and CPU readings are
  arguments or arbitrary values of a step, so every property holds for all of them. System calls are
  a parameter (the record \<open>os\<close>); their behaviour is stated by the predicates \<open>takes_front\<close>,
  \<open>stream_sender\<close>, \<open>stream_receiver\<close>, \<open>unbroken\<close>, \<open>descriptors\<close>, \<open>datagram_sender\<close> and
  \<open>datagram_receiver\<close> for a thread alone, where \<open>small_os\<close> is a kernel that satisfies them. For two
  threads on one kernel they are \<open>datagram_network\<close> (a datagram received was sent), \<open>in_order\<close> (none twice,
  none early), \<open>stream_network\<close> (the bytes received are a prefix of those sent) and \<open>uncut\<close> (the stream ends
  only after \<open>shutdown\<close>, with everything delivered), where \<open>loop_udp\<close> and \<open>loop_tcp\<close> satisfy them.
  Between two calls on the shared kernel a thread works on its own state, so a step is one call that
  transfers data with the local work up to the next one; the calls that open, set up or close a socket
  transfer nothing and are one step together.

  \<^bold>\<open>What the lemmas show.\<close> Both books implement the same specification and never leave it on
  generated streams; the pool never hands out a live slot nor frees one twice; the ring buffer is free
  of data races and linearises to the sequential ring; the blocking queue loses no item and no wake-up;
  each pipeline, when it has ended, has processed every generated message once and in order, and ends in
  the book of the direct loop; the two threads of the TCP feed do so for whatever arrives, those of
  the UDP feed for any loss, duplication and reordering; the recorder's percentiles are
  linear interpolation between neighbouring samples, up to rounding. The programs of one thread, started
  with numbers, end and print their whole output. A run of a program of two threads that has joined its threads prints counts, numbers of samples
  and a final book that agree with each other and with the generated stream, unless a sample is above
  2^50 ns or their sum or number above 2^53, where the summaries can be undefined; for the queue programs,
  with capacities other than 0 and the largest, and on the loopback kernels for the feeds, a run that
  prints exists. The blocking program with a capacity above 0, the false-sharing program and the TCP feed
  terminate, with a bound on the number of steps, and the ring-buffer programs, with capacities other than
  0 and the largest, can end from every state they reach. Where the code goes wrong outside those
  conditions, a lemma gives the input.

  \<^bold>\<open>Assumptions and bounds.\<close> A little-endian 64-bit machine; container sizes below \<open>2 ^ 64\<close>; the
  acquire/release fragment of the C++ memory model as views on modification orders, with a data race as
  undefined behaviour; no fused multiply-add in the double arithmetic. Level depths below \<open>2 ^ 31\<close> are
  the condition of the refinement of \<open>OrderBook\<close>; generated streams satisfy it, since at most 10000 ids
  with quantities below 10100 occur. A pool of \<open>min n 10000\<close> slots suffices for \<open>n\<close> messages.

  \<^bold>\<open>Not modelled.\<close> Failure to allocate memory; cache effects and timing themselves; the
  non-Linux branches; the build files; and two programs that the build names but the repository does not
  contain. Of a program that an exception terminates only the exception is kept, not the text printed
  before it. No fair scheduler is modelled: that a ring-buffer program or the UDP feed ends is stated as "it
  can still end" or "some run ends", and the bounds on the steps of the blocking program and of the TCP feed
  count spurious wake-ups, turns of the spin on \<open>accept_ready\<close> and interrupted calls apart. That a system
  call blocks is not visible in the model. A datagram from a foreign sender, and bytes that are no
  generated message, are outside the feeds' properties.
\<close>

end
